(* ===== verification/Go_Prelude.thy ===== *)
theory Go_Prelude
  imports Main "HOL-Library.Word"
begin

text \<open>
  Shared ground of the development: what the Go sources use of the language and of its
  standard library (panics, signed 64-bit arithmetic, \<^verbatim>\<open>strconv\<close>, \<^verbatim>\<open>strings\<close>,
  line reading of \<^verbatim>\<open>bufio.Reader\<close>), with the lemmas the components share.
  A Go string is a byte sequence, hence \<^typ>\<open>string\<close> (a HOL character is one byte).
\<close>

named_theorems go_simps \<open>laws of the modelled standard library\<close>

subsection \<open>Panics\<close>

text \<open>
  A Go computation either returns or panics. Nothing in the repository recovers from a
  panic, so \<open>Panic\<close> stands for the end of the process.
\<close>

datatype 'a outcome = Ret 'a | Panic

fun obind :: "'a outcome \<Rightarrow> ('a \<Rightarrow> 'b outcome) \<Rightarrow> 'b outcome" where
  "obind (Ret x) f = f x"
| "obind Panic f = Panic"

lemma obind_eq_Ret [simp]: "obind m f = Ret y \<longleftrightarrow> (\<exists>x. m = Ret x \<and> f x = Ret y)"
  by (cases m) auto

lemma obind_eq_Panic: "obind m f = Panic \<longleftrightarrow> m = Panic \<or> (\<exists>x. m = Ret x \<and> f x = Panic)"
  by (cases m) auto

lemma obind_assoc: "obind (obind m f) g = obind m (\<lambda>x. obind (f x) g)"
  by (cases m) simp_all

subsection \<open>Signed 64-bit integers\<close>

definition wrap64 :: "int \<Rightarrow> int" where
  "wrap64 x = (x + 2 ^ 63) mod 2 ^ 64 - 2 ^ 63"

definition in_int64 :: "int \<Rightarrow> bool" where
  "in_int64 x \<longleftrightarrow> - (2 ^ 63) \<le> x \<and> x < 2 ^ 63"

lemma wrap64_id [simp]: "in_int64 x \<Longrightarrow> wrap64 x = x"
  by (simp add: wrap64_def in_int64_def)

lemma in_int64_wrap64 [simp, intro]: "in_int64 (wrap64 x)"
proof -
  have "0 \<le> (x + 2 ^ 63) mod 2 ^ 64" and "(x + 2 ^ 63) mod 2 ^ 64 < (2 ^ 64 :: int)"
    by simp_all
  then show ?thesis by (simp add: wrap64_def in_int64_def)
qed

lemma wrap64_over: "2 ^ 63 \<le> x \<Longrightarrow> x < 3 * 2 ^ 63 \<Longrightarrow> wrap64 x = x - 2 ^ 64"
proof -
  assume "2 ^ 63 \<le> x" "x < 3 * 2 ^ 63"
  then have "(x + 2 ^ 63 - 2 ^ 64) mod 2 ^ 64 = x + 2 ^ 63 - 2 ^ 64"
    by (intro mod_pos_pos_trivial) simp_all
  then have "(x + 2 ^ 63) mod 2 ^ 64 = x + 2 ^ 63 - 2 ^ 64"
    by (simp only: minus_mod_self2)
  then show ?thesis by (simp add: wrap64_def)
qed

lemma wrap64_under: "- (3 * 2 ^ 63) \<le> x \<Longrightarrow> x < - (2 ^ 63) \<Longrightarrow> wrap64 x = x + 2 ^ 64"
proof -
  assume "- (3 * 2 ^ 63) \<le> x" "x < - (2 ^ 63)"
  then have "(x + 2 ^ 63 + 2 ^ 64) mod 2 ^ 64 = x + 2 ^ 63 + 2 ^ 64"
    by (intro mod_pos_pos_trivial) simp_all
  then have "(x + 2 ^ 63) mod 2 ^ 64 = x + 2 ^ 63 + 2 ^ 64"
    by (simp only: mod_add_self2)
  then show ?thesis by (simp add: wrap64_def)
qed

text \<open>
  \<^verbatim>\<open>make\<close> of a slice panics when the length is negative or the bytes exceed the
  address space the runtime hands out (\<open>2\<^sup>4\<^sup>8\<close> on 64-bit Linux).
\<close>

definition make_ok :: "int \<Rightarrow> int \<Rightarrow> bool" where
  "make_ok n elem \<longleftrightarrow> 0 \<le> n \<and> n * elem \<le> 2 ^ 48"

text \<open>Go's integer division truncates towards zero.\<close>

definition go_div :: "int \<Rightarrow> int \<Rightarrow> int" where
  "go_div a b = sgn a * sgn b * (\<bar>a\<bar> div \<bar>b\<bar>)"

lemma go_div_nonneg [simp]: "0 \<le> a \<Longrightarrow> 0 < b \<Longrightarrow> go_div a b = a div b"
  by (cases "a = 0") (simp_all add: go_div_def sgn_if)

subsection \<open>Decimal numbers: strconv\<close>

definition is_digit :: "char \<Rightarrow> bool" where
  "is_digit c \<longleftrightarrow> 48 \<le> (of_char c :: nat) \<and> (of_char c :: nat) \<le> 57"

definition digit_val :: "char \<Rightarrow> int" where
  "digit_val c = int (of_char c) - 48"

definition digit_char :: "nat \<Rightarrow> char" where
  "digit_char d = ''0123456789'' ! d"

fun digits_val :: "int \<Rightarrow> string \<Rightarrow> int" where
  "digits_val n [] = n"
| "digits_val n (c # cs) = digits_val (10 * n + digit_val c) cs"

text \<open>\<^verbatim>\<open>strconv.ParseInt(s, 10, 64)\<close>: any error is \<open>None\<close> (no caller looks further).\<close>

definition ParseInt :: "string \<Rightarrow> int option" where
  "ParseInt s =
     (if s = [] then None
      else let neg = (hd s = CHR ''-'');
               ds = (if hd s = CHR ''+'' \<or> hd s = CHR ''-'' then tl s else s)
           in if ds = [] \<or> \<not> list_all is_digit ds then None
              else let un = digits_val 0 ds
                   in if \<not> neg \<and> un \<ge> 2 ^ 63 then None
                      else if neg \<and> un > 2 ^ 63 then None
                      else Some (if neg then - un else un))"

text \<open>\<^verbatim>\<open>strconv.Atoi\<close> is \<^verbatim>\<open>ParseInt(s, 10, 0)\<close>; \<^verbatim>\<open>int\<close> has 64 bits.\<close>

abbreviation Atoi :: "string \<Rightarrow> int option" where
  "Atoi \<equiv> ParseInt"

fun show_nat :: "nat \<Rightarrow> string" where
  "show_nat n = (if n < 10 then [digit_char n] else show_nat (n div 10) @ [digit_char (n mod 10)])"

declare show_nat.simps [simp del]

text \<open>\<^verbatim>\<open>strconv.FormatInt(n, 10)\<close>, \<^verbatim>\<open>strconv.Itoa\<close> and \<^verbatim>\<open>%d\<close> of \<^verbatim>\<open>fmt\<close>.\<close>

definition FormatInt :: "int \<Rightarrow> string" where
  "FormatInt n = (if n < 0 then CHR ''-'' # show_nat (nat (- n)) else show_nat (nat n))"

lemma less10_cases:
  fixes d :: nat
  assumes "d < 10"
  shows "d \<in> {0, 1, 2, 3, 4, 5, 6, 7, 8, 9}"
  using assms by auto

lemma digit_char_props:
  assumes "d < 10"
  shows "is_digit (digit_char d)" and "digit_val (digit_char d) = int d"
  using less10_cases [OF assms]
  by (auto simp: is_digit_def digit_val_def digit_char_def numeral_nat)

lemma digits_val_append: "digits_val n (xs @ ys) = digits_val (digits_val n xs) ys"
  by (induction n xs rule: digits_val.induct) auto

lemma show_nat_not_Nil [simp]: "show_nat n \<noteq> []"
  by (subst show_nat.simps) simp

lemma show_nat_digits: "list_all is_digit (show_nat n)"
proof (induction n rule: show_nat.induct)
  case (1 n)
  then show ?case
    by (subst show_nat.simps) (auto simp: digit_char_props)
qed

lemma digits_val_show_nat [simp]: "digits_val 0 (show_nat n) = int n"
proof (induction n rule: show_nat.induct)
  case (1 n)
  show ?case
  proof (cases "n < 10")
    case True
    then show ?thesis by (subst show_nat.simps) (simp add: digit_char_props)
  next
    case False
    then have "digits_val 0 (show_nat (n div 10)) = int (n div 10)" by (rule 1)
    moreover have "10 * int (n div 10) + int (n mod 10) = int n"
      by (simp add: zdiv_int zmod_int)
    ultimately show ?thesis using False
      by (subst show_nat.simps) (simp add: digits_val_append digit_char_props)
  qed
qed

lemma is_digit_not_sign:
  "is_digit c \<Longrightarrow> c \<noteq> CHR ''-'' \<and> c \<noteq> CHR ''+'' \<and> c \<noteq> CHR 0x0A \<and> c \<noteq> CHR 0x0D"
  by (auto simp: is_digit_def)

lemma hd_show_nat: "is_digit (hd (show_nat n))"
  using show_nat_digits [of n] show_nat_not_Nil [of n] by (cases "show_nat n") auto

lemma ParseInt_FormatInt [simp, go_simps]:
  assumes "in_int64 n"
  shows "ParseInt (FormatInt n) = Some n"
  using assms hd_show_nat [of "nat n"] is_digit_not_sign [of "hd (show_nat (nat n))"]
  by (auto simp: ParseInt_def FormatInt_def Let_def in_int64_def show_nat_digits)

lemma ParseInt_range: "ParseInt s = Some n \<Longrightarrow> in_int64 n"
proof -
  have nonneg: "0 \<le> m \<Longrightarrow> list_all is_digit ds \<Longrightarrow> 0 \<le> digits_val m ds" for m ds
    by (induction m ds rule: digits_val.induct) (auto simp: is_digit_def digit_val_def)
  show "ParseInt s = Some n \<Longrightarrow> in_int64 n"
    using nonneg [of 0 s] nonneg [of 0 "tl s"]
    by (auto simp: ParseInt_def in_int64_def Let_def split: if_splits)
qed

lemma FormatInt_no_eol: "c \<in> set (FormatInt n) \<Longrightarrow> c \<noteq> CHR 0x0A \<and> c \<noteq> CHR 0x0D"
  using show_nat_digits [of "nat n"] show_nat_digits [of "nat (- n)"]
  by (auto simp: FormatInt_def list_all_iff dest: is_digit_not_sign split: if_splits)

text \<open>\<^verbatim>\<open>[]byte(v)\<close>.\<close>

definition bytes :: "string \<Rightarrow> 8 word list" where
  "bytes v = map (\<lambda>c. of_char c) v"

subsection \<open>Letter case: strings.ToUpper and strings.ToLower\<close>

text \<open>
  Both functions treat an all-ASCII string byte by byte; a string with other bytes goes
  through the Unicode tables, which the model takes as a parameter \<open>uni\<close>.
\<close>

definition is_ascii :: "string \<Rightarrow> bool" where
  "is_ascii s \<longleftrightarrow> list_all (\<lambda>c. (of_char c :: nat) < 128) s"

definition upper_char :: "char \<Rightarrow> char" where
  "upper_char c = (if 97 \<le> (of_char c :: nat) \<and> (of_char c :: nat) \<le> 122
                   then char_of ((of_char c :: nat) - 32) else c)"

definition lower_char :: "char \<Rightarrow> char" where
  "lower_char c = (if 65 \<le> (of_char c :: nat) \<and> (of_char c :: nat) \<le> 90
                   then char_of ((of_char c :: nat) + 32) else c)"

definition ToUpper :: "(string \<Rightarrow> string) \<Rightarrow> string \<Rightarrow> string" where
  "ToUpper uni s = (if is_ascii s then map upper_char s else uni s)"

definition ToLower :: "(string \<Rightarrow> string) \<Rightarrow> string \<Rightarrow> string" where
  "ToLower uni s = (if is_ascii s then map lower_char s else uni s)"

subsection \<open>Reading lines: bufio.Reader.ReadString\<close>

abbreviation CR :: char where "CR \<equiv> CHR 0x0D"
abbreviation LF :: char where "LF \<equiv> CHR 0x0A"
abbreviation CRLF :: string where "CRLF \<equiv> [CR, LF]"

text \<open>
  \<^verbatim>\<open>r.ReadString('\n')\<close> on the bytes still to come: the line with its terminator and
  the rest, or \<open>None\<close> (\<^verbatim>\<open>io.EOF\<close>) when no terminator follows.
\<close>

fun ReadString :: "string \<Rightarrow> (string \<times> string) option" where
  "ReadString [] = None"
| "ReadString (c # cs) =
     (if c = LF then Some ([c], cs)
      else map_option (\<lambda>(l, r). (c # l, r)) (ReadString cs))"

lemma ReadString_append:
  "LF \<notin> set l \<Longrightarrow> ReadString (l @ LF # r) = Some (l @ [LF], r)"
  by (induction l) auto

lemma ReadString_Some: "ReadString s = Some (l, r) \<Longrightarrow> s = l @ r \<and> l \<noteq> []"
  by (induction s arbitrary: l r) (auto split: if_splits)

lemma ReadString_length: "ReadString s = Some (l, r) \<Longrightarrow> length r < length s"
  by (drule ReadString_Some) auto

end
