(* ===== verification/Sds.thy ===== *)
theory Sds
  imports Go_Prelude
begin

text \<open>
  The growable strings of \<^verbatim>\<open>core/sds/sds.go\<close>: the bytes and the capacity of the slice
  behind them. How much room the built-in \<^verbatim>\<open>append\<close> adds when it has to grow a slice is
  left to the Go runtime; it is the parameter \<open>grow\<close> (old capacity and needed length to
  new capacity), of which the language only promises that the result has room.
\<close>

record SDS =
  buf :: string
  bcap :: nat

definition sdsMaxPreAlloc :: nat where
  "sdsMaxPreAlloc = 1024 * 1024"

definition sds_New :: "string \<Rightarrow> SDS" where
  "sds_New s = \<lparr>buf = s, bcap = length s\<rparr>"

definition Len :: "SDS \<Rightarrow> nat" where
  "Len s = length (buf s)"

definition Cap :: "SDS \<Rightarrow> nat" where
  "Cap s = bcap s"

definition String :: "SDS \<Rightarrow> string" where
  "String s = buf s"

definition growTo :: "nat \<Rightarrow> SDS \<Rightarrow> SDS" where
  "growTo needed s =
     (let newCap = (if needed < sdsMaxPreAlloc then needed * 2 else needed + sdsMaxPreAlloc)
      in \<lparr>buf = buf s, bcap = newCap\<rparr>)"

text \<open>The built-in \<^verbatim>\<open>append(s.buf, bytes...)\<close>.\<close>

definition slice_append :: "(nat \<Rightarrow> nat \<Rightarrow> nat) \<Rightarrow> SDS \<Rightarrow> string \<Rightarrow> SDS" where
  "slice_append grow s bs =
     (let n = length (buf s) + length bs
      in \<lparr>buf = buf s @ bs, bcap = (if n \<le> bcap s then bcap s else grow (bcap s) n)\<rparr>)"

definition sds_append :: "(nat \<Rightarrow> nat \<Rightarrow> nat) \<Rightarrow> SDS \<Rightarrow> string \<Rightarrow> SDS" where
  "sds_append grow s bs =
     (let needed = length (buf s) + length bs;
          s1 = (if needed > sdsMaxPreAlloc then growTo needed s else s)
      in slice_append grow s1 bs)"

definition AppendString :: "(nat \<Rightarrow> nat \<Rightarrow> nat) \<Rightarrow> SDS \<Rightarrow> string \<Rightarrow> SDS" where
  "AppendString grow s v = sds_append grow s v"

definition grow_ok :: "(nat \<Rightarrow> nat \<Rightarrow> nat) \<Rightarrow> bool" where
  "grow_ok grow \<longleftrightarrow> (\<forall>c n. n \<le> grow c n)"

text \<open>A slice never holds more than its capacity.\<close>

definition sds_ok :: "SDS \<Rightarrow> bool" where
  "sds_ok s \<longleftrightarrow> length (buf s) \<le> bcap s"

lemma sds_New_ok [simp, intro]: "sds_ok (sds_New s)"
  by (simp add: sds_ok_def sds_New_def)

lemma String_New [simp]: "String (sds_New s) = s"
  by (simp add: String_def sds_New_def)

lemma String_AppendString [simp]: "String (AppendString grow s v) = String s @ v"
  by (simp add: AppendString_def sds_append_def slice_append_def growTo_def String_def Let_def)

lemma Len_eq: "Len s = length (String s)"
  by (simp add: Len_def String_def)

lemma AppendString_ok: "grow_ok grow \<Longrightarrow> sds_ok (AppendString grow s v)"
  by (auto simp: sds_ok_def grow_ok_def AppendString_def sds_append_def slice_append_def growTo_def Let_def)

lemma AppendString_large:
  assumes "length (buf s) + length v > sdsMaxPreAlloc"
  shows "Cap (AppendString grow s v) = length (buf s) + length v + sdsMaxPreAlloc"
  using assms
  by (simp add: Cap_def AppendString_def sds_append_def slice_append_def growTo_def Let_def)

fun AppendAll :: "(nat \<Rightarrow> nat \<Rightarrow> nat) \<Rightarrow> SDS \<Rightarrow> string list \<Rightarrow> SDS" where
  "AppendAll grow s [] = s"
| "AppendAll grow s (v # vs) = AppendAll grow (AppendString grow s v) vs"

lemma String_AppendAll: "String (AppendAll grow s vs) = String s @ concat vs"
  by (induction vs arbitrary: s) auto

lemma AppendAll_ok: "grow_ok grow \<Longrightarrow> sds_ok s \<Longrightarrow> sds_ok (AppendAll grow s vs)"
  by (induction vs arbitrary: s) (auto simp: AppendString_ok)

text \<open>
  Building a string from \<open>s\<close> by any sequence of appends yields exactly the
  concatenation, its length and its capacity agree with the bytes held (the capacity is
  what the store accounts for), whatever growth policy the Go runtime uses.
\<close>

lemma sds_appends:
  assumes "grow_ok grow"
  shows "String (AppendAll grow (sds_New s) vs) = s @ concat vs \<and>
    Len (AppendAll grow (sds_New s) vs) = length s + length (concat vs) \<and>
    Len (AppendAll grow (sds_New s) vs) \<le> Cap (AppendAll grow (sds_New s) vs)"
  using AppendAll_ok [OF assms sds_New_ok, of s vs]
  by (simp add: String_AppendAll Len_eq Cap_def sds_ok_def flip: String_def)

end
