(* ===== verification/Registers.thy ===== *)
theory Registers
  imports Go_Prelude
begin

text \<open>
  The registers of a HyperLogLog as an interface: 16384 small counters that only ever
  grow. Both representations of the sketch provide it, the opcode stream of
  \<^verbatim>\<open>hll_sparse.go\<close> and the packed 6-bit counters of \<^verbatim>\<open>hll.go\<close>; what follows from
  the contract alone is proved here once.
\<close>

type_synonym byte = "8 word"

text \<open>\<open>registers = 1 << p\<close> with \<open>p = 14\<close>.\<close>

definition registers :: nat where "registers = 2 ^ 14"

lemma registers_val: "registers = 16384"
  by (simp add: registers_def)

subsection \<open>Reference: pointwise maxima\<close>

definition max_put :: "byte list \<Rightarrow> nat \<times> byte \<Rightarrow> byte list" where
  "max_put rs p = rs[fst p := max (rs ! fst p) (snd p)]"

definition max_all :: "byte list \<Rightarrow> (nat \<times> byte) list \<Rightarrow> byte list" where
  "max_all rs ps = foldl max_put rs ps"

lemma max_all_simps [simp]:
  "max_all rs [] = rs" "max_all rs (p # ps) = max_all (max_put rs p) ps"
  "max_all rs (ps @ qs) = max_all (max_all rs ps) qs"
  by (simp_all add: max_all_def)

lemma length_max_put [simp]: "length (max_put rs p) = length rs"
  by (simp add: max_put_def)

lemma length_max_all [simp]: "length (max_all rs ps) = length rs"
  by (induction ps arbitrary: rs) auto

lemma max_all_nth_le:
  "k < length rs \<Longrightarrow> max_all rs ps ! k \<le> w \<longleftrightarrow> rs ! k \<le> w \<and> (\<forall>v. (k, v) \<in> set ps \<longrightarrow> v \<le> w)"
proof (induction ps arbitrary: rs)
  case (Cons p ps)
  obtain i v where p: "p = (i, v)" by fastforce
  show ?case
  proof (cases "i = k")
    case True
    with Cons p show ?thesis by (auto simp: max_put_def)
  next
    case False
    with Cons p show ?thesis by (auto simp: max_put_def)
  qed
qed simp

text \<open>The result depends on the set of updates only: neither their order nor repetitions matter.\<close>

lemma max_all_cong: "set ps = set qs \<Longrightarrow> max_all rs ps = max_all rs qs"
proof (rule nth_equalityI)
  fix k
  assume s: "set ps = set qs" and k: "k < length (max_all rs ps)"
  then have "max_all rs ps ! k \<le> w \<longleftrightarrow> max_all rs qs ! k \<le> w" for w
    by (simp add: max_all_nth_le)
  then show "max_all rs ps ! k = max_all rs qs ! k" by (meson order.antisym order.refl)
qed simp

text \<open>Registers only grow, so the last state equals the first only when nothing changed on the way.\<close>

lemma max_all_unchanged:
  assumes "max_all (max_put rs p) ps = rs"
  shows "max_put rs p = rs"
proof (rule nth_equalityI)
  fix k
  assume k: "k < length (max_put rs p)"
  have "max_put rs p ! k \<le> rs ! k"
    using max_all_nth_le [OF k, of ps "rs ! k"] assms by simp
  moreover have "rs ! k \<le> max_put rs p ! k"
    using k by (cases "k = fst p") (auto simp: max_put_def)
  ultimately show "max_put rs p ! k = rs ! k" by simp
qed simp

subsection \<open>The contract\<close>

text \<open>
  \<open>put_all\<close> is the loop shape of the sources: write a sequence of counters, remember
  whether any of them changed.
\<close>

fun put_all :: "('r \<Rightarrow> nat \<Rightarrow> byte \<Rightarrow> ('r \<times> bool) outcome) \<Rightarrow> (nat \<times> byte) list \<Rightarrow> 'r \<times> bool \<Rightarrow> ('r \<times> bool) outcome" where
  "put_all put [] (r, changed) = Ret (r, changed)"
| "put_all put ((i, v) # ps) (r, changed) =
     obind (put r i v) (\<lambda>(r', ch). put_all put ps (r', changed \<or> ch))"

locale max_registers =
  fixes ok :: "'r \<Rightarrow> bool"
    and regs :: "'r \<Rightarrow> byte list"
    and put :: "'r \<Rightarrow> nat \<Rightarrow> byte \<Rightarrow> ('r \<times> bool) outcome"
    and top :: byte
  assumes regs_length: "ok r \<Longrightarrow> length (regs r) = 16384"
    and put_regs: "ok r \<Longrightarrow> i < 16384 \<Longrightarrow> 1 \<le> unat v \<Longrightarrow> v \<le> top \<Longrightarrow>
      \<exists>r'. put r i v = Ret (r', regs r ! i < v) \<and> ok r' \<and> regs r' = (regs r)[i := max (regs r ! i) v]"
begin

text \<open>A register that changes changes the sketch, and the other way round.\<close>

lemma put_changed:
  assumes "ok r" "i < 16384" "1 \<le> unat v" "v \<le> top" "put r i v = Ret (r', ch)"
  shows "ok r' \<and> regs r' = max_put (regs r) (i, v) \<and> ch = (regs r' \<noteq> regs r)"
proof -
  from put_regs [OF assms(1-4)] assms(5)
  have *: "ch = (regs r ! i < v)" "ok r'" "regs r' = (regs r)[i := max (regs r ! i) v]" by auto
  have "regs r ! i < v \<longleftrightarrow> (regs r)[i := max (regs r ! i) v] \<noteq> regs r"
  proof (cases "regs r ! i < v")
    case True
    then have "(regs r)[i := max (regs r ! i) v] ! i \<noteq> regs r ! i"
      using assms(1,2) by (simp add: regs_length max_absorb2 less_imp_le less_imp_neq [symmetric])
    with True show ?thesis by auto
  qed (simp add: max_absorb1 not_less)
  with * show ?thesis by (simp add: max_put_def)
qed

lemma put_all_regs:
  assumes "ok r" "\<forall>(i, v) \<in> set ps. i < 16384 \<and> 1 \<le> unat v \<and> v \<le> top"
  shows "\<exists>r' ch. put_all put ps (r, changed) = Ret (r', ch) \<and> ok r' \<and> regs r' = max_all (regs r) ps \<and>
    (ch \<longleftrightarrow> changed \<or> regs r' \<noteq> regs r)"
  using assms
proof (induction ps arbitrary: r changed)
  case (Cons p ps)
  obtain i v where p: "p = (i, v)" by fastforce
  with Cons.prems have iv: "i < 16384" "1 \<le> unat v" "v \<le> top" by auto
  from put_regs [OF Cons.prems(1) iv] obtain r1 ch1 where r1: "put r i v = Ret (r1, ch1)" by blast
  note c1 = put_changed [OF Cons.prems(1) iv r1]
  have "ok r1" "\<forall>(i, v) \<in> set ps. i < 16384 \<and> 1 \<le> unat v \<and> v \<le> top"
    using c1 Cons.prems(2) by auto
  from Cons.IH [OF this, of "changed \<or> ch1"]
  obtain r' ch where r': "put_all put ps (r1, changed \<or> ch1) = Ret (r', ch)" "ok r'"
    "regs r' = max_all (regs r1) ps" "ch \<longleftrightarrow> (changed \<or> ch1) \<or> regs r' \<noteq> regs r1"
    by blast
  have mono: "regs r' = regs r \<Longrightarrow> regs r1 = regs r"
    using max_all_unchanged [of "regs r" "(i, v)" ps] c1 r'(3) by simp
  have "put_all put (p # ps) (r, changed) = Ret (r', ch)" using p r1 r'(1) by simp
  moreover have "regs r' = max_all (regs r) (p # ps)" using r'(3) c1 p by simp
  moreover have "ch \<longleftrightarrow> changed \<or> regs r' \<noteq> regs r" using r'(4) c1 mono by auto
  ultimately show ?case using r'(2) by blast
qed auto

end

text \<open>Counters that may also be written the value 0, which never changes them.\<close>

locale max_registers_zero = max_registers +
  assumes put_zero: "ok r \<Longrightarrow> i < 16384 \<Longrightarrow> put r i 0 = Ret (r, False)"
begin

lemma put_all_zero:
  assumes "ok r" "\<forall>(i, v) \<in> set ps. i < 16384 \<and> v \<le> top"
  shows "\<exists>r' ch. put_all put ps (r, changed) = Ret (r', ch) \<and> ok r' \<and> regs r' = max_all (regs r) ps \<and>
    (ch \<longleftrightarrow> changed \<or> regs r' \<noteq> regs r)"
proof -
  have skip: "put_all put ps (r, changed) = put_all put (filter (\<lambda>(i, v). v \<noteq> 0) ps) (r, changed)"
    using assms
  proof (induction ps arbitrary: r changed)
    case (Cons p ps)
    obtain i v where p: "p = (i, v)" by fastforce
    with Cons.prems have iv: "i < 16384" "v \<le> top" by auto
    show ?case
    proof (cases "v = 0")
      case True
      with Cons p iv show ?thesis by (simp add: put_zero)
    next
      case False
      then have pos: "1 \<le> unat v" by (simp add: Suc_le_eq unat_gt_0)
      from put_regs [OF Cons.prems(1) iv(1) pos iv(2)] Cons p False show ?thesis by fastforce
    qed
  qed simp
  have max: "max_all rs (filter (\<lambda>(i, v). v \<noteq> 0) ps) = max_all rs ps" for rs
    by (induction ps arbitrary: rs) (auto simp: max_put_def max_absorb1)
  have "\<forall>(i, v) \<in> set (filter (\<lambda>(i, v). v \<noteq> 0) ps). i < 16384 \<and> 1 \<le> unat v \<and> v \<le> top"
    using assms(2) by (auto simp: Suc_le_eq unat_gt_0)
  from put_all_regs [OF assms(1) this, of changed] show ?thesis unfolding skip max .
qed

end

end
