(* ===== verification/Hll_Sparse.thy ===== *)
theory Hll_Sparse
  imports Registers
begin

unbundle bit_operations_syntax

text \<open>
  The sparse representation of a HyperLogLog, \<^verbatim>\<open>store/hll/hll_sparse.go\<close>: the three
  opcodes, the walk over an opcode stream and its clients, and the in-place splitting of
  a run. A stream stands for a list of register values (\<open>expand\<close> of its \<open>runs\<close>);
  the lemmas say what each operation does to that list.
\<close>

definition hllSparseMaxBytes :: nat where "hllSparseMaxBytes = 3000"
definition sparseValMaxValue :: byte where "sparseValMaxValue = 32"
definition sparseZeroMaxLen :: nat where "sparseZeroMaxLen = 64"

subsection \<open>Opcodes\<close>

definition encodeZero :: "nat \<Rightarrow> byte" where
  "encodeZero len = word_of_int (int len - 1)"

definition encodeXZero :: "nat \<Rightarrow> byte \<times> byte" where
  "encodeXZero len =
     (let n = (word_of_int (int len - 1) :: 16 word);
          first = (ucast ((0x40 :: 16 word) OR drop_bit 8 n) :: byte);
          second = (ucast n :: byte)
      in (first, second))"

definition encodeVal :: "byte \<Rightarrow> nat \<Rightarrow> byte" where
  "encodeVal value len =
     (let v = value - 1; l = (word_of_int (int len - 1) :: byte)
      in (0x80 OR push_bit 2 v) OR l)"

datatype sparseOpKind = opZero | opXZero | opVal

definition decodeOpKind :: "byte \<Rightarrow> sparseOpKind" where
  "decodeOpKind b = (if b AND 0x80 \<noteq> 0 then opVal else if b AND 0x40 \<noteq> 0 then opXZero else opZero)"

definition decodeZero :: "byte \<Rightarrow> nat" where
  "decodeZero b = unat b + 1"

definition decodeXZero :: "byte \<Rightarrow> byte \<Rightarrow> nat" where
  "decodeXZero b0 b1 =
     (let n = push_bit 8 (ucast (b0 AND 0x3F) :: 16 word) OR (ucast b1 :: 16 word) in unat n + 1)"

definition decodeVal :: "byte \<Rightarrow> byte \<times> nat" where
  "decodeVal b = ((drop_bit 2 b AND 0x1F) + 1, unat (b AND 0x03) + 1)"

definition encodeZeroRun :: "nat \<Rightarrow> byte list" where
  "encodeZeroRun len =
     (if len \<le> sparseZeroMaxLen then [encodeZero len]
      else let (a, b) = encodeXZero len in [a, b])"

subsection \<open>Walking a stream\<close>

text \<open>
  \<open>walk\<close> is the loop of \<^verbatim>\<open>walkSparse\<close> on the bytes from the current position on, at
  register \<open>idx\<close>; the closure \<open>visit\<close> gets and returns the variables it captures.
  A stream cut inside an XZERO opcode is an index out of range.
\<close>

fun walk :: "(nat \<Rightarrow> nat \<Rightarrow> byte \<Rightarrow> 's \<Rightarrow> bool \<times> 's) \<Rightarrow> nat \<Rightarrow> byte list \<Rightarrow> 's \<Rightarrow> 's outcome" where
  "walk visit idx [] s = Ret s"
| "walk visit idx (b # bs) s =
     (case decodeOpKind b of
        opZero \<Rightarrow>
          (let len = decodeZero b; (go, s') = visit idx len 0 s
           in if go then walk visit (idx + len) bs s' else Ret s')
      | opXZero \<Rightarrow>
          (case bs of
             [] \<Rightarrow> Panic
           | b1 # bs' \<Rightarrow>
               (let len = decodeXZero b b1; (go, s') = visit idx len 0 s
                in if go then walk visit (idx + len) bs' s' else Ret s'))
      | opVal \<Rightarrow>
          (let (value, len) = decodeVal b; (go, s') = visit idx len value s
           in if go then walk visit (idx + len) bs s' else Ret s'))"

definition walkSparse :: "byte list \<Rightarrow> (nat \<Rightarrow> nat \<Rightarrow> byte \<Rightarrow> 's \<Rightarrow> bool \<times> 's) \<Rightarrow> 's \<Rightarrow> 's outcome" where
  "walkSparse sparse visit s = walk visit 0 sparse s"

definition sparseGet :: "byte list \<Rightarrow> nat \<Rightarrow> byte outcome" where
  "sparseGet sparse index =
     walkSparse sparse
       (\<lambda>startIndex runLen value result.
          if index \<ge> startIndex \<and> index < startIndex + runLen then (False, value) else (True, result))
       0"

definition sparseHisto :: "byte list \<Rightarrow> nat list outcome" where
  "sparseHisto sparse =
     walkSparse sparse
       (\<lambda>startIndex runLen value histo. (True, histo[unat value := histo ! unat value + runLen]))
       (replicate 64 0)"

text \<open>The opcodes that replace a run in which one register changes (lines 246 to 268).\<close>

definition sparseSplit :: "sparseOpKind \<Rightarrow> byte \<Rightarrow> byte \<Rightarrow> nat \<Rightarrow> nat \<Rightarrow> byte list" where
  "sparseSplit kind value val before after =
     (if kind = opVal
      then (if before > 0 then [encodeVal value before] else []) @
           [encodeVal val 1] @
           (if after > 0 then [encodeVal value after] else [])
      else (if before > 0 then encodeZeroRun before else []) @
           [encodeVal val 1] @
           (if after > 0 then encodeZeroRun after else []))"

text \<open>
  \<open>sparseSet_loop\<close> is the loop of \<^verbatim>\<open>sparseSet\<close> with its variables \<^verbatim>\<open>pos\<close> and
  \<^verbatim>\<open>idx\<close>; its last argument is \<^verbatim>\<open>sparse[pos:]\<close>.
\<close>

fun sparseSet_loop ::
  "byte list \<Rightarrow> nat \<Rightarrow> byte \<Rightarrow> nat \<Rightarrow> nat \<Rightarrow> byte list \<Rightarrow> (byte list \<times> bool) outcome" where
  "sparseSet_loop sparse index val pos idx [] = Ret (sparse, False)"
| "sparseSet_loop sparse index val pos idx (b # bs) =
     (let kind = decodeOpKind b in
      case (case kind of
              opZero \<Rightarrow> Ret (decodeZero b, 0, 1)
            | opXZero \<Rightarrow> (case bs of [] \<Rightarrow> Panic | b1 # _ \<Rightarrow> Ret (decodeXZero b b1, 0, 2))
            | opVal \<Rightarrow> (let (value, runLen) = decodeVal b in Ret (runLen, value, 1))) of
        Panic \<Rightarrow> Panic
      | Ret (runLen, value, opBytes) \<Rightarrow>
          if index \<ge> idx \<and> index < idx + runLen then
            (if value \<ge> val then Ret (sparse, False)
             else let before = index - idx;
                      after = runLen - before - 1;
                      replacement = sparseSplit kind value val before after
                  in Ret (take pos sparse @ replacement @ drop (pos + opBytes) sparse, True))
          else sparseSet_loop sparse index val (pos + opBytes) (idx + runLen) (drop (opBytes - 1) bs))"

definition sparseSet :: "byte list \<Rightarrow> nat \<Rightarrow> byte \<Rightarrow> (byte list \<times> bool) outcome" where
  "sparseSet sparse index val = sparseSet_loop sparse index val 0 0 sparse"

subsection \<open>What a stream stands for\<close>

fun runs :: "byte list \<Rightarrow> (nat \<times> byte) list option" where
  "runs [] = Some []"
| "runs (b # bs) =
     (case decodeOpKind b of
        opZero \<Rightarrow> map_option ((#) (decodeZero b, 0)) (runs bs)
      | opXZero \<Rightarrow> (case bs of [] \<Rightarrow> None | b1 # bs' \<Rightarrow> map_option ((#) (decodeXZero b b1, 0)) (runs bs'))
      | opVal \<Rightarrow> map_option ((#) (snd (decodeVal b), fst (decodeVal b))) (runs bs))"

definition expand :: "(nat \<times> byte) list \<Rightarrow> byte list" where
  "expand rs = concat (map (\<lambda>(n, v). replicate n v) rs)"

lemma expand_simps [simp]:
  "expand [] = []" "expand ((n, v) # rs) = replicate n v @ expand rs"
  "expand (rs @ ss) = expand rs @ expand ss"
  by (simp_all add: expand_def)

subsection \<open>Opcodes as numbers\<close>

lemma bit_unat: "bit (w :: 'a::len word) n \<longleftrightarrow> odd (unat w div 2 ^ n)"
  by (simp add: bit_unsigned_iff flip: bit_iff_odd)

lemma byte_bound [simp]: "unat (b :: byte) < 256" "unat (b :: byte) \<le> 255"
proof -
  have "unat b < 2 ^ LENGTH(8)" by (rule unsigned_less)
  then show "unat b < 256" "unat b \<le> 255" by simp_all
qed

lemma odd_div_half: "n < 2 * k \<Longrightarrow> odd (n div k) \<longleftrightarrow> k \<le> (n :: nat)"
proof (cases "k \<le> n")
  case True
  moreover assume "n < 2 * k"
  ultimately have "n div k = 1" by (intro div_nat_eqI) simp_all
  with True show ?thesis by simp
qed simp

lemma decodeOpKind_unat:
  "decodeOpKind b = (if 128 \<le> unat b then opVal else if 64 \<le> unat b then opXZero else opZero)"
proof -
  have "b AND 0x80 \<noteq> 0 \<longleftrightarrow> odd (unat b div 128)" "b AND 0x40 \<noteq> 0 \<longleftrightarrow> odd (unat b div 64)"
    using and_exp_eq_0_iff_not_bit [of b 7] and_exp_eq_0_iff_not_bit [of b 6]
    by (simp_all add: bit_unat)
  moreover have "odd (unat b div 128) \<longleftrightarrow> 128 \<le> unat b"
    by (intro odd_div_half) simp
  moreover have "unat b < 128 \<Longrightarrow> odd (unat b div 64) \<longleftrightarrow> 64 \<le> unat b"
    by (intro odd_div_half) simp
  ultimately show ?thesis by (auto simp: decodeOpKind_def)
qed

lemma unat_and_mask: "unat (w AND mask n) = unat (w :: 'a::len word) mod 2 ^ n"
  by (simp only: unsigned_take_bit_eq flip: take_bit_eq_mask take_bit_eq_mod)

lemma unat_add_small: "unat a + unat b < 2 ^ LENGTH('a) \<Longrightarrow> unat (a + b) = unat a + unat (b :: 'a::len word)"
  by (simp add: unat_word_ariths)

lemma unat_or_disjoint:
  assumes "a AND b = (0 :: 'a::len word)" "unat a + unat b < 2 ^ LENGTH('a)"
  shows "unat (a OR b) = unat a + unat b"
proof -
  have "a OR b = a + b" using assms(1) by (simp add: disjunctive_add_eq_or)
  then show ?thesis using assms(2) by (simp add: unat_add_small)
qed

lemma unat_push_bit: "unat w * 2 ^ n < 2 ^ LENGTH('a) \<Longrightarrow> unat (push_bit n w) = unat (w :: 'a::len word) * 2 ^ n"
  by (simp only: unsigned_push_bit_eq) (simp add: push_bit_eq_mult take_bit_eq_mod)

lemma push_bit_and_small:
  assumes "unat b < 2 ^ n"
  shows "push_bit n a AND b = (0 :: 'a::len word)"
proof (rule bit_word_eqI)
  fix m
  have "\<not> bit b m" if "n \<le> m"
    using assms that by (simp add: bit_unat less_le_trans [OF _ power_increasing])
  then show "bit (push_bit n a AND b) m = bit 0 m"
    by (auto simp: bit_simps)
qed

lemma decodeXZero_unat: "decodeXZero b0 b1 = (unat b0 mod 64) * 256 + unat b1 + 1"
proof -
  let ?a = "ucast (b0 AND 0x3F) :: 16 word" and ?b = "ucast b1 :: 16 word"
  have "unat (b0 AND 0x3F) = unat b0 mod 64"
    using unat_and_mask [of b0 6] by (simp add: mask_eq_exp_minus_1)
  then have a: "unat ?a = unat b0 mod 64" by (simp add: unsigned_ucast_eq take_bit_eq_mod)
  have b: "unat ?b = unat b1"
    using byte_bound(1) [of b1] by (simp add: unsigned_ucast_eq take_bit_eq_mod del: byte_bound)
  have p: "unat (push_bit 8 ?a) = unat b0 mod 64 * 256" using a by (subst unat_push_bit) simp_all
  have "unat (push_bit 8 ?a OR ?b) = unat (push_bit 8 ?a) + unat ?b"
  proof (rule unat_or_disjoint)
    show "push_bit 8 ?a AND ?b = 0" using b by (intro push_bit_and_small) simp
    have "unat b0 mod 64 < 64" "unat b1 < 256" by simp_all
    then have "unat b0 mod 64 * 256 + unat b1 < 65536" by linarith
    then show "unat (push_bit 8 ?a) + unat ?b < 2 ^ LENGTH(16)" using b p by simp
  qed
  then show ?thesis using b p by (simp add: decodeXZero_def)
qed

lemma decodeVal_unat:
  "unat (fst (decodeVal b)) = unat b div 4 mod 32 + 1" "snd (decodeVal b) = unat b mod 4 + 1"
proof -
  have "unat (drop_bit 2 b AND 0x1F) = unat b div 4 mod 32"
    using unat_and_mask [of "drop_bit 2 b" 5]
    by (simp add: mask_eq_exp_minus_1 drop_bit_eq_div unat_div_distrib)
  then show "unat (fst (decodeVal b)) = unat b div 4 mod 32 + 1"
    by (simp add: decodeVal_def unat_add_small)
  show "snd (decodeVal b) = unat b mod 4 + 1"
    using unat_and_mask [of b 2] by (simp add: decodeVal_def mask_eq_exp_minus_1)
qed

lemma unat_of_len:
  assumes "1 \<le> len" "len \<le> 2 ^ LENGTH('a)"
  shows "unat (word_of_nat len - 1 :: 'a::len word) = len - 1"
proof -
  have "word_of_nat len - 1 = (word_of_nat (len - 1) :: 'a word)" using assms(1) by (simp add: of_nat_diff)
  moreover have "len - 1 < 2 ^ LENGTH('a)" using assms by linarith
  ultimately show ?thesis by (simp add: unat_of_nat)
qed

lemma encodeZero_unat: "1 \<le> len \<Longrightarrow> len \<le> 64 \<Longrightarrow> unat (encodeZero len) = len - 1"
  by (simp add: encodeZero_def unat_of_len)

lemma encodeXZero_unat:
  assumes "1 \<le> len" "len \<le> 16384"
  shows "unat (fst (encodeXZero len)) = 64 + (len - 1) div 256"
    and "unat (snd (encodeXZero len)) = (len - 1) mod 256"
proof -
  let ?n = "word_of_nat len - 1 :: 16 word"
  have n: "unat ?n = len - 1" using assms by (intro unat_of_len) simp_all
  then show "unat (snd (encodeXZero len)) = (len - 1) mod 256"
    by (simp add: encodeXZero_def Let_def unsigned_ucast_eq take_bit_eq_mod)
  have d: "unat (drop_bit 8 ?n) = (len - 1) div 256"
    using n by (simp add: drop_bit_eq_div unat_div_distrib)
  have "push_bit 6 1 AND drop_bit 8 ?n = 0"
    using d assms by (intro push_bit_and_small) simp
  then have "unat ((0x40 :: 16 word) OR drop_bit 8 ?n) = 64 + (len - 1) div 256"
    using d assms by (subst unat_or_disjoint) simp_all
  moreover have "64 + (len - 1) div 256 < 256" using assms by simp
  ultimately show "unat (fst (encodeXZero len)) = 64 + (len - 1) div 256"
    by (simp add: encodeXZero_def Let_def unsigned_ucast_eq take_bit_eq_mod)
qed

lemma encodeVal_unat:
  assumes "1 \<le> unat v" "unat v \<le> 32" "1 \<le> len" "len \<le> 4"
  shows "unat (encodeVal v len) = 128 + 4 * (unat v - 1) + (len - 1)"
proof -
  let ?l = "word_of_nat len - 1 :: byte"
  have l: "unat ?l = len - 1" using assms by (intro unat_of_len) simp_all
  have "v \<noteq> 0" using assms(1) by auto
  then have v1: "unat (v - 1) = unat v - 1" by (simp add: unat_minus_one)
  then have p: "unat (push_bit 2 (v - 1)) = 4 * (unat v - 1)"
    using assms(2) by (subst unat_push_bit) simp_all
  have "push_bit 7 1 AND push_bit 2 (v - 1) = 0"
    using p assms(2) by (intro push_bit_and_small) simp
  then have h: "unat (0x80 OR push_bit 2 (v - 1)) = 128 + 4 * (unat v - 1)"
    using p assms(2) by (subst unat_or_disjoint) simp_all
  have "0x80 OR push_bit 2 (v - 1) = push_bit 2 (0x20 OR (v - 1))"
    by (simp add: push_bit_or)
  then have "(0x80 OR push_bit 2 (v - 1)) AND ?l = 0"
    using l assms push_bit_and_small [of ?l 2 "0x20 OR (v - 1)"] by simp
  then show ?thesis
    using h l assms by (simp add: encodeVal_def unat_or_disjoint)
qed

subsection \<open>Streams\<close>

lemma runs_append: "runs a = Some ra \<Longrightarrow> runs (a @ b) = map_option ((@) ra) (runs b)"
proof (induction a arbitrary: ra rule: runs.induct)
  case 1
  then show ?case by (cases "runs b") simp_all
next
  case (2 x xs)
  then show ?case
    by (cases "runs b") (auto split: sparseOpKind.splits list.splits)
qed

lemma runs_encodeVal:
  assumes "1 \<le> unat v" "unat v \<le> 32" "1 \<le> len" "len \<le> 4"
  shows "runs [encodeVal v len] = Some [(len, v)]"
proof -
  have u: "unat (encodeVal v len) = 4 * (31 + unat v) + (len - 1)"
    using encodeVal_unat [OF assms] assms(1) by simp
  have "(4 * (31 + unat v) + (len - 1)) div 4 = 31 + unat v" using assms by simp
  moreover have "(31 + unat v) mod 32 + 1 = unat v"
    using assms(1,2) mod_add_self1 [of 32 "unat v - 1"] by simp
  ultimately have "unat (fst (decodeVal (encodeVal v len))) = unat v"
    by (simp only: decodeVal_unat u)
  then have "fst (decodeVal (encodeVal v len)) = v" by (simp add: word_unat_eq_iff)
  moreover have "(4 * (31 + unat v) + (len - 1)) mod 4 + 1 = len"
    using assms by (simp only: mod_mult_self4) simp
  then have "snd (decodeVal (encodeVal v len)) = len" by (simp only: decodeVal_unat u)
  ultimately show ?thesis using u assms(1) by (simp add: decodeOpKind_unat)
qed

lemma runs_encodeZeroRun:
  assumes "1 \<le> len" "len \<le> 16384"
  shows "runs (encodeZeroRun len) = Some [(len, 0)]"
proof (cases "len \<le> 64")
  case True
  with assms encodeZero_unat [of len] show ?thesis
    by (simp add: encodeZeroRun_def sparseZeroMaxLen_def decodeOpKind_unat decodeZero_def)
next
  case False
  obtain a b where ab: "encodeXZero len = (a, b)" by fastforce
  with encodeXZero_unat [OF assms] have a: "unat a = 64 + (len - 1) div 256"
    and b: "unat b = (len - 1) mod 256" by simp_all
  have "(len - 1) div 256 < 64" using assms by simp
  then have "decodeXZero a b = len" using a b assms(1)
    by (simp add: decodeXZero_unat)
  with False ab a \<open>(len - 1) div 256 < 64\<close> show ?thesis
    by (simp add: encodeZeroRun_def sparseZeroMaxLen_def decodeOpKind_unat)
qed

definition run_ok :: "sparseOpKind \<Rightarrow> nat \<Rightarrow> byte \<Rightarrow> bool" where
  "run_ok kind n v \<longleftrightarrow>
     (if kind = opVal then 1 \<le> n \<and> n \<le> 4 \<and> 1 \<le> unat v \<and> unat v \<le> 32
      else 1 \<le> n \<and> n \<le> 16384 \<and> v = 0)"

text \<open>The first opcode of a stream and the rest of it.\<close>

definition opLen :: "byte \<Rightarrow> nat" where
  "opLen b = (if decodeOpKind b = opXZero then 2 else 1)"

lemma runs_Cons:
  assumes "runs (b # bs) = Some rs"
  obtains n v rr where "rs = (n, v) # rr" "runs (take (opLen b) (b # bs)) = Some [(n, v)]"
    "runs (drop (opLen b) (b # bs)) = Some rr" "run_ok (decodeOpKind b) n v" "opLen b \<le> length (b # bs)"
proof (cases "decodeOpKind b")
  case opZero
  with assms obtain rr where "runs bs = Some rr" "rs = (decodeZero b, 0) # rr" by auto
  moreover have "unat b < 64" using opZero by (simp add: decodeOpKind_unat split: if_splits)
  ultimately show ?thesis using opZero
    by (intro that) (auto simp: run_ok_def decodeZero_def opLen_def)
next
  case opXZero
  with assms obtain b1 bs' rr where "bs = b1 # bs'" "runs bs' = Some rr"
    "rs = (decodeXZero b b1, 0) # rr" by (auto split: list.splits)
  moreover have "decodeXZero b b1 \<le> 16384"
  proof -
    have "unat b mod 64 < 64" "unat b1 < 256" by simp_all
    then show ?thesis unfolding decodeXZero_unat by linarith
  qed
  ultimately show ?thesis using opXZero
    by (intro that) (auto simp: run_ok_def decodeXZero_unat opLen_def)
next
  case opVal
  with assms obtain rr where "runs bs = Some rr" "rs = (snd (decodeVal b), fst (decodeVal b)) # rr" by auto
  moreover have "run_ok opVal (snd (decodeVal b)) (fst (decodeVal b))"
  proof -
    have "unat b div 4 mod 32 < 32" "unat b mod 4 < 4" by simp_all
    then show ?thesis unfolding run_ok_def decodeVal_unat if_True simp_thms by linarith
  qed
  ultimately show ?thesis using opVal
    by (intro that) (auto simp: opLen_def)
qed

lemma runs_induct [consumes 1, case_names Nil Cons]:
  assumes "runs s = Some rs" "P [] []"
    and "\<And>b bs n v rr. runs (b # bs) = Some ((n, v) # rr) \<Longrightarrow>
      runs (take (opLen b) (b # bs)) = Some [(n, v)] \<Longrightarrow> runs (drop (opLen b) (b # bs)) = Some rr \<Longrightarrow>
      run_ok (decodeOpKind b) n v \<Longrightarrow> opLen b \<le> length (b # bs) \<Longrightarrow>
      P (drop (opLen b) (b # bs)) rr \<Longrightarrow> P (b # bs) ((n, v) # rr)"
  shows "P s rs"
  using assms(1)
proof (induction s arbitrary: rs rule: length_induct)
  case (1 s)
  show ?case
  proof (cases s)
    case Nil
    with 1 assms(2) show ?thesis by simp
  next
    case (Cons b bs)
    from 1(2) obtain n v rr where *: "rs = (n, v) # rr" "runs (take (opLen b) (b # bs)) = Some [(n, v)]"
      "runs (drop (opLen b) (b # bs)) = Some rr" "run_ok (decodeOpKind b) n v" "opLen b \<le> length (b # bs)"
      unfolding Cons by (rule runs_Cons)
    have "length (drop (opLen b) (b # bs)) < length s" using Cons by (simp add: opLen_def)
    with 1(1) *(3) have "P (drop (opLen b) (b # bs)) rr" by blast
    with * 1(2) show ?thesis unfolding Cons *(1) by (intro assms(3))
  qed
qed

fun visit_runs :: "(nat \<Rightarrow> nat \<Rightarrow> byte \<Rightarrow> 's \<Rightarrow> bool \<times> 's) \<Rightarrow> nat \<Rightarrow> (nat \<times> byte) list \<Rightarrow> 's \<Rightarrow> 's" where
  "visit_runs visit idx [] s = s"
| "visit_runs visit idx ((n, v) # rs) s =
     (let (go, s') = visit idx n v s in if go then visit_runs visit (idx + n) rs s' else s')"

lemma walk_runs: "runs s = Some rs \<Longrightarrow> walk visit idx s st = Ret (visit_runs visit idx rs st)"
proof (induction s arbitrary: rs idx st rule: runs.induct)
  case 1
  then show ?case by simp
next
  case (2 b bs)
  then show ?case
    by (auto simp: Let_def split: sparseOpKind.splits list.splits prod.splits)
qed

subsection \<open>Reading and updating registers\<close>

lemma sparseGet_expand:
  assumes "runs s = Some rs" "index < length (expand rs)"
  shows "sparseGet s index = Ret (expand rs ! index)"
proof -
  let ?visit = "\<lambda>startIndex runLen value result.
    if index \<ge> startIndex \<and> index < startIndex + runLen then (False, value) else (True, result)"
  have "visit_runs ?visit idx rs res =
      (if idx \<le> index \<and> index < idx + length (expand rs) then expand rs ! (index - idx) else res)" for idx res
  proof (induction rs arbitrary: idx)
    case (Cons r rs)
    then show ?case by (cases r) (auto simp: nth_append Let_def)
  qed auto
  with assms show ?thesis by (simp add: sparseGet_def walkSparse_def walk_runs)
qed

text \<open>\<open>histogram\<close> is the reference: how many registers hold each value below 64.\<close>

definition histogram :: "byte list \<Rightarrow> nat list" where
  "histogram xs = map (\<lambda>k. length (filter (\<lambda>x. unat x = k) xs)) [0..<64]"

lemma runs_value_bound: "runs s = Some rs \<Longrightarrow> (n, v) \<in> set rs \<Longrightarrow> unat v \<le> 32 \<and> 1 \<le> n"
  by (induction s rs rule: runs_induct) (auto simp: run_ok_def split: if_splits)

lemma sparseHisto_expand:
  assumes "runs s = Some rs"
  shows "sparseHisto s = Ret (histogram (expand rs))"
proof -
  let ?visit = "\<lambda>startIndex runLen value histo. (True, histo[unat value := histo ! unat value + runLen])"
  have "visit_runs ?visit idx rs h = map (\<lambda>k. h ! k + length (filter (\<lambda>x. unat x = k) (expand rs))) [0..<64]"
    if "length h = 64" "\<forall>(n, v) \<in> set rs. unat v \<le> 32" for idx h
    using that
  proof (induction rs arbitrary: idx h)
    case Nil
    then show ?case by (auto intro: nth_equalityI)
  next
    case (Cons r rs)
    obtain n v where r: "r = (n, v)" by fastforce
    with Cons.prems have "unat v < 64" "length (h[unat v := h ! unat v + n]) = 64" by auto
    with Cons r show ?case
      by (auto simp: Let_def nth_list_update)
  qed
  moreover have "\<forall>(n, v) \<in> set rs. unat v \<le> 32" using runs_value_bound [OF assms] by auto
  ultimately show ?thesis
    using assms by (simp add: sparseHisto_def walkSparse_def walk_runs histogram_def)
qed

lemma runs_sparseSplit:
  assumes "run_ok kind (before + 1 + after) v" "1 \<le> unat val" "unat val \<le> 32"
  shows "\<exists>rs. runs (sparseSplit kind v val before after) = Some rs \<and>
    expand rs = replicate before v @ [val] @ replicate after v"
proof -
  have val: "runs [encodeVal val 1] = Some [(1, val)]" using assms by (intro runs_encodeVal) simp_all
  have "\<exists>rs. runs (if n > 0 then (if kind = opVal then [encodeVal v n] else encodeZeroRun n) else []) = Some rs
      \<and> expand rs = replicate n v" if "n < before + 1 + after" for n
  proof (cases "n > 0")
    case True
    then have "runs (if kind = opVal then [encodeVal v n] else encodeZeroRun n) = Some [(n, v)]"
      using assms(1) that
      by (cases "kind = opVal")
        (simp_all del: runs.simps add: run_ok_def runs_encodeVal runs_encodeZeroRun)
    with True show ?thesis by simp
  qed simp
  from this [of before] this [of after] obtain ra rb where
    "runs (if before > 0 then (if kind = opVal then [encodeVal v before] else encodeZeroRun before) else []) = Some ra"
    "expand ra = replicate before v"
    "runs (if after > 0 then (if kind = opVal then [encodeVal v after] else encodeZeroRun after) else []) = Some rb"
    "expand rb = replicate after v"
    by auto
  moreover have "sparseSplit kind v val before after =
      (if before > 0 then (if kind = opVal then [encodeVal v before] else encodeZeroRun before) else []) @
      [encodeVal val 1] @
      (if after > 0 then (if kind = opVal then [encodeVal v after] else encodeZeroRun after) else [])"
    by (simp add: sparseSplit_def)
  ultimately show ?thesis using val
    by (simp only: runs_append) (auto intro!: exI [of _ "ra @ [(1, val)] @ rb"])
qed

text \<open>One turn of the loop of \<open>sparseSet\<close>.\<close>

lemma sparseSet_loop_Cons:
  assumes "runs (b # bs) = Some ((n, v) # rr)"
  shows "sparseSet_loop sparse index val pos idx (b # bs) =
    (if idx \<le> index \<and> index < idx + n then
       (if v \<ge> val then Ret (sparse, False)
        else Ret (take pos sparse @ sparseSplit (decodeOpKind b) v val (index - idx) (n - (index - idx) - 1)
               @ drop (pos + opLen b) sparse, True))
     else sparseSet_loop sparse index val (pos + opLen b) (idx + n) (drop (opLen b) (b # bs)))"
proof (cases "decodeOpKind b")
  case opXZero
  with assms obtain b1 bs' where "bs = b1 # bs'" "n = decodeXZero b b1" "v = 0"
    by (auto split: list.splits)
  then show ?thesis using opXZero by (simp add: Let_def opLen_def)
next
  case opZero
  with assms have "n = decodeZero b" "v = 0" by auto
  then show ?thesis using opZero by (simp add: Let_def opLen_def)
next
  case opVal
  with assms have "n = snd (decodeVal b)" "v = fst (decodeVal b)" by auto
  then show ?thesis using opVal by (simp add: Let_def opLen_def split: prod.splits)
qed

text \<open>
  The loop of \<open>sparseSet\<close> from any position: \<open>pre\<close> is the part of the stream already
  passed, \<open>rest\<close> what is left of it.
\<close>

lemma sparseSet_loop_expand:
  assumes "runs rest = Some rr" "runs pre = Some rp"
    and "length (expand rp) \<le> index" "index < length (expand (rp @ rr))"
    and "1 \<le> unat val" "unat val \<le> 32"
  shows "\<exists>out rs. sparseSet_loop (pre @ rest) index val (length pre) (length (expand rp)) rest =
      Ret (out, expand (rp @ rr) ! index < val) \<and> runs out = Some rs \<and>
      expand rs = (expand (rp @ rr))[index := max (expand (rp @ rr) ! index) val]"
  using assms
proof (induction rest rr arbitrary: pre rp rule: runs_induct)
  case Nil
  then show ?case by simp
next
  case (Cons b bs n v rr)
  let ?idx = "length (expand rp)" and ?op = "take (opLen b) (b # bs)"
  let ?before = "index - ?idx"
  have whole: "runs (pre @ b # bs) = Some (rp @ (n, v) # rr)"
    using Cons.hyps(1) Cons.prems(1) by (simp add: runs_append del: runs.simps)
  show ?case
  proof (cases "index < ?idx + n")
    case here: True
    with Cons.prems(2) have "?before < n" by linarith
    with Cons.prems(2) have old: "expand (rp @ (n, v) # rr) ! index = v" by (simp add: nth_append)
    show ?thesis
    proof (cases "val \<le> v")
      case True
      with old have "(expand (rp @ (n, v) # rr))[index := max (expand (rp @ (n, v) # rr) ! index) val] =
          expand (rp @ (n, v) # rr)"
        by (metis list_update_id max_absorb1)
      moreover have "sparseSet_loop (pre @ b # bs) index val (length pre) ?idx (b # bs) =
          Ret (pre @ b # bs, expand (rp @ (n, v) # rr) ! index < val)"
        using True here Cons.prems(2) old by (simp add: sparseSet_loop_Cons [OF Cons.hyps(1)] del: expand_simps sparseSet_loop.simps)
      ultimately show ?thesis using whole by metis
    next
      case False
      define after where "after = n - ?before - 1"
      have n: "?before + 1 + after = n" using here Cons.prems(2) by (simp add: after_def)
      with Cons.hyps(4) obtain rm where rm: "runs (sparseSplit (decodeOpKind b) v val ?before after) = Some rm"
        "expand rm = replicate ?before v @ [val] @ replicate after v"
        using runs_sparseSplit [of "decodeOpKind b" ?before after v val] Cons.prems(4,5) by auto
      have d: "drop (length pre + opLen b) (pre @ b # bs) = drop (opLen b) (b # bs)" by simp
      have r: "runs (pre @ sparseSplit (decodeOpKind b) v val ?before after @ drop (opLen b) (b # bs)) =
          Some (rp @ rm @ rr)"
        using rm(1) Cons.prems(1) Cons.hyps(3) by (simp add: runs_append del: runs.simps)
      have "replicate n v = replicate ?before v @ [v] @ replicate after v"
        using n by (metis append_Cons append_Nil replicate_Suc replicate_add Suc_eq_plus1 add.commute add.assoc)
      then have "expand (rp @ rm @ rr) = (expand (rp @ (n, v) # rr))[index := val]"
        using rm(2) Cons.prems(2) by (simp add: list_update_append)
      moreover have "max (expand (rp @ (n, v) # rr) ! index) val = val"
        using False old by (simp add: max_absorb2)
      moreover have "sparseSet_loop (pre @ b # bs) index val (length pre) ?idx (b # bs) =
          Ret (pre @ sparseSplit (decodeOpKind b) v val ?before after @ drop (opLen b) (b # bs),
               expand (rp @ (n, v) # rr) ! index < val)"
        using False here Cons.prems(2) old d
        by (simp add: sparseSet_loop_Cons [OF Cons.hyps(1)] after_def del: expand_simps sparseSet_loop.simps)
      ultimately show ?thesis using r by metis
    qed
  next
    case False
    have "runs (pre @ ?op) = Some (rp @ [(n, v)])"
      using Cons.prems(1) Cons.hyps(2) by (simp add: runs_append del: runs.simps)
    from Cons.IH [OF this] False Cons.prems(3-5) Cons.hyps(5)
    show ?thesis
      by (simp add: sparseSet_loop_Cons [OF Cons.hyps(1)] min_absorb2 del: runs.simps sparseSet_loop.simps)
  qed
qed

subsection \<open>The sparse stream as a register file\<close>

definition sparse_regs :: "byte list \<Rightarrow> byte list" where
  "sparse_regs s = (case runs s of None \<Rightarrow> [] | Some rs \<Rightarrow> expand rs)"

definition sparse_ok :: "byte list \<Rightarrow> bool" where
  "sparse_ok s \<longleftrightarrow> runs s \<noteq> None \<and> length (sparse_regs s) = 16384"

lemma sparseSet_regs:
  assumes "sparse_ok s" "index < 16384" "1 \<le> unat val" "val \<le> sparseValMaxValue"
  shows "\<exists>out. sparseSet s index val = Ret (out, sparse_regs s ! index < val) \<and> sparse_ok out \<and>
    sparse_regs out = (sparse_regs s)[index := max (sparse_regs s ! index) val]"
proof -
  from assms(1) obtain rs where rs: "runs s = Some rs" "length (expand rs) = 16384"
    by (auto simp: sparse_ok_def sparse_regs_def)
  have "unat val \<le> 32" using assms(4) by (simp add: sparseValMaxValue_def word_le_nat_alt)
  then show ?thesis
    using sparseSet_loop_expand [of s rs "[]" "[]" index val] rs assms(2,3)
    by (auto simp: sparseSet_def sparse_ok_def sparse_regs_def)
qed

interpretation sparse: max_registers sparse_ok sparse_regs sparseSet sparseValMaxValue
  by unfold_locales (simp add: sparse_ok_def, rule sparseSet_regs)

lemma sparseGet_regs:
  "sparse_ok s \<Longrightarrow> index < 16384 \<Longrightarrow> sparseGet s index = Ret (sparse_regs s ! index)"
  by (auto simp: sparse_ok_def sparse_regs_def sparseGet_expand)

lemma sparseHisto_regs: "sparse_ok s \<Longrightarrow> sparseHisto s = Ret (histogram (sparse_regs s))"
  by (auto simp: sparse_ok_def sparse_regs_def sparseHisto_expand)

subsection \<open>Properties\<close>

text \<open>
  C30: writing a register of an opcode stream, which may split a run into up to three
  opcodes, and reading registers back: the register written holds the larger of its old
  value and the new one, every other register reads as before, and the stream still
  covers exactly 16384 registers.
\<close>

theorem sparseSet_then_sparseGet:
  assumes "sparse_ok s" "i < 16384" "j < 16384" "1 \<le> unat v" "v \<le> sparseValMaxValue"
  shows "\<exists>s' ch old oldj. sparseSet s i v = Ret (s', ch) \<and> sparse_ok s' \<and>
    sparseGet s i = Ret old \<and> sparseGet s j = Ret oldj \<and>
    sparseGet s' j = Ret (if j = i then max old v else oldj) \<and> (ch \<longleftrightarrow> old < v)"
proof -
  from sparseSet_regs [OF assms(1,2,4,5)] obtain s' where s': "sparseSet s i v = Ret (s', sparse_regs s ! i < v)"
    "sparse_ok s'" "sparse_regs s' = (sparse_regs s)[i := max (sparse_regs s ! i) v]"
    by blast
  have "length (sparse_regs s) = 16384" using assms(1) by (simp add: sparse_ok_def)
  then show ?thesis using s' assms(1-3) by (auto simp: sparseGet_regs)
qed

theorem sparseSet_then_sparseGet_witness:
  "\<exists>s' ch old oldj. sparseSet [0x7F, 0xFF] 5 3 = Ret (s', ch) \<and> sparse_ok s' \<and>
    sparseGet [0x7F, 0xFF] 5 = Ret old \<and> sparseGet [0x7F, 0xFF] 7 = Ret oldj \<and>
    sparseGet s' 7 = Ret oldj \<and> (ch \<longleftrightarrow> old < 3)"
proof -
  have "runs [0x7F, 0xFF] = Some [(16384, 0)]"
    by (simp add: decodeOpKind_unat decodeXZero_unat)
  then have "sparse_ok [0x7F, 0xFF]" by (simp add: sparse_ok_def sparse_regs_def)
  from sparseSet_then_sparseGet [OF this, of 5 7 3] show ?thesis
    by (simp add: sparseValMaxValue_def)
qed

end
