(* ===== verification/Hll_Dense.thy ===== *)
theory Hll_Dense
  imports Registers
begin

unbundle bit_operations_syntax

text \<open>
  The dense representation of a HyperLogLog (\<^verbatim>\<open>store/hll/hll.go\<close>, lines 112 to 162):
  16384 counters of six bits packed into bytes. Register \<open>i\<close> is the bits \<open>6 i\<close> to
  \<open>6 i + 5\<close> of the array read as one string of bits, least significant bit first.
\<close>

definition registerMax :: byte where "registerMax = 63"

definition getDenseRegister :: "byte list \<Rightarrow> nat \<Rightarrow> byte outcome" where
  "getDenseRegister dense regnum =
     (let byteIdx = regnum * 6 div 8;
          firstBit = regnum * 6 mod 8;
          remBits = 8 - firstBit
      in if byteIdx + 1 < length dense
         then let b0 = (ucast (dense ! byteIdx) :: 16 word);
                  b1 = (ucast (dense ! (byteIdx + 1)) :: 16 word)
              in Ret (ucast ((drop_bit firstBit b0 OR push_bit remBits b1) AND ucast registerMax))
         else Panic)"

definition setDenseRegister :: "byte list \<Rightarrow> nat \<Rightarrow> byte \<Rightarrow> (byte list \<times> bool) outcome" where
  "setDenseRegister dense regnum val0 =
     (let val = (if val0 > registerMax then registerMax else val0)
      in obind (getDenseRegister dense regnum) (\<lambda>old.
         if val \<le> old then Ret (dense, False)
         else let byteIdx = regnum * 6 div 8;
                  firstBit = regnum * 6 mod 8;
                  remBits = 8 - firstBit;
                  d1 = dense[byteIdx :=
                         (dense ! byteIdx AND NOT (push_bit firstBit registerMax)) OR push_bit firstBit val];
                  d2 = d1[byteIdx + 1 :=
                         (d1 ! (byteIdx + 1) AND NOT (drop_bit remBits registerMax)) OR drop_bit remBits val]
              in Ret (d2, True)))"

definition newDenseArray :: "byte list" where
  "newDenseArray = (let size = (registers * 6 + 7) div 8 + 1 in replicate size 0)"

subsection \<open>The array as a string of bits\<close>

definition dense_ok :: "byte list \<Rightarrow> bool" where
  "dense_ok d \<longleftrightarrow> length d = 12289"

definition dbit :: "byte list \<Rightarrow> nat \<Rightarrow> bool" where
  "dbit d k = bit (d ! (k div 8)) (k mod 8)"

lemma newDenseArray_ok [simp]: "dense_ok newDenseArray"
  by (simp add: newDenseArray_def dense_ok_def registers_val)

lemma bit_registerMax: "bit registerMax j \<longleftrightarrow> j < 6"
proof -
  have *: "registerMax = mask 6" by (simp add: registerMax_def mask_eq_exp_minus_1)
  show ?thesis unfolding * by (auto simp: bit_mask_iff)
qed

lemma bit_small: "v \<le> registerMax \<Longrightarrow> bit v j \<Longrightarrow> j < 6"
proof -
  assume "v \<le> registerMax" and b: "bit v j"
  then have "unat v < 2 ^ 6" by (simp add: registerMax_def word_le_nat_alt)
  then have "take_bit 6 (unat v) = unat v" by (simp add: take_bit_nat_eq_self_iff)
  moreover have "bit (unat v) j" using b by (simp add: bit_unsigned_iff)
  ultimately show "j < 6" by (metis bit_take_bit_iff)
qed

lemma word_le_registerMaxI: "(\<And>j. bit v j \<Longrightarrow> j < 6) \<Longrightarrow> v \<le> registerMax"
proof -
  assume *: "\<And>j. bit v j \<Longrightarrow> j < 6"
  have "v AND mask 6 = v" by (rule bit_word_eqI) (use * in \<open>auto simp: bit_simps\<close>)
  then have "v \<le> mask 6" by (metis word_and_le1)
  then show ?thesis by (simp add: registerMax_def mask_eq_exp_minus_1)
qed

lemma position:
  fixes i j :: nat
  assumes "q = i * 6 div 8" "f = i * 6 mod 8"
  shows "f + j < 8 \<Longrightarrow> (6 * i + j) div 8 = q \<and> (6 * i + j) mod 8 = f + j"
    and "8 \<le> f + j \<Longrightarrow> f + j < 16 \<Longrightarrow> (6 * i + j) div 8 = q + 1 \<and> (6 * i + j) mod 8 = f + j - 8"
proof -
  have e: "6 * i + j = 8 * q + (f + j)"
    using mult_div_mod_eq [of 8 "i * 6"] assms by (simp only: mult.commute)
  show "(6 * i + j) div 8 = q \<and> (6 * i + j) mod 8 = f + j" if "f + j < 8"
    unfolding e using that by simp
  show "(6 * i + j) div 8 = q + 1 \<and> (6 * i + j) mod 8 = f + j - 8" if "8 \<le> f + j" "f + j < 16"
  proof -
    from that obtain m where m: "f + j = 8 + m" "m < 8" by (metis add_diff_inverse_nat add_less_cancel_left not_less numeral_Bit0)
    show ?thesis unfolding e m using m(2) by simp
  qed
qed

lemma getDenseRegister_bits:
  assumes "dense_ok d" "i < 16384"
  shows "\<exists>w. getDenseRegister d i = Ret w \<and> (\<forall>j. bit w j \<longleftrightarrow> j < 6 \<and> dbit d (6 * i + j))"
proof -
  define q f where qf: "q = i * 6 div 8" "f = i * 6 mod 8"
  have f: "f < 8" by (simp add: qf)
  have q: "q + 1 < length d" using assms by (simp add: dense_ok_def qf)
  let ?w = "ucast ((drop_bit f (ucast (d ! q) :: 16 word) OR push_bit (8 - f) (ucast (d ! (q + 1))))
    AND ucast registerMax) :: byte"
  have "getDenseRegister d i = Ret ?w" using q by (simp add: getDenseRegister_def Let_def qf)
  moreover have "bit ?w j \<longleftrightarrow> j < 6 \<and> dbit d (6 * i + j)" for j
  proof (cases "f + j < 8")
    case True
    with position(1) [OF qf True] f show ?thesis
      by (auto simp: bit_simps dbit_def bit_registerMax)
  next
    case False
    have "\<not> bit (d ! q) (f + j)" using False by (auto dest: bit_imp_le_length)
    with position(2) [OF qf, of j] f False show ?thesis
      by (auto simp: bit_simps dbit_def bit_registerMax add.commute)
  qed
  ultimately show ?thesis by blast
qed

subsection \<open>Writing a register\<close>

lemma setDenseRegister_bits:
  assumes "dense_ok d" "i < 16384" "getDenseRegister d i = Ret old" "old < v" "v \<le> registerMax"
  shows "\<exists>d'. setDenseRegister d i v = Ret (d', True) \<and> dense_ok d' \<and>
    (\<forall>k < 8 * 12289. dbit d' k = (if 6 * i \<le> k \<and> k < 6 * i + 6 then bit v (k - 6 * i) else dbit d k))"
proof -
  define q f where qf: "q = i * 6 div 8" "f = i * 6 mod 8"
  have f: "f < 8" by (simp add: qf)
  have q: "q + 1 < 12289" using assms(2) by (simp add: qf)
  have e: "6 * i = 8 * q + f"
    using mult_div_mod_eq [of 8 "i * 6"] qf by (simp only: mult.commute)
  let ?x = "(d ! q AND NOT (push_bit f registerMax)) OR push_bit f v"
  let ?y = "(d ! (q + 1) AND NOT (drop_bit (8 - f) registerMax)) OR drop_bit (8 - f) v"
  let ?d = "d[q := ?x, q + 1 := ?y]"
  have set: "setDenseRegister d i v = Ret (?d, True)"
    using assms(3-5) by (simp add: setDenseRegister_def Let_def not_less leD flip: qf)
  have x: "bit ?x n = (if f \<le> n \<and> n < f + 6 then bit v (n - f) else bit (d ! q) n)" if "n < 8" for n
    using that bit_small [OF assms(5), of "n - f"] by (auto simp: bit_simps bit_registerMax)
  have y: "bit ?y n = (if n + (8 - f) < 6 then bit v (n + (8 - f)) else bit (d ! (q + 1)) n)" if "n < 8" for n
    using that bit_small [OF assms(5), of "8 - f + n"]
    by (auto simp: bit_simps bit_registerMax add.commute)
  have upd: "dbit ?d k = (if 6 * i \<le> k \<and> k < 6 * i + 6 then bit v (k - 6 * i) else dbit d k)" for k
  proof -
    define b n where bn: "b = k div 8" "n = k mod 8"
    have n: "n < 8" and k: "k = 8 * b + n" by (simp_all add: bn)
    have len: "length d = 12289" using assms(1) by (simp add: dense_ok_def)
    have at: "dbit d' k = bit (d' ! b) n" for d' by (simp add: dbit_def bn)
    consider "b = q" | "b = q + 1" | "b < q \<or> b > q + 1" by linarith
    then show ?thesis
    proof cases
      case 1
      have "(6 * i \<le> k \<and> k < 6 * i + 6) = (f \<le> n \<and> n < f + 6)" "k - 6 * i = n - f" using 1 k e by auto
      with 1 x [OF n] q len show ?thesis by (simp add: at)
    next
      case 2
      have "(6 * i \<le> k \<and> k < 6 * i + 6) = (n + (8 - f) < 6)" "k - 6 * i = n + (8 - f)" using 2 k e f by auto
      with 2 y [OF n] q len show ?thesis by (simp add: at)
    next
      case 3
      then have "\<not> (6 * i \<le> k \<and> k < 6 * i + 6)" using k e f n by auto
      with 3 show ?thesis by (auto simp: at)
    qed
  qed
  moreover have "dense_ok ?d" using assms(1) by (simp add: dense_ok_def)
  ultimately show ?thesis using set by blast
qed

subsection \<open>The packed array as a register file\<close>

definition dense_regs :: "byte list \<Rightarrow> byte list" where
  "dense_regs d = map (\<lambda>i. case getDenseRegister d i of Ret w \<Rightarrow> w | Panic \<Rightarrow> 0) [0..<registers]"

lemma length_dense_regs [simp]: "length (dense_regs d) = 16384"
proof -
  have "length (dense_regs d) = registers" by (simp add: dense_regs_def)
  then show ?thesis by (simp add: registers_val)
qed

lemma getDenseRegister_regs:
  "dense_ok d \<Longrightarrow> i < 16384 \<Longrightarrow> getDenseRegister d i = Ret (dense_regs d ! i)"
proof -
  assume *: "dense_ok d" "i < 16384"
  then have i: "i < registers" by (simp add: registers_val)
  from getDenseRegister_bits [OF *] obtain w where w: "getDenseRegister d i = Ret w" by blast
  show "getDenseRegister d i = Ret (dense_regs d ! i)"
    using i by (simp add: dense_regs_def w)
qed

lemma bit_dense_regs:
  "dense_ok d \<Longrightarrow> i < 16384 \<Longrightarrow> bit (dense_regs d ! i) j \<longleftrightarrow> j < 6 \<and> dbit d (6 * i + j)"
  using getDenseRegister_bits [of d i] getDenseRegister_regs [of d i]
  by (metis outcome.inject)

lemma dense_regs_le: "dense_ok d \<Longrightarrow> i < 16384 \<Longrightarrow> dense_regs d ! i \<le> registerMax"
  by (rule word_le_registerMaxI) (simp add: bit_dense_regs)

lemma setDenseRegister_regs:
  assumes "dense_ok d" "i < 16384" "v \<le> registerMax"
  shows "\<exists>d'. setDenseRegister d i v = Ret (d', dense_regs d ! i < v) \<and> dense_ok d' \<and>
    dense_regs d' = (dense_regs d)[i := max (dense_regs d ! i) v]"
proof (cases "dense_regs d ! i < v")
  case False
  then have "setDenseRegister d i v = Ret (d, False)"
    using assms by (simp add: setDenseRegister_def getDenseRegister_regs not_less)
  with False assms(1) show ?thesis by (simp add: max_absorb1 not_less)
next
  case True
  from setDenseRegister_bits [OF assms(1,2) getDenseRegister_regs [OF assms(1,2)] True assms(3)]
  obtain d' where d': "setDenseRegister d i v = Ret (d', True)" "dense_ok d'"
    "\<And>k. k < 8 * 12289 \<Longrightarrow> dbit d' k = (if 6 * i \<le> k \<and> k < 6 * i + 6 then bit v (k - 6 * i) else dbit d k)"
    by blast
  have "dense_regs d' = (dense_regs d)[i := v]"
  proof (rule nth_equalityI)
    fix k
    assume "k < length (dense_regs d')"
    then have k: "k < 16384" by simp
    show "dense_regs d' ! k = (dense_regs d)[i := v] ! k"
    proof (rule bit_word_eqI)
      fix j
      have "j < 6 \<Longrightarrow> (6 * i \<le> 6 * k + j \<and> 6 * k + j < 6 * i + 6) = (k = i)" by auto
      then show "bit (dense_regs d' ! k) j = bit ((dense_regs d)[i := v] ! k) j"
        using k d'(3) [of "6 * k + j"] bit_small [OF assms(3), of j]
        by (cases "k = i") (auto simp: bit_dense_regs d'(2) assms(1))
    qed
  qed simp
  with d' True show ?thesis by (simp add: max_absorb2)
qed

interpretation dense: max_registers_zero dense_ok dense_regs setDenseRegister registerMax
proof
  fix r i v
  show "dense_ok r \<Longrightarrow> length (dense_regs r) = 16384" by simp
  show "dense_ok r \<Longrightarrow> i < 16384 \<Longrightarrow> 1 \<le> unat v \<Longrightarrow> v \<le> registerMax \<Longrightarrow>
    \<exists>r'. setDenseRegister r i v = Ret (r', dense_regs r ! i < v) \<and> dense_ok r' \<and>
      dense_regs r' = (dense_regs r)[i := max (dense_regs r ! i) v]"
    by (rule setDenseRegister_regs)
  show "dense_ok r \<Longrightarrow> i < 16384 \<Longrightarrow> setDenseRegister r i 0 = Ret (r, False)"
    by (simp add: setDenseRegister_def getDenseRegister_regs)
qed

lemma newDenseArray_regs: "dense_regs newDenseArray = replicate registers 0"
proof (rule nth_equalityI)
  fix i
  assume "i < length (dense_regs newDenseArray)"
  then have i: "i < 16384" by simp
  have "\<not> dbit newDenseArray (6 * i + j)" if "j < 6" for j
  proof -
    have "(6 * i + j) div 8 < 12289" using i that by linarith
    then show ?thesis by (simp add: dbit_def newDenseArray_def registers_def)
  qed
  then have "dense_regs newDenseArray ! i = 0" using i by (intro bit_word_eqI) (auto simp: bit_dense_regs)
  with i show "dense_regs newDenseArray ! i = replicate registers 0 ! i" by (simp add: registers_def)
qed (simp add: registers_def)

subsection \<open>Properties\<close>

text \<open>
  The packed counters do not overlap. Writing one 6-bit register, which touches two
  neighbouring bytes, gives it the larger of its old value and the new one (at most 63)
  and leaves each of the other 16383 registers as it was; no index leaves the array.
\<close>

lemma setDenseRegister_then_getDenseRegister:
  assumes "dense_ok d" "i < 16384" "j < 16384"
  shows "\<exists>d' ch old oldj. setDenseRegister d i v = Ret (d', ch) \<and> dense_ok d' \<and>
    getDenseRegister d i = Ret old \<and> getDenseRegister d j = Ret oldj \<and>
    getDenseRegister d' j = Ret (if j = i then max old (min v registerMax) else oldj) \<and>
    (ch \<longleftrightarrow> old < min v registerMax)"
proof -
  have "setDenseRegister d i v = setDenseRegister d i (min v registerMax)"
    by (simp add: setDenseRegister_def min_def not_le)
  with setDenseRegister_regs [OF assms(1,2), of "min v registerMax"]
  obtain d' where d': "setDenseRegister d i v = Ret (d', dense_regs d ! i < min v registerMax)" "dense_ok d'"
    "dense_regs d' = (dense_regs d)[i := max (dense_regs d ! i) (min v registerMax)]"
    by auto
  then show ?thesis using assms by (simp add: getDenseRegister_regs)
qed

end
