(* ===== verification/Murmur.thy ===== *)
theory Murmur
  imports Registers
begin

unbundle bit_operations_syntax

text \<open>
  The hash behind the HyperLogLog: \<^verbatim>\<open>store/hll/murmur.go\<close>, and the split of a hash into
  a register index and a rank (\<^verbatim>\<open>hllPatLen\<close> of \<^verbatim>\<open>hll.go\<close>). All arithmetic is on
  64-bit words and wraps, as it does in Go.
\<close>

definition murmurSeed :: "64 word" where "murmurSeed = 0xadc83b19"
definition murmurM :: "64 word" where "murmurM = 0xc6a4a7935bd1e995"
definition murmurR :: nat where "murmurR = 47"

text \<open>\<^verbatim>\<open>binary.LittleEndian.Uint64\<close>: the first byte is the least significant one.\<close>

definition Uint64 :: "byte list \<Rightarrow> 64 word" where
  "Uint64 bs = foldr (\<lambda>b acc. ucast b OR push_bit 8 acc) bs 0"

text \<open>One turn of the loop over the 8-byte blocks.\<close>

definition murmur_block :: "64 word \<Rightarrow> 64 word \<Rightarrow> 64 word" where
  "murmur_block h k0 =
     (let k1 = k0 * murmurM;
          k2 = k1 XOR drop_bit murmurR k1;
          k3 = k2 * murmurM
      in (h XOR k3) * murmurM)"

text \<open>The \<^verbatim>\<open>switch\<close> with its fallthroughs: from the last of the remaining bytes down to the first.\<close>

definition murmur_tail :: "64 word \<Rightarrow> byte list \<Rightarrow> 64 word" where
  "murmur_tail h t =
     (if t = [] then h
      else foldl (\<lambda>h i. h XOR push_bit (8 * i) (ucast (t ! i))) h (rev [0..<length t]) * murmurM)"

definition murmurHash64A :: "byte list \<Rightarrow> 64 word" where
  "murmurHash64A data =
     (let h0 = murmurSeed XOR (of_nat (length data) * murmurM);
          nblocks = length data div 8;
          h1 = foldl (\<lambda>h i. murmur_block h (Uint64 (take 8 (drop (i * 8) data)))) h0 [0..<nblocks];
          h2 = murmur_tail h1 (drop (nblocks * 8) data);
          h3 = h2 XOR drop_bit murmurR h2;
          h4 = h3 * murmurM
      in h4 XOR drop_bit murmurR h4)"

text \<open>\<^verbatim>\<open>bits.TrailingZeros64\<close>, counting from bit \<open>n\<close> on.\<close>

function trailing_from :: "nat \<Rightarrow> 64 word \<Rightarrow> nat" where
  "trailing_from n w = (if 64 \<le> n then 64 else if bit w n then n else trailing_from (Suc n) w)"
  by pat_completeness auto
termination
  by (relation "measure (\<lambda>(n, _). 64 - n)") auto

declare trailing_from.simps [simp del]

definition TrailingZeros64 :: "64 word \<Rightarrow> nat" where
  "TrailingZeros64 w = trailing_from 0 w"

definition hllPatLen :: "byte list \<Rightarrow> nat \<times> byte" where
  "hllPatLen data =
     (let hash = murmurHash64A data;
          index = hash AND (of_nat registers - 1);
          hash1 = drop_bit 14 hash;
          hash2 = hash1 OR push_bit 50 1
      in (unat index, of_nat (TrailingZeros64 hash2) + 1))"

lemma trailing_from_le: "n \<le> k \<Longrightarrow> k < 64 \<Longrightarrow> bit w k \<Longrightarrow> trailing_from n w \<le> k"
proof (induction n w rule: trailing_from.induct)
  case (1 n w)
  show ?case
  proof (cases "n = k")
    case True
    then show ?thesis using 1 by (simp add: trailing_from.simps [of k])
  next
    case False
    then show ?thesis using 1 by (simp add: trailing_from.simps [of n] Suc_le_eq)
  qed
qed

text \<open>The bit forced at position \<open>q = 50\<close> bounds the rank.\<close>

lemma TrailingZeros64_forced: "TrailingZeros64 (w OR push_bit 50 1) \<le> 50"
  unfolding TrailingZeros64_def by (rule trailing_from_le) (simp_all add: bit_simps)

lemma hllPatLen_bounds:
  assumes "hllPatLen data = (i, r)"
  shows "i < 16384" "1 \<le> unat r" "unat r \<le> 51"
proof -
  let ?h = "murmurHash64A data"
  let ?t = "TrailingZeros64 (drop_bit 14 ?h OR push_bit 50 1)"
  have i: "i = unat (?h AND (of_nat registers - 1))" and r: "r = of_nat ?t + 1"
    using assms by (simp_all add: hllPatLen_def Let_def)
  have "?h AND (of_nat registers - 1) \<le> of_nat registers - 1" by (rule word_and_le1)
  then show "i < 16384" unfolding i by (simp add: registers_val word_le_nat_alt)
  have t: "?t \<le> 50" by (rule TrailingZeros64_forced)
  have "r = of_nat (?t + 1)" unfolding r by simp
  then have "unat r = ?t + 1" using t by (simp only: unat_of_nat) (simp add: take_bit_nat_eq_self_iff)
  then show "1 \<le> unat r" "unat r \<le> 51" using t by simp_all
qed

text \<open>
  Every hash addresses a register that exists and yields a rank from 1 to 51, so
  that it fits a 6-bit counter and is never taken for the empty register.
\<close>

lemma hllPatLen_in_range:
  "fst (hllPatLen data) < registers \<and> 1 \<le> unat (snd (hllPatLen data)) \<and> unat (snd (hllPatLen data)) \<le> 51"
  using hllPatLen_bounds [of data] by (cases "hllPatLen data") (simp add: registers_val)

end
