(* ===== verification/Go_Float.thy ===== *)
theory Go_Float
  imports Complex_Main Go_Prelude
begin

text \<open>
  Floating-point numbers of the sources: what is assumed of \<^verbatim>\<open>float64\<close> arithmetic and
  of \<^verbatim>\<open>math.Log\<close>, for the cardinality estimate and the LFU counters.
\<close>

text \<open>
  A \<^verbatim>\<open>float64\<close> is a real number, every operation followed by a rounding (no operations
  are fused, as on amd64). The rounding
  \<open>rnd\<close> and the library's logarithm \<open>Log\<close> are parameters; what the code relies on is
  \<open>fp_ok\<close>: rounding is monotone and exact on the integers up to \<open>2\<^sup>5\<^sup>3\<close> and on
  one half (IEEE 754), and \<^verbatim>\<open>math.Log(1)\<close> is 0 (its documentation). \<^verbatim>\<open>math.Pow(2, v)\<close> is exact
  for the powers of two that occur, and the conversion to \<^verbatim>\<open>uint64\<close> truncates.
\<close>

record fp =
  rnd :: "real \<Rightarrow> real"
  Log :: "real \<Rightarrow> real"

definition fp_ok :: "fp \<Rightarrow> bool" where
  "fp_ok f \<longleftrightarrow> mono (rnd f) \<and> (\<forall>n. \<bar>n\<bar> \<le> 2 ^ 53 \<longrightarrow> rnd f (real_of_int n) = real_of_int n) \<and>
     rnd f (1 / 2) = 1 / 2 \<and> Log f 1 = 0"

lemma fp_okD:
  assumes "fp_ok f"
  shows "x \<le> y \<Longrightarrow> rnd f x \<le> rnd f y" "n \<le> 2 ^ 53 \<Longrightarrow> rnd f (real n) = real n"
    "rnd f (1 / 2) = 1 / 2" "Log f 1 = 0" "rnd f 0 = 0" "rnd f 1 = 1"
proof -
  have int: "\<bar>n\<bar> \<le> 2 ^ 53 \<Longrightarrow> rnd f (real_of_int n) = real_of_int n" for n
    using assms by (simp add: fp_ok_def)
  show "x \<le> y \<Longrightarrow> rnd f x \<le> rnd f y" "rnd f (1 / 2) = 1 / 2" "Log f 1 = 0"
    using assms by (auto simp: fp_ok_def mono_def)
  show "n \<le> 2 ^ 53 \<Longrightarrow> rnd f (real n) = real n" using int [of "int n"] by simp
  show "rnd f 0 = 0" "rnd f 1 = 1" using int [of 0] int [of 1] by simp_all
qed

lemma fp_ok_exact: "fp_ok \<lparr>rnd = (\<lambda>x. x), Log = ln\<rparr>"
  by (simp add: fp_ok_def mono_def)

end
