(* ===== verification/Hll.thy ===== *)
theory Hll
  imports Hll_Sparse Hll_Dense Murmur Go_Float
begin

text \<open>
  The HyperLogLog sketch of \<^verbatim>\<open>store/hll/hll.go\<close>: the two representations behind one
  record, the one-way promotion from sparse to dense, \<^verbatim>\<open>Add\<close>, \<^verbatim>\<open>Merge\<close> and
  \<^verbatim>\<open>Count\<close>. The specification is a plain list of 16384 registers: adding an element is
  one maximum, merging is the pointwise maximum, counting depends on the registers alone.
\<close>

datatype encMode = encSparse | encDense

record HLL =
  dense :: "byte list"
  sparse :: "byte list"
  enc :: encMode
  cached :: "64 word"
  dirty :: bool

definition hll_New :: HLL where
  "hll_New =
     (let (a, b) = encodeXZero registers
      in \<lparr>dense = [], sparse = [a, b], enc = encSparse, cached = 0, dirty = False\<rparr>)"

definition Size :: "HLL \<Rightarrow> nat" where
  "Size h = (if enc h = encSparse then length (sparse h) else length (dense h))"

definition hll_Encoding :: "HLL \<Rightarrow> string" where
  "hll_Encoding h = (if enc h = encSparse then ''sparse'' else ''dense'')"

text \<open>
  \<open>copy_run\<close> is the closure that \<^verbatim>\<open>promote\<close> and \<^verbatim>\<open>Merge\<close> hand to \<^verbatim>\<open>walkSparse\<close>: it
  writes one run into the dense array it captures and remembers whether a register
  changed (\<^verbatim>\<open>promote\<close> ignores that).
\<close>

definition copy_run ::
  "nat \<Rightarrow> nat \<Rightarrow> byte \<Rightarrow> (byte list \<times> bool) outcome \<Rightarrow> bool \<times> (byte list \<times> bool) outcome" where
  "copy_run startIndex runLen value st =
     (True,
      if value \<noteq> 0
      then obind st (put_all setDenseRegister (map (\<lambda>i. (startIndex + i, value)) [0..<runLen]))
      else st)"

definition copy_sparse :: "byte list \<Rightarrow> byte list \<times> bool \<Rightarrow> (byte list \<times> bool) outcome" where
  "copy_sparse s st = obind (walkSparse s copy_run (Ret st)) (\<lambda>r. r)"

definition promote :: "HLL \<Rightarrow> HLL outcome" where
  "promote h =
     obind (copy_sparse (sparse h) (newDenseArray, False)) (\<lambda>(d, _).
       Ret (h\<lparr>dense := d, sparse := [], enc := encDense\<rparr>))"

text \<open>The \<^verbatim>\<open>switch h.enc\<close> of \<^verbatim>\<open>Add\<close>, and the whole method.\<close>

definition add_register :: "HLL \<Rightarrow> nat \<Rightarrow> byte \<Rightarrow> (HLL \<times> bool) outcome" where
  "add_register h index rank =
     (case enc h of
        encSparse \<Rightarrow>
          obind (sparseSet (sparse h) index rank) (\<lambda>(newSparse, ch).
            let h1 = (if ch then h\<lparr>sparse := newSparse\<rparr> else h)
            in obind (if length (sparse h1) > hllSparseMaxBytes then promote h1 else Ret h1)
                 (\<lambda>h2. Ret (h2, ch)))
      | encDense \<Rightarrow>
          obind (setDenseRegister (dense h) index rank) (\<lambda>(d, ch). Ret (h\<lparr>dense := d\<rparr>, ch)))"

definition Add :: "HLL \<Rightarrow> byte list \<Rightarrow> (HLL \<times> bool) outcome" where
  "Add h data =
     (let (index, rank) = hllPatLen data
      in obind (if enc h = encSparse \<and> rank > sparseValMaxValue then promote h else Ret h) (\<lambda>h1.
         obind (add_register h1 index rank) (\<lambda>(h2, changed).
           Ret (if changed then h2\<lparr>dirty := True\<rparr> else h2, changed))))"

text \<open>The loop of \<^verbatim>\<open>Merge\<close> over the registers of a dense sketch.\<close>

fun copy_dense :: "byte list \<Rightarrow> nat list \<Rightarrow> byte list \<times> bool \<Rightarrow> (byte list \<times> bool) outcome" where
  "copy_dense other [] st = Ret st"
| "copy_dense other (i # is) (d, changed) =
     obind (getDenseRegister other i) (\<lambda>v.
     obind (setDenseRegister d i v) (\<lambda>(d', ch). copy_dense other is (d', changed \<or> ch)))"

definition Merge :: "HLL \<Rightarrow> HLL \<Rightarrow> (HLL \<times> bool) outcome" where
  "Merge h other =
     obind (if enc h = encSparse then promote h else Ret h) (\<lambda>h1.
     obind (case enc other of
              encDense \<Rightarrow> copy_dense (dense other) [0..<registers] (dense h1, False)
            | encSparse \<Rightarrow> copy_sparse (sparse other) (dense h1, False)) (\<lambda>(d, changed).
       let h2 = h1\<lparr>dense := d\<rparr>
       in Ret (if changed then h2\<lparr>dirty := True\<rparr> else h2, changed)))"

subsection \<open>Counting\<close>

definition alphaInf :: real where "alphaInf = 0.721347520444481703680"

definition estimate :: "fp \<Rightarrow> nat list \<Rightarrow> real" where
  "estimate f histo =
     (let m = real registers;
          alpha = rnd f alphaInf;
          s = foldl (\<lambda>acc (val, count). rnd f (acc + rnd f (real count / 2 ^ val))) 0
                (enumerate 0 histo);
          est = rnd f (rnd f (rnd f (alpha * m) * m) / s)
      in if est \<le> rnd f (2.5 * m) \<and> histo ! 0 \<noteq> 0
         then rnd f (m * Log f (rnd f (m / real (histo ! 0)))) else est)"

definition cardinality :: "fp \<Rightarrow> nat list \<Rightarrow> 64 word" where
  "cardinality f histo = word_of_int \<lfloor>rnd f (estimate f histo + 1 / 2)\<rfloor>"

fun dense_histo :: "byte list \<Rightarrow> nat list \<Rightarrow> nat list \<Rightarrow> nat list outcome" where
  "dense_histo d [] histo = Ret histo"
| "dense_histo d (i # is) histo =
     obind (getDenseRegister d i) (\<lambda>v.
       if unat v < length histo then dense_histo d is (histo[unat v := histo ! unat v + 1]) else Panic)"

definition Count :: "fp \<Rightarrow> HLL \<Rightarrow> (64 word \<times> HLL) outcome" where
  "Count f h =
     (if \<not> dirty h then Ret (cached h, h)
      else obind (case enc h of
                    encSparse \<Rightarrow> sparseHisto (sparse h)
                  | encDense \<Rightarrow> dense_histo (dense h) [0..<registers] (replicate 64 0)) (\<lambda>histo.
           let c = cardinality f histo in Ret (c, h\<lparr>cached := c, dirty := False\<rparr>)))"

subsection \<open>Copying runs and registers\<close>

lemma put_all_append: "put_all put (ps @ qs) st = obind (put_all put ps st) (put_all put qs)"
proof (induction ps arbitrary: st)
  case Nil
  show ?case by (cases st) simp
next
  case (Cons p ps)
  then show ?case by (cases st; cases p) (auto simp: obind_assoc intro!: arg_cong2 [where f = obind])
qed

text \<open>The writes a list of runs asks for, from register \<open>idx\<close> on.\<close>

fun run_puts :: "nat \<Rightarrow> (nat \<times> byte) list \<Rightarrow> (nat \<times> byte) list" where
  "run_puts idx [] = []"
| "run_puts idx ((n, v) # rs) =
     (if v \<noteq> 0 then map (\<lambda>i. (idx + i, v)) [0..<n] else []) @ run_puts (idx + n) rs"

lemma visit_copy_run:
  "visit_runs copy_run idx rs m = obind m (put_all setDenseRegister (run_puts idx rs))"
proof (induction rs arbitrary: idx m)
  case Nil
  show ?case by (cases m) auto
next
  case (Cons r rs)
  then show ?case
    by (cases r; cases m) (auto simp: copy_run_def Let_def put_all_append)
qed

lemma set_run_puts:
  "(k, v) \<in> set (run_puts idx rs) \<longleftrightarrow>
     idx \<le> k \<and> k < idx + length (expand rs) \<and> v = expand rs ! (k - idx) \<and> v \<noteq> 0"
proof (induction rs arbitrary: idx)
  case (Cons r rs)
  obtain n w where r: "r = (n, w)" by fastforce
  have "(k, v) \<in> set (map (\<lambda>i. (idx + i, w)) [0..<n]) \<longleftrightarrow> idx \<le> k \<and> k < idx + n \<and> v = w"
    by (force simp: image_iff intro: bexI [of _ "k - idx"])
  then show ?case using Cons.IH [of "idx + n"] r by (auto simp: nth_append)
qed auto

lemma max_all_pointwise:
  assumes "length rs = length xs" "\<And>k v. (k, v) \<in> set ps \<Longrightarrow> v = xs ! k"
    "\<And>k. k < length xs \<Longrightarrow> xs ! k \<noteq> 0 \<Longrightarrow> (k, xs ! k) \<in> set ps"
  shows "max_all rs ps = map2 max rs xs"
proof (rule nth_equalityI)
  fix k
  assume "k < length (max_all rs ps)"
  then have k: "k < length rs" by simp
  have "max_all rs ps ! k \<le> w \<longleftrightarrow> map2 max rs xs ! k \<le> w" for w
    using k assms by (cases "xs ! k = 0") (auto simp: max_all_nth_le)
  then show "max_all rs ps ! k = map2 max rs xs ! k" by (meson order.antisym order.refl)
qed (simp add: assms(1))

lemma sparse_regs_le:
  assumes "sparse_ok s" "k < 16384"
  shows "sparse_regs s ! k \<le> sparseValMaxValue"
proof -
  from assms(1) obtain rs where rs: "runs s = Some rs" by (auto simp: sparse_ok_def)
  have "\<forall>x \<in> set (expand rs). x \<le> sparseValMaxValue"
    using runs_value_bound [OF rs] by (auto simp: expand_def sparseValMaxValue_def word_le_nat_alt)
  then show ?thesis using assms rs by (auto simp: sparse_ok_def sparse_regs_def)
qed

lemma registerMax_bounds: "v \<le> sparseValMaxValue \<Longrightarrow> v \<le> registerMax"
  by (auto simp: sparseValMaxValue_def registerMax_def intro: order_trans)

lemma copy_sparse_regs:
  assumes "sparse_ok s" "dense_ok d"
  shows "\<exists>d' ch. copy_sparse s (d, changed) = Ret (d', ch) \<and> dense_ok d' \<and>
    dense_regs d' = map2 max (dense_regs d) (sparse_regs s) \<and>
    (ch \<longleftrightarrow> changed \<or> dense_regs d' \<noteq> dense_regs d)"
proof -
  from assms(1) obtain rs where rs: "runs s = Some rs" "sparse_regs s = expand rs" "length (expand rs) = 16384"
    by (auto simp: sparse_ok_def sparse_regs_def)
  have "copy_sparse s (d, changed) = put_all setDenseRegister (run_puts 0 rs) (d, changed)"
    by (simp add: copy_sparse_def walkSparse_def walk_runs [OF rs(1)] visit_copy_run)
  moreover have "\<forall>(i, v) \<in> set (run_puts 0 rs). i < 16384 \<and> 1 \<le> unat v \<and> v \<le> registerMax"
    using sparse_regs_le [OF assms(1)] rs(2,3)
    by (auto simp: set_run_puts Suc_le_eq unat_gt_0 intro: registerMax_bounds)
  moreover have "max_all (dense_regs d) (run_puts 0 rs) = map2 max (dense_regs d) (sparse_regs s)"
    using rs by (intro max_all_pointwise) (auto simp: set_run_puts)
  ultimately show ?thesis using dense.put_all_regs [OF assms(2), of "run_puts 0 rs" changed] by simp
qed

lemma copy_dense_puts:
  assumes "dense_ok other" "\<forall>i \<in> set is. i < 16384"
  shows "copy_dense other is st = put_all setDenseRegister (map (\<lambda>i. (i, dense_regs other ! i)) is) st"
  using assms(2)
proof (induction "is" arbitrary: st)
  case Nil
  show ?case by (cases st) simp
next
  case (Cons i "is")
  then show ?case
    by (cases st) (auto simp: getDenseRegister_regs assms(1) intro!: arg_cong2 [where f = obind])
qed

lemma copy_dense_regs:
  assumes "dense_ok other" "dense_ok d"
  shows "\<exists>d' ch. copy_dense other [0..<registers] (d, changed) = Ret (d', ch) \<and> dense_ok d' \<and>
    dense_regs d' = map2 max (dense_regs d) (dense_regs other) \<and>
    (ch \<longleftrightarrow> changed \<or> dense_regs d' \<noteq> dense_regs d)"
proof -
  let ?ps = "map (\<lambda>i. (i, dense_regs other ! i)) [0..<registers]"
  have "\<forall>(i, v) \<in> set ?ps. i < 16384 \<and> v \<le> registerMax"
    using dense_regs_le [OF assms(1)] by (auto simp: registers_def)
  moreover have "max_all (dense_regs d) ?ps = map2 max (dense_regs d) (dense_regs other)"
    by (rule max_all_pointwise) (auto simp: registers_def image_iff)
  moreover have "copy_dense other [0..<registers] (d, changed) = put_all setDenseRegister ?ps (d, changed)"
    by (rule copy_dense_puts [OF assms(1)]) (simp add: registers_def)
  ultimately show ?thesis using dense.put_all_zero [OF assms(2), of ?ps changed] by simp
qed

subsection \<open>A sketch as a list of registers\<close>

definition regs :: "HLL \<Rightarrow> byte list" where
  "regs h = (case enc h of encSparse \<Rightarrow> sparse_regs (sparse h) | encDense \<Rightarrow> dense_regs (dense h))"

definition rep_ok :: "HLL \<Rightarrow> bool" where
  "rep_ok h \<longleftrightarrow> (case enc h of encSparse \<Rightarrow> sparse_ok (sparse h) | encDense \<Rightarrow> dense_ok (dense h))"

text \<open>The cached estimate may only be served while it is the estimate of the current registers.\<close>

definition cache_ok :: "fp \<Rightarrow> HLL \<Rightarrow> bool" where
  "cache_ok f h \<longleftrightarrow> dirty h \<or> cached h = cardinality f (histogram (regs h))"

definition hll_ok :: "fp \<Rightarrow> HLL \<Rightarrow> bool" where
  "hll_ok f h \<longleftrightarrow> rep_ok h \<and> cache_ok f h"

lemma rep_frame [simp]:
  "rep_ok (h\<lparr>dirty := b\<rparr>) = rep_ok h" "regs (h\<lparr>dirty := b\<rparr>) = regs h"
  "rep_ok (h\<lparr>cached := c\<rparr>) = rep_ok h" "regs (h\<lparr>cached := c\<rparr>) = regs h"
  by (cases "enc h"; simp add: rep_ok_def regs_def)+

lemma length_regs: "rep_ok h \<Longrightarrow> length (regs h) = 16384"
  by (auto simp: rep_ok_def regs_def sparse_ok_def split: encMode.splits)

lemma map2_max_zeros: "length xs = n \<Longrightarrow> map2 max (replicate n (0 :: byte)) xs = xs"
  by (rule nth_equalityI) auto

lemma promote_regs:
  assumes "rep_ok h" "enc h = encSparse"
  shows "\<exists>h'. promote h = Ret h' \<and> rep_ok h' \<and> enc h' = encDense \<and> regs h' = regs h \<and>
    cached h' = cached h \<and> dirty h' = dirty h"
proof -
  from assms have ok: "sparse_ok (sparse h)" by (simp add: rep_ok_def)
  from copy_sparse_regs [OF ok newDenseArray_ok, of False]
  obtain d ch where d: "copy_sparse (sparse h) (newDenseArray, False) = Ret (d, ch)" "dense_ok d"
    "dense_regs d = map2 max (replicate registers 0) (sparse_regs (sparse h))"
    by (auto simp: newDenseArray_regs)
  have "dense_regs d = sparse_regs (sparse h)"
    unfolding d(3) by (rule map2_max_zeros) (use ok in \<open>simp add: sparse_ok_def registers_def\<close>)
  with d assms show ?thesis by (simp add: promote_def rep_ok_def regs_def)
qed

lemma add_register_regs:
  assumes "rep_ok h" "i < 16384" "1 \<le> unat v" "unat v \<le> 51" "enc h = encSparse \<Longrightarrow> v \<le> sparseValMaxValue"
  shows "\<exists>h' ch. add_register h i v = Ret (h', ch) \<and> rep_ok h' \<and> regs h' = max_put (regs h) (i, v) \<and>
    (ch \<longleftrightarrow> regs h' \<noteq> regs h) \<and> cached h' = cached h \<and> dirty h' = dirty h"
proof (cases "enc h")
  case encDense
  have "v \<le> registerMax" using assms(4) by (simp add: registerMax_def word_le_nat_alt)
  moreover have ok: "dense_ok (dense h)" using assms(1) encDense by (simp add: rep_ok_def)
  ultimately obtain d ch where d: "setDenseRegister (dense h) i v = Ret (d, ch)"
    using dense.put_regs [OF _ assms(2,3)] by blast
  with dense.put_changed [OF ok assms(2,3) \<open>v \<le> registerMax\<close> d] encDense
  show ?thesis by (simp add: add_register_def rep_ok_def regs_def)
next
  case encSparse
  have ok: "sparse_ok (sparse h)" using assms(1) encSparse by (simp add: rep_ok_def)
  have v: "v \<le> sparseValMaxValue" using assms(5) encSparse by simp
  obtain s ch where s: "sparseSet (sparse h) i v = Ret (s, ch)"
    using sparse.put_regs [OF ok assms(2,3) v] by blast
  note c = sparse.put_changed [OF ok assms(2,3) v s]
  let ?h = "if ch then h\<lparr>sparse := s\<rparr> else h"
  have h: "rep_ok ?h" "enc ?h = encSparse" "regs ?h = sparse_regs s" "cached ?h = cached h" "dirty ?h = dirty h"
    using c encSparse ok by (auto simp: rep_ok_def regs_def)
  have "regs h = sparse_regs (sparse h)" using encSparse by (simp add: regs_def)
  with promote_regs [OF h(1,2)] h c show ?thesis
    by (auto simp: add_register_def encSparse s Let_def)
qed

lemma Add_regs:
  assumes "rep_ok h"
  shows "\<exists>h' ch. Add h x = Ret (h', ch) \<and> rep_ok h' \<and> regs h' = max_put (regs h) (hllPatLen x) \<and>
    (ch \<longleftrightarrow> regs h' \<noteq> regs h) \<and> cached h' = cached h \<and> dirty h' = (dirty h \<or> ch)"
proof -
  obtain i v where iv: "hllPatLen x = (i, v)" by fastforce
  note b = hllPatLen_bounds [OF iv]
  obtain h1 where h1: "(if enc h = encSparse \<and> v > sparseValMaxValue then promote h else Ret h) = Ret h1"
    "rep_ok h1" "regs h1 = regs h" "cached h1 = cached h" "dirty h1 = dirty h"
    "enc h1 = encSparse \<Longrightarrow> v \<le> sparseValMaxValue"
  proof (cases "enc h = encSparse \<and> v > sparseValMaxValue")
    case True
    with promote_regs [OF assms] that show ?thesis by auto
  next
    case False
    with assms that show ?thesis by (auto simp: not_less)
  qed
  from add_register_regs [OF h1(2) b h1(6)] obtain h2 ch where h2: "add_register h1 i v = Ret (h2, ch)"
    "rep_ok h2" "regs h2 = max_put (regs h1) (i, v)" "ch \<longleftrightarrow> regs h2 \<noteq> regs h1"
    "cached h2 = cached h1" "dirty h2 = dirty h1"
    by blast
  with h1 iv show ?thesis by (auto simp: Add_def)
qed

lemma Merge_regs:
  assumes "rep_ok h" "rep_ok other"
  shows "\<exists>h' ch. Merge h other = Ret (h', ch) \<and> rep_ok h' \<and> enc h' = encDense \<and>
    regs h' = map2 max (regs h) (regs other) \<and> (ch \<longleftrightarrow> regs h' \<noteq> regs h) \<and>
    cached h' = cached h \<and> dirty h' = (dirty h \<or> ch)"
proof -
  obtain h1 where h1: "(if enc h = encSparse then promote h else Ret h) = Ret h1" "rep_ok h1"
    "enc h1 = encDense" "regs h1 = regs h" "cached h1 = cached h" "dirty h1 = dirty h"
    using promote_regs [OF assms(1)] assms(1) by (cases "enc h") auto
  have ok: "dense_ok (dense h1)" "dense_regs (dense h1) = regs h"
    using h1 by (simp_all add: rep_ok_def regs_def)
  obtain d ch where d: "(case enc other of
       encDense \<Rightarrow> copy_dense (dense other) [0..<registers] (dense h1, False)
     | encSparse \<Rightarrow> copy_sparse (sparse other) (dense h1, False)) = Ret (d, ch)" "dense_ok d"
    "dense_regs d = map2 max (regs h) (regs other)" "ch \<longleftrightarrow> dense_regs d \<noteq> regs h"
    using copy_dense_regs [OF _ ok(1), of "dense other" False] copy_sparse_regs [OF _ ok(1), of "sparse other" False]
      assms(2) ok(2)
    by (cases "enc other") (auto simp: rep_ok_def regs_def)
  let ?h = "h1\<lparr>dense := d\<rparr>"
  have "rep_ok ?h" "regs ?h = dense_regs d"
    using d(2) h1(3) by (simp_all add: rep_ok_def regs_def)
  with h1 d show ?thesis by (auto simp: Merge_def Let_def)
qed

subsection \<open>The estimate and its cache\<close>

lemma dense_histo_regs:
  assumes "dense_ok d"
  shows "dense_histo d [0..<registers] (replicate 64 0) = Ret (histogram (dense_regs d))"
proof -
  have gen: "dense_histo d is h =
      Ret (map (\<lambda>k. h ! k + length (filter (\<lambda>x. unat x = k) (map ((!) (dense_regs d)) is))) [0..<64])"
    if "length h = 64" "\<forall>i \<in> set is. i < 16384" for "is" h
    using that
  proof (induction "is" arbitrary: h)
    case Nil
    then show ?case by (auto intro: nth_equalityI)
  next
    case (Cons i "is")
    have "unat (dense_regs d ! i) < 64"
      using dense_regs_le [OF assms, of i] Cons.prems(2) by (simp add: registerMax_def word_le_nat_alt)
    with Cons show ?case by (auto simp: getDenseRegister_regs assms nth_list_update)
  qed
  have "map ((!) (dense_regs d)) [0..<registers] = dense_regs d"
    using map_nth [of "dense_regs d"] by (simp add: registers_val)
  moreover have "\<forall>i \<in> set [0..<registers]. i < 16384" by (simp add: registers_val)
  ultimately show ?thesis using gen [of "replicate 64 0" "[0..<registers]"] by (simp add: histogram_def)
qed

lemma sum_zeros:
  assumes "rnd f 0 = 0" "rnd f acc = acc"
  shows "foldl (\<lambda>acc (val, count). rnd f (acc + rnd f (real count / 2 ^ val))) acc
    (enumerate n (replicate k 0)) = acc"
  using assms by (induction k arbitrary: n) auto

lemma estimate_empty:
  assumes "fp_ok f"
  shows "estimate f (registers # replicate 63 0) = 0"
proof -
  note fp = fp_okD [OF assms]
  let ?m = "real registers"
  have m: "rnd f ?m = ?m" "rnd f (?m * ?m) = ?m * ?m" "0 < ?m"
    using fp(2) [of registers] fp(2) [of "registers * registers"] by (simp_all add: registers_def)
  have s: "foldl (\<lambda>acc (val, count). rnd f (acc + rnd f (real count / 2 ^ val))) 0
      (enumerate 0 (registers # replicate 63 0)) = ?m"
    using sum_zeros [OF fp(5) m(1)] m(1) by simp
  have "rnd f alphaInf \<le> 1" using fp(1) [of alphaInf 1] fp(6) by (simp add: alphaInf_def)
  then have "rnd f (rnd f alphaInf * ?m) \<le> ?m"
    using fp(1) [of "rnd f alphaInf * ?m" ?m] m by (simp add: mult_le_cancel_right1)
  then have "rnd f (rnd f (rnd f alphaInf * ?m) * ?m) \<le> ?m * ?m"
    using fp(1) [of "rnd f (rnd f alphaInf * ?m) * ?m" "?m * ?m"] m by simp
  then have "rnd f (rnd f (rnd f alphaInf * ?m) * ?m) / ?m \<le> ?m"
    using m(3) by (simp add: divide_le_eq)
  then have "rnd f (rnd f (rnd f alphaInf * ?m) * ?m) / ?m \<le> 2.5 * ?m"
    using m(3) by linarith
  then have "rnd f (rnd f (rnd f (rnd f alphaInf * ?m) * ?m) / ?m) \<le> rnd f (2.5 * ?m)"
    by (rule fp(1))
  then show ?thesis
    using m(3) fp by (simp add: estimate_def Let_def s del: enumerate_simps foldl_Cons)
qed

lemma histogram_zeros: "histogram (replicate registers 0) = registers # replicate 63 0"
proof -
  have "histogram (replicate registers 0) ! k = (registers # replicate 63 0) ! k" if "k < 64" for k
    using that by (cases k) (auto simp: histogram_def filter_replicate)
  then show ?thesis by (intro nth_equalityI) (auto simp: histogram_def)
qed

subsection \<open>Operations keep the invariant\<close>

lemma hll_New_regs: "rep_ok hll_New" "regs hll_New = replicate registers 0"
proof -
  have "runs (encodeZeroRun registers) = Some [(registers, 0)]"
    by (rule runs_encodeZeroRun) (simp_all add: registers_def)
  then have "runs (sparse hll_New) = Some [(registers, 0)]" "enc hll_New = encSparse"
    by (simp_all add: hll_New_def encodeZeroRun_def sparseZeroMaxLen_def registers_def split: prod.splits)
  then show "rep_ok hll_New" "regs hll_New = replicate registers 0"
    by (simp_all add: rep_ok_def regs_def sparse_ok_def sparse_regs_def registers_val)
qed

lemma hll_New_ok: "fp_ok f \<Longrightarrow> hll_ok f hll_New"
proof -
  assume f: "fp_ok f"
  have "\<lfloor>rnd f (1 / 2)\<rfloor> = 0" by (subst fp_okD(3) [OF f]) simp
  then have "cardinality f (histogram (replicate registers 0)) = 0"
    by (simp add: cardinality_def histogram_zeros estimate_empty [OF f])
  moreover have "cached hll_New = 0" by (simp add: hll_New_def split: prod.splits)
  ultimately show ?thesis by (simp add: hll_ok_def cache_ok_def hll_New_regs)
qed

lemma cache_ok_step:
  assumes "cache_ok f h" "cached h' = cached h" "dirty h' = (dirty h \<or> ch)" "ch \<longleftrightarrow> regs h' \<noteq> regs h"
  shows "cache_ok f h'"
  using assms by (auto simp: cache_ok_def)

lemma Count_regs:
  assumes "hll_ok f h"
  shows "\<exists>h'. Count f h = Ret (cardinality f (histogram (regs h)), h') \<and> hll_ok f h' \<and>
    regs h' = regs h \<and> enc h' = enc h \<and> Size h' = Size h \<and> \<not> dirty h'"
proof (cases "dirty h")
  case False
  with assms show ?thesis by (auto simp: Count_def hll_ok_def cache_ok_def)
next
  case True
  have "(case enc h of encSparse \<Rightarrow> sparseHisto (sparse h)
      | encDense \<Rightarrow> dense_histo (dense h) [0..<registers] (replicate 64 0)) = Ret (histogram (regs h))"
    using assms by (cases "enc h") (simp_all add: hll_ok_def rep_ok_def regs_def sparseHisto_regs dense_histo_regs)
  with True assms show ?thesis
    by (intro exI [of _ "h\<lparr>cached := cardinality f (histogram (regs h)), dirty := False\<rparr>"])
      (simp add: Count_def hll_ok_def cache_ok_def Size_def Let_def)
qed

text \<open>Adding a list of elements, the loop of \<^verbatim>\<open>PFAdd\<close> in \<^verbatim>\<open>store.go\<close>.\<close>

fun AddAll :: "HLL \<Rightarrow> byte list list \<Rightarrow> bool \<Rightarrow> (HLL \<times> bool) outcome" where
  "AddAll h [] changed = Ret (h, changed)"
| "AddAll h (x # xs) changed = obind (Add h x) (\<lambda>(h', ch). AddAll h' xs (changed \<or> ch))"

lemma AddAll_regs:
  assumes "hll_ok f h"
  shows "\<exists>h' ch. AddAll h xs changed = Ret (h', ch) \<and> hll_ok f h' \<and>
    regs h' = max_all (regs h) (map hllPatLen xs) \<and> (ch \<longleftrightarrow> changed \<or> regs h' \<noteq> regs h)"
  using assms
proof (induction xs arbitrary: h changed)
  case (Cons x xs)
  have "rep_ok h" using Cons.prems by (simp add: hll_ok_def)
  from Add_regs [OF this, of x] obtain h1 c1 where h1: "Add h x = Ret (h1, c1)" "rep_ok h1"
    "regs h1 = max_put (regs h) (hllPatLen x)" "c1 \<longleftrightarrow> regs h1 \<noteq> regs h"
    "cached h1 = cached h" "dirty h1 = (dirty h \<or> c1)"
    by blast
  then have "hll_ok f h1" using cache_ok_step [OF _ h1(5,6,4)] Cons.prems by (simp add: hll_ok_def)
  from Cons.IH [OF this, of "changed \<or> c1"] obtain h' ch where h': "AddAll h1 xs (changed \<or> c1) = Ret (h', ch)"
    "hll_ok f h'" "regs h' = max_all (regs h1) (map hllPatLen xs)" "ch \<longleftrightarrow> (changed \<or> c1) \<or> regs h' \<noteq> regs h1"
    by blast
  have "regs h' = regs h \<Longrightarrow> regs h1 = regs h"
    using max_all_unchanged [of "regs h" "hllPatLen x"] h1(3) h'(3) by simp
  with h1 h' show ?case by auto
qed auto

definition sketch :: "byte list list \<Rightarrow> byte list" where
  "sketch xs = max_all (replicate registers 0) (map hllPatLen xs)"

lemma sketch_cong: "set xs = set ys \<Longrightarrow> sketch xs = sketch ys"
  unfolding sketch_def by (rule max_all_cong) simp

lemma AddAll_New:
  assumes "fp_ok f"
  shows "\<exists>h ch. AddAll hll_New xs False = Ret (h, ch) \<and> hll_ok f h \<and> regs h = sketch xs"
  using AddAll_regs [OF hll_New_ok [OF assms], of xs False] by (auto simp: hll_New_regs sketch_def)

lemma sketch_append: "map2 max (sketch xs) (sketch ys) = sketch (xs @ ys)"
proof (rule nth_equalityI)
  fix k
  assume "k < length (map2 max (sketch xs) (sketch ys))"
  then have k: "k < length (replicate registers (0 :: byte))" by (simp add: sketch_def)
  have "map2 max (sketch xs) (sketch ys) ! k \<le> w \<longleftrightarrow> sketch (xs @ ys) ! k \<le> w" for w
    using k max_all_nth_le [OF k, of "map hllPatLen xs" w] max_all_nth_le [OF k, of "map hllPatLen ys" w]
      max_all_nth_le [OF k, of "map hllPatLen (xs @ ys)" w]
    by (auto simp: sketch_def simp del: max_all_simps)
  then show "map2 max (sketch xs) (sketch ys) ! k = sketch (xs @ ys) ! k"
    by (meson order.antisym order.refl)
qed (simp add: sketch_def)

lemma Merge_ok:
  assumes "hll_ok f h" "hll_ok f other"
  shows "\<exists>h' ch. Merge h other = Ret (h', ch) \<and> hll_ok f h' \<and> regs h' = map2 max (regs h) (regs other)"
proof -
  have "rep_ok h" "rep_ok other" using assms by (simp_all add: hll_ok_def)
  from Merge_regs [OF this] obtain h' ch where h': "Merge h other = Ret (h', ch)" "rep_ok h'"
    "regs h' = map2 max (regs h) (regs other)" "ch \<longleftrightarrow> regs h' \<noteq> regs h" "cached h' = cached h"
    "dirty h' = (dirty h \<or> ch)"
    by blast
  moreover have "cache_ok f h'" using cache_ok_step [OF _ h'(5,6,4)] assms(1) by (simp add: hll_ok_def)
  ultimately show ?thesis by (simp add: hll_ok_def)
qed

subsection \<open>Properties\<close>

text \<open>
  C26: adding an element never panics and is one maximum on the registers, in whichever
  representation the sketch is and also when the element forces the promotion to the
  dense one; the result says whether the registers changed, and the cached estimate is
  never left valid for registers it was not computed from.
\<close>

theorem Add_refines:
  assumes "hll_ok f h"
  shows "\<exists>h' ch. Add h x = Ret (h', ch) \<and> hll_ok f h' \<and>
    regs h' = max_put (regs h) (hllPatLen x) \<and> (ch \<longleftrightarrow> regs h' \<noteq> regs h)"
  using AddAll_regs [OF assms, of "[x]" False] by force

theorem Add_refines_witness:
  "\<exists>h' ch. Add hll_New [] = Ret (h', ch) \<and>
    regs h' = max_put (regs hll_New) (hllPatLen []) \<and> (ch \<longleftrightarrow> regs h' \<noteq> regs hll_New)"
  using Add_refines [OF hll_New_ok [OF fp_ok_exact], of "[]"] by blast

text \<open>
  C27: a sketch depends on the set of elements alone. However often and in whatever order
  the elements of a set were added, and whichever representation the sketch ended up in,
  the reported cardinality is the same.
\<close>

theorem Count_of_set:
  assumes "fp_ok f" "set xs = set ys"
  shows "\<exists>c hx cx kx hy cy ky. AddAll hll_New xs False = Ret (hx, cx) \<and> Count f hx = Ret (c, kx) \<and>
    AddAll hll_New ys False = Ret (hy, cy) \<and> Count f hy = Ret (c, ky)"
proof -
  obtain hx cx where hx: "AddAll hll_New xs False = Ret (hx, cx)" "hll_ok f hx" "regs hx = sketch xs"
    using AddAll_New [OF assms(1)] by blast
  obtain hy cy where hy: "AddAll hll_New ys False = Ret (hy, cy)" "hll_ok f hy" "regs hy = sketch ys"
    using AddAll_New [OF assms(1)] by blast
  have "regs hx = regs hy" using hx(3) hy(3) sketch_cong [OF assms(2)] by simp
  then show ?thesis using hx hy Count_regs [OF hx(2)] Count_regs [OF hy(2)] by auto
qed

theorem Count_of_set_witness:
  "\<exists>c hx cx kx hy cy ky. AddAll hll_New [[1], [2], [1]] False = Ret (hx, cx) \<and>
    Count \<lparr>rnd = (\<lambda>x. x), Log = ln\<rparr> hx = Ret (c, kx) \<and>
    AddAll hll_New [[2], [1]] False = Ret (hy, cy) \<and> Count \<lparr>rnd = (\<lambda>x. x), Log = ln\<rparr> hy = Ret (c, ky)"
  by (rule Count_of_set [OF fp_ok_exact]) auto

text \<open>
  C28: merging is union. Sketches built from \<open>xs\<close> and from \<open>ys\<close> merge, without a
  panic, into one that reports what a single sketch of all the elements reports.
\<close>

theorem Merge_is_union:
  assumes "fp_ok f"
  shows "\<exists>hx cx hy cy h ch hu cu c k ku.
    AddAll hll_New xs False = Ret (hx, cx) \<and> AddAll hll_New ys False = Ret (hy, cy) \<and>
    Merge hx hy = Ret (h, ch) \<and> Count f h = Ret (c, k) \<and>
    AddAll hll_New (xs @ ys) False = Ret (hu, cu) \<and> Count f hu = Ret (c, ku)"
proof -
  obtain hx cx where hx: "AddAll hll_New xs False = Ret (hx, cx)" "hll_ok f hx" "regs hx = sketch xs"
    using AddAll_New [OF assms] by blast
  obtain hy cy where hy: "AddAll hll_New ys False = Ret (hy, cy)" "hll_ok f hy" "regs hy = sketch ys"
    using AddAll_New [OF assms] by blast
  obtain hu cu where hu: "AddAll hll_New (xs @ ys) False = Ret (hu, cu)" "hll_ok f hu" "regs hu = sketch (xs @ ys)"
    using AddAll_New [OF assms] by blast
  obtain h ch where h: "Merge hx hy = Ret (h, ch)" "hll_ok f h" "regs h = map2 max (regs hx) (regs hy)"
    using Merge_ok [OF hx(2) hy(2)] by blast
  have "regs h = regs hu" using h(3) hx(3) hy(3) hu(3) by (simp add: sketch_append)
  then show ?thesis
    using hx(1) hy(1) hu(1) h(1) Count_regs [OF h(2)] Count_regs [OF hu(2)] by metis
qed

theorem Merge_is_union_witness:
  "\<exists>hx cx hy cy h ch hu cu c k ku.
    AddAll hll_New [[1]] False = Ret (hx, cx) \<and> AddAll hll_New [[2]] False = Ret (hy, cy) \<and>
    Merge hx hy = Ret (h, ch) \<and> Count \<lparr>rnd = (\<lambda>x. x), Log = ln\<rparr> h = Ret (c, k) \<and>
    AddAll hll_New ([[1]] @ [[2]]) False = Ret (hu, cu) \<and> Count \<lparr>rnd = (\<lambda>x. x), Log = ln\<rparr> hu = Ret (c, ku)"
  by (rule Merge_is_union [OF fp_ok_exact])

text \<open>
  The cached count is never stale. \<^verbatim>\<open>Count\<close> returns the estimate computed from the
  current registers whether or not it recomputes it, in both representations, and leaves
  the registers and the size the store accounts for as they were.
\<close>

lemma Count_is_current:
  assumes "hll_ok f h"
  shows "\<exists>h'. Count f h = Ret (cardinality f (histogram (regs h)), h') \<and> hll_ok f h' \<and>
    regs h' = regs h \<and> Size h' = Size h \<and>
    (\<exists>h''. Count f h' = Ret (cardinality f (histogram (regs h)), h''))"
proof -
  from Count_regs [OF assms] obtain h' where h': "Count f h = Ret (cardinality f (histogram (regs h)), h')"
    "hll_ok f h'" "regs h' = regs h" "Size h' = Size h" by blast
  with Count_regs [OF h'(2)] show ?thesis by auto
qed

text \<open>
  Promotion keeps every register. The dense array built from a sparse stream holds
  the same 16384 values, the cached estimate and its flag are untouched, and the sketch
  never becomes sparse again by a later \<^verbatim>\<open>Add\<close>.
\<close>

lemma promote_keeps_registers:
  assumes "rep_ok h" "enc h = encSparse"
  shows "\<exists>h'. promote h = Ret h' \<and> rep_ok h' \<and> regs h' = regs h \<and> enc h' = encDense \<and>
    cached h' = cached h \<and> dirty h' = dirty h \<and>
    (\<forall>x h'' ch. Add h' x = Ret (h'', ch) \<longrightarrow> enc h'' = encDense)"
proof -
  from promote_regs [OF assms] obtain h' where h': "promote h = Ret h'" "rep_ok h'" "enc h' = encDense"
    "regs h' = regs h" "cached h' = cached h" "dirty h' = dirty h" by blast
  have "enc h'' = encDense" if "Add h' x = Ret (h'', ch)" for x h'' ch
    using that h'(3) by (auto simp: Add_def add_register_def split: prod.splits if_splits)
  with h' show ?thesis by blast
qed

end
