(* ===== verification/Clocks.thy ===== *)
theory Clocks
  imports Go_Float Registers
begin

unbundle bit_operations_syntax

text \<open>
  The access stamps behind eviction: the wrap-around clocks and the packed frequency
  counter of \<^verbatim>\<open>store/lru.go\<close> and \<^verbatim>\<open>store/lfu.go\<close>, on words of the width the code uses.
\<close>

definition LRUClockMax :: "32 word" where "LRUClockMax = push_bit 24 1 - 1"
definition LRUClockResolution :: int where "LRUClockResolution = 1000"
definition LFUInitVal :: byte where "LFUInitVal = 5"
definition lfuCounterBits :: nat where "lfuCounterBits = 8"
definition lfuCounterMask :: "32 word" where "lfuCounterMask = push_bit lfuCounterBits 1 - 1"
definition lfuLdtMask :: "16 word" where "lfuLdtMask = 0xFFFF"

definition lruIdle :: "32 word \<Rightarrow> 32 word \<Rightarrow> 32 word" where
  "lruIdle clock access =
     (if clock \<ge> access then clock - access else clock + (LRUClockMax - access))"

definition ldtIdle :: "16 word \<Rightarrow> 16 word \<Rightarrow> 16 word" where
  "ldtIdle nowLdt storedLdt =
     (if nowLdt \<ge> storedLdt then nowLdt - storedLdt else nowLdt + (lfuLdtMask - storedLdt))"

text \<open>The package variables of \<^verbatim>\<open>lfu.go\<close>; a flag value is cut to 32 bits.\<close>

record lfuParams =
  LFULogFactor :: "32 word"
  LFUDecayTime :: "32 word"

definition lfuDefaults :: lfuParams where
  "lfuDefaults = \<lparr>LFULogFactor = 10, LFUDecayTime = 1\<rparr>"

definition SetLFUParams :: "int \<Rightarrow> int \<Rightarrow> lfuParams \<Rightarrow> lfuParams" where
  "SetLFUParams logFactor decayTime p =
     (let p1 = (if logFactor \<ge> 0 then p\<lparr>LFULogFactor := word_of_int logFactor\<rparr> else p)
      in if decayTime \<ge> 1 then p1\<lparr>LFUDecayTime := word_of_int decayTime\<rparr> else p1)"

definition lfuDecodeCounter :: "32 word \<Rightarrow> byte" where
  "lfuDecodeCounter packed = ucast (packed AND lfuCounterMask)"

definition lfuDecodeLdt :: "32 word \<Rightarrow> 16 word" where
  "lfuDecodeLdt packed = ucast (drop_bit lfuCounterBits packed AND ucast lfuLdtMask)"

definition lfuEncode :: "16 word \<Rightarrow> byte \<Rightarrow> 32 word" where
  "lfuEncode ldt counter = push_bit lfuCounterBits (ucast ldt) OR ucast counter"

text \<open>\<open>draw\<close> is the number \<^verbatim>\<open>rand.Float64()\<close> returns.\<close>

definition lfuLogIncr :: "fp \<Rightarrow> lfuParams \<Rightarrow> real \<Rightarrow> byte \<Rightarrow> byte" where
  "lfuLogIncr f p draw counter =
     (if counter = 255 then counter
      else let base0 = real (unat counter) - real (unat LFUInitVal);
               baseVal = (if base0 < 0 then 0 else base0);
               pr = rnd f (1 / rnd f (rnd f (baseVal * real (unat (LFULogFactor p))) + 1))
           in if draw < pr then counter + 1 else counter)"

text \<open>The division panics when the decay time is 0.\<close>

definition lfuDecay :: "lfuParams \<Rightarrow> byte \<Rightarrow> 16 word \<Rightarrow> byte outcome" where
  "lfuDecay p counter idleMinutes =
     (if LFUDecayTime p = 0 then Panic
      else let steps = (ucast idleMinutes :: 32 word) div LFUDecayTime p
           in if steps = 0 then Ret counter
              else if ucast counter \<le> steps then Ret 0
              else Ret (counter - ucast steps))"

definition lfuTouch :: "fp \<Rightarrow> lfuParams \<Rightarrow> real \<Rightarrow> 32 word \<Rightarrow> 16 word \<Rightarrow> 32 word outcome" where
  "lfuTouch f p draw packed nowLdt =
     (let counter = lfuDecodeCounter packed;
          storedLdt = lfuDecodeLdt packed;
          idle = ldtIdle nowLdt storedLdt
      in obind (lfuDecay p counter idle) (\<lambda>c. Ret (lfuEncode nowLdt (lfuLogIncr f p draw c))))"

definition lfuNew :: "16 word \<Rightarrow> 32 word" where
  "lfuNew nowLdt = lfuEncode nowLdt LFUInitVal"

subsection \<open>Clocks that wrap around\<close>

text \<open>
  What both clocks promise of their idle time, on readings below the period. The client
  lemma compares it with the ticks that really passed.
\<close>

locale wrapping_clock =
  fixes period :: nat
    and idle :: "'w::len word \<Rightarrow> 'w word \<Rightarrow> 'w word"
  assumes period_pos: "0 < period"
    and period_fits: "period \<le> 2 ^ LENGTH('w)"
    and idle_unat: "unat now < period \<Longrightarrow> unat stamp < period \<Longrightarrow>
      unat (idle now stamp) =
        (if stamp \<le> now then unat now - unat stamp else unat now + (period - 1 - unat stamp))"
begin

lemma unat_reading: "unat (of_nat (t mod period) :: 'w word) = t mod period"
proof -
  have "t mod period < 2 ^ LENGTH('w)"
    using period_pos period_fits by (meson mod_less_divisor order_less_le_trans)
  then show ?thesis by (simp add: unat_of_nat take_bit_nat_eq_self_iff)
qed

lemma idle_elapsed:
  assumes "a \<le> c" "c < a + period"
  shows "unat (idle (of_nat (c mod period)) (of_nat (a mod period))) =
    (if c div period = a div period then c - a else c - a - 1)"
proof -
  have lt: "unat (of_nat (c mod period) :: 'w word) < period" "unat (of_nat (a mod period) :: 'w word) < period"
    using period_pos by (simp_all add: unat_reading)
  have ca: "c = c div period * period + c mod period" "a = a div period * period + a mod period" by simp_all
  show ?thesis
  proof (cases "c div period = a div period")
    case True
    then have c: "c = a div period * period + c mod period" using ca(1) by simp
    have "a mod period \<le> c mod period" using c ca(2) assms(1) by linarith
    moreover have "c - a = c mod period - a mod period" using c ca(2) by linarith
    ultimately show ?thesis using True idle_unat [OF lt] by (simp add: word_le_nat_alt unat_reading)
  next
    case False
    have "a div period \<le> c div period" using assms(1) by (rule div_le_mono)
    moreover have "c div period \<le> Suc (a div period)"
      using div_le_mono [of c "a + period" period] assms(2) period_pos by simp
    ultimately have s: "c div period = Suc (a div period)" using False by simp
    then have c: "c = a div period * period + period + c mod period" using ca(1) by simp
    have "\<not> a mod period \<le> c mod period" using c ca(2) assms(2) by linarith
    moreover have "a mod period < period" using period_pos by simp
    then have "c - a - 1 = c mod period + (period - 1 - a mod period)" using c ca(2) by linarith
    ultimately show ?thesis using False idle_unat [OF lt] by (simp add: word_le_nat_alt unat_reading)
  qed
qed

end

lemma unat_sub_le: "b \<le> a \<Longrightarrow> unat (a - b) = unat a - unat (b :: 'w::len word)"
  by (simp add: unat_sub)

interpretation lru: wrapping_clock "2 ^ 24" lruIdle
proof
  fix now stamp :: "32 word"
  assume now: "unat now < 2 ^ 24" and stamp: "unat stamp < 2 ^ 24"
  have m: "unat LRUClockMax = 2 ^ 24 - 1" by (simp add: LRUClockMax_def push_bit_eq_mult)
  have le: "stamp \<le> LRUClockMax" using stamp m by (simp add: word_le_nat_alt)
  have "unat (now + (LRUClockMax - stamp)) = unat now + (2 ^ 24 - 1 - unat stamp)"
    using now m by (subst unat_add_lem [THEN iffD1]) (simp_all add: unat_sub_le [OF le])
  then show "unat (lruIdle now stamp) =
      (if stamp \<le> now then unat now - unat stamp else unat now + (2 ^ 24 - 1 - unat stamp))"
    by (simp add: lruIdle_def unat_sub_le)
qed simp_all

interpretation ldt: wrapping_clock "2 ^ 16" ldtIdle
proof
  fix now stamp :: "16 word"
  have m: "unat lfuLdtMask = 2 ^ 16 - 1" by (simp add: lfuLdtMask_def)
  have le: "stamp \<le> lfuLdtMask"
    using unsigned_less [of stamp, where ?'a = nat] m by (simp add: word_le_nat_alt)
  have "unat (now + (lfuLdtMask - stamp)) = unat now + (2 ^ 16 - 1 - unat stamp)" if "\<not> stamp \<le> now"
    using that m le by (subst unat_add_lem [THEN iffD1]) (auto simp: unat_sub_le [OF le] word_le_nat_alt)
  then show "unat (ldtIdle now stamp) =
      (if stamp \<le> now then unat now - unat stamp else unat now + (2 ^ 16 - 1 - unat stamp))"
    by (cases "stamp \<le> now") (simp_all add: ldtIdle_def unat_sub_le)
qed simp_all

subsection \<open>The packed frequency counter\<close>

lemma lfu_pack [simp]:
  "lfuDecodeCounter (lfuEncode ldt c) = c" "lfuDecodeLdt (lfuEncode ldt c) = ldt"
proof -
  have b: "\<not> bit c n" if "8 \<le> n" for n using that by (auto dest: bit_imp_le_length)
  have m: "lfuCounterMask = mask 8" "(ucast lfuLdtMask :: 32 word) = mask 16"
    by (simp_all add: lfuCounterMask_def lfuCounterBits_def lfuLdtMask_def mask_eq_exp_minus_1 push_bit_eq_mult)
  show "lfuDecodeCounter (lfuEncode ldt c) = c"
    unfolding lfuDecodeCounter_def lfuEncode_def m lfuCounterBits_def
    by (rule bit_word_eqI) (auto simp: bit_simps)
  show "lfuDecodeLdt (lfuEncode ldt c) = ldt"
    unfolding lfuDecodeLdt_def lfuEncode_def m lfuCounterBits_def
    by (rule bit_word_eqI) (auto simp: bit_simps b)
qed

lemma unat_ucast_up:
  "LENGTH('a) \<le> LENGTH('b) \<Longrightarrow> unat (ucast (w :: 'a::len word) :: 'b::len word) = unat w"
proof -
  assume "LENGTH('a) \<le> LENGTH('b)"
  then have "(2 :: nat) ^ LENGTH('a) \<le> 2 ^ LENGTH('b)" by simp
  with unsigned_less [of w, where ?'a = nat] have "unat w < 2 ^ LENGTH('b)" by linarith
  then show ?thesis by (simp add: unsigned_ucast_eq take_bit_nat_eq_self_iff)
qed

text \<open>Decay is a truncated subtraction of the whole decay steps that passed.\<close>

lemma lfuDecay_unat:
  assumes "LFUDecayTime p \<noteq> 0"
  shows "\<exists>c'. lfuDecay p c m = Ret c' \<and> unat c' = unat c - unat m div unat (LFUDecayTime p)"
proof -
  let ?s = "(ucast m :: 32 word) div LFUDecayTime p"
  have c: "unat (ucast c :: 32 word) = unat c" by (simp add: unat_ucast_up)
  have s: "unat ?s = unat m div unat (LFUDecayTime p)"
    by (simp add: unat_div_distrib unat_ucast_up)
  show ?thesis
  proof (cases "ucast c \<le> ?s")
    case True
    then show ?thesis using assms s c
      by (cases "?s = 0") (auto simp: lfuDecay_def Let_def word_le_nat_alt)
  next
    case False
    then have lt: "unat ?s < unat c" using c by (simp add: word_le_nat_alt not_le)
    then have "unat (ucast ?s :: byte) = unat ?s"
      using unsigned_less [of c, where ?'a = nat] by (simp add: unsigned_ucast_eq take_bit_nat_eq_self_iff)
    moreover have "ucast ?s \<le> c" using calculation lt by (simp add: word_le_nat_alt)
    ultimately have "unat (c - ucast ?s) = unat c - unat ?s" by (simp add: unat_sub_le)
    then show ?thesis using False assms s by (cases "?s = 0") (auto simp: lfuDecay_def Let_def)
  qed
qed

lemma lfuLogIncr_unat: "unat (lfuLogIncr f p draw c) \<in> {unat c, min 255 (unat c + 1)}"
proof (cases "c = 255")
  case False
  then have "unat c \<noteq> 255" by (simp add: word_unat_eq_iff)
  moreover have "unat c \<le> 255" using unsigned_less [of c, where ?'a = nat] by simp
  ultimately have "unat (c + 1) = min 255 (unat c + 1)" by (simp add: unat_word_ariths)
  moreover have "lfuLogIncr f p draw c \<in> {c, c + 1}" by (simp add: lfuLogIncr_def Let_def)
  ultimately show ?thesis by auto
qed (simp add: lfuLogIncr_def)

lemma lfuTouch_Ret:
  assumes "LFUDecayTime p \<noteq> 0"
  shows "\<exists>w. lfuTouch f p draw packed now = Ret w"
  using lfuDecay_unat [OF assms] by (fastforce simp: lfuTouch_def Let_def)

text \<open>
  The idle times the eviction order is built on. While the clock has not wrapped
  since the stamp, \<^verbatim>\<open>lruIdle\<close> and \<^verbatim>\<open>ldtIdle\<close> are exactly the ticks that passed; across
  one wrap they are one tick short, because the clock has \<open>LRUClockMax + 1\<close> (\<open>lfuLdtMask + 1\<close>)
  values and the code adds \<open>LRUClockMax\<close>.
\<close>

lemma idle_ticks:
  assumes "a \<le> c"
  shows "(c < a + 2 ^ 24 \<longrightarrow>
      unat (lruIdle (of_nat (c mod 2 ^ 24)) (of_nat (a mod 2 ^ 24))) =
        (if c div 2 ^ 24 = a div 2 ^ 24 then c - a else c - a - 1)) \<and>
    (c < a + 2 ^ 16 \<longrightarrow>
      unat (ldtIdle (of_nat (c mod 2 ^ 16)) (of_nat (a mod 2 ^ 16))) =
        (if c div 2 ^ 16 = a div 2 ^ 16 then c - a else c - a - 1))"
  using lru.idle_elapsed [OF assms] ldt.idle_elapsed [OF assms] by blast

text \<open>
  C31: what an access does to the frequency field. It first takes off the decay steps
  that passed since the last access, never below 0, then adds at most one, never above
  255, and stamps the current minute; the two packed fields do not disturb each other.
\<close>

theorem lfuTouch_counter:
  assumes "LFUDecayTime p \<noteq> 0"
  shows "\<exists>w d. lfuTouch f p draw packed now = Ret w \<and> lfuDecodeLdt w = now \<and>
    d = unat (lfuDecodeCounter packed) -
      unat (ldtIdle now (lfuDecodeLdt packed)) div unat (LFUDecayTime p) \<and>
    unat (lfuDecodeCounter w) \<in> {d, min 255 (d + 1)}"
proof -
  from lfuDecay_unat [OF assms] obtain c where c:
    "lfuDecay p (lfuDecodeCounter packed) (ldtIdle now (lfuDecodeLdt packed)) = Ret c"
    "unat c = unat (lfuDecodeCounter packed) -
      unat (ldtIdle now (lfuDecodeLdt packed)) div unat (LFUDecayTime p)"
    by blast
  have "lfuTouch f p draw packed now = Ret (lfuEncode now (lfuLogIncr f p draw c))"
    by (simp add: lfuTouch_def c(1))
  with lfuLogIncr_unat [of f p draw c] c(2) show ?thesis by simp
qed

theorem lfuTouch_counter_witness:
  "\<exists>w d. lfuTouch \<lparr>rnd = (\<lambda>x. x), Log = ln\<rparr> lfuDefaults 0 (lfuNew 7) 10 = Ret w \<and> lfuDecodeLdt w = 10 \<and>
    d = unat (lfuDecodeCounter (lfuNew 7)) - unat (ldtIdle 10 (lfuDecodeLdt (lfuNew 7))) div 1 \<and>
    unat (lfuDecodeCounter w) \<in> {d, min 255 (d + 1)}"
  using lfuTouch_counter [of lfuDefaults "\<lparr>rnd = (\<lambda>x. x), Log = ln\<rparr>" 0 "lfuNew 7" 10]
  by (simp add: lfuDefaults_def)

end
