(* ===== verification/Store.thy ===== *)
theory Store
  imports Sds Hll Clocks "HOL-Library.AList" "HOL-Library.Multiset"
begin

unbundle bit_operations_syntax

text \<open>
  The keyspace of \<^verbatim>\<open>store/store.go\<close>, with \<^verbatim>\<open>store/stats.go\<close>, \<^verbatim>\<open>store/encoding.go\<close>,
  \<^verbatim>\<open>store/expire.go\<close> and the accounting part of \<^verbatim>\<open>store/lru.go\<close>: the state, every
  operation on it, the invariant that ties the memory counter and the key statistic to
  the map, and what a client can observe.
\<close>

subsection \<open>State\<close>

datatype Encoding = EncodingINT | EncodingEMBSTR | EncodingRAW | EncodingHLL

text \<open>A nil pointer and the zero \<^verbatim>\<open>time.Time\<close> are \<open>None\<close>; instants are nanoseconds since 1970.\<close>

record entry =
  encoding :: Encoding
  intVal :: int
  strVal :: "SDS option"
  hllVal :: "HLL option"
  expiresAt :: "int option"
  lru :: "32 word"

record evictionCandidate =
  ckey :: string
  score :: "32 word"

text \<open>
  \<open>Store\<close>: the Go map is an association list with distinct keys, in no particular
  order; \<open>now\<close> is the instant the injected clock shows while a command runs. The last
  two fields are the package variables of \<^verbatim>\<open>stats.go\<close> and \<^verbatim>\<open>lfu.go\<close>, which belong to the
  only store there is (\<^verbatim>\<open>Default\<close>).
\<close>

record Store =
  data :: "(string \<times> entry) list"
  now :: int
  usedMemory :: int
  evPool :: "evictionCandidate list"
  policy :: string
  KeyspaceStat :: "nat \<Rightarrow> string \<Rightarrow> int"
  lfu :: lfuParams

text \<open>
  What the running command gets from outside the sources: the room \<^verbatim>\<open>append\<close> adds, the
  floating-point unit, the next \<^verbatim>\<open>rand.Float64()\<close>, the order of the \<open>n\<close>-th iteration over
  a map, \<^verbatim>\<open>sort.Slice\<close> on the eviction pool, the Unicode case tables, the wall clock, the
  instant the store's clock shows, and how many bytes of a log record the operating
  system accepts.
\<close>

record env =
  grow :: "nat \<Rightarrow> nat \<Rightarrow> nat"
  fpu :: fp
  draw :: real
  order :: "nat \<Rightarrow> string list \<Rightarrow> string list"
  sort_Slice :: "evictionCandidate list \<Rightarrow> evictionCandidate list"
  uniUpper :: "string \<Rightarrow> string"
  uniLower :: "string \<Rightarrow> string"
  wall :: int
  instant :: int
  accepts :: nat

definition env_ok :: "env \<Rightarrow> bool" where
  "env_ok E \<longleftrightarrow> grow_ok (grow E) \<and> fp_ok (fpu E) \<and>
     (\<forall>n ks. mset (order E n ks) = mset ks) \<and>
     (\<forall>p. mset (sort_Slice E p) = mset p \<and> sorted (map score (sort_Slice E p)))"

definition store_New :: "int \<Rightarrow> Store" where
  "store_New t = \<lparr>data = [], now = t, usedMemory = 0, evPool = [], policy = ''noeviction'',
     KeyspaceStat = (\<lambda>_ _. 0), lfu = lfuDefaults\<rparr>"

definition SetPolicy :: "string \<Rightarrow> Store \<Rightarrow> Store" where
  "SetPolicy pol s = s\<lparr>policy := pol\<rparr>"

definition isLFU :: "Store \<Rightarrow> bool" where
  "isLFU s \<longleftrightarrow> policy s = ''allkeys-lfu'' \<or> policy s = ''volatile-lfu''"

text \<open>\<^verbatim>\<open>Unix\<close> and \<^verbatim>\<open>UnixMilli\<close> round towards the past.\<close>

definition lfuClock :: "Store \<Rightarrow> 16 word" where
  "lfuClock s = word_of_int (go_div (now s div 10 ^ 9) 60 AND 0xFFFF)"

definition lruClock :: "Store \<Rightarrow> 32 word" where
  "lruClock s = word_of_int (go_div (now s div 10 ^ 6) LRUClockResolution AND uint LRUClockMax)"

definition stampNew :: "Store \<Rightarrow> 32 word" where
  "stampNew s = (if isLFU s then lfuNew (lfuClock s) else lruClock s)"

definition stampAccess :: "env \<Rightarrow> Store \<Rightarrow> 32 word \<Rightarrow> 32 word outcome" where
  "stampAccess E s current =
     (if isLFU s then lfuTouch (fpu E) (lfu s) (draw E) current (lfuClock s) else Ret (lruClock s))"

definition UpdateDbStat :: "nat \<Rightarrow> string \<Rightarrow> int \<Rightarrow> Store \<Rightarrow> Store" where
  "UpdateDbStat num metric value s =
     s\<lparr>KeyspaceStat := (KeyspaceStat s)(num := (KeyspaceStat s num)(metric := KeyspaceStat s num metric + value))\<rparr>"

definition detectEncoding :: "string \<Rightarrow> Encoding" where
  "detectEncoding value =
     (if ParseInt value \<noteq> None then EncodingINT
      else if length value \<le> 44 then EncodingEMBSTR else EncodingRAW)"

definition entryOverhead :: nat where "entryOverhead = 64"

definition entrySize :: "string \<Rightarrow> entry \<Rightarrow> int" where
  "entrySize key e =
     (let valueSize =
        (case encoding e of
           EncodingINT \<Rightarrow> 8
         | EncodingEMBSTR \<Rightarrow> (case strVal e of Some b \<Rightarrow> Cap b | None \<Rightarrow> 0)
         | EncodingRAW \<Rightarrow> (case strVal e of Some b \<Rightarrow> Cap b | None \<Rightarrow> 0)
         | EncodingHLL \<Rightarrow> (case hllVal e of Some h \<Rightarrow> Size h | None \<Rightarrow> 0))
      in int (length key + valueSize + entryOverhead))"

definition removeKey :: "string \<Rightarrow> Store \<Rightarrow> Store" where
  "removeKey key s =
     (case map_of (data s) key of
        None \<Rightarrow> s
      | Some e \<Rightarrow>
          UpdateDbStat 0 ''keys'' (-1)
            (s\<lparr>usedMemory := usedMemory s - entrySize key e, data := AList.delete key (data s)\<rparr>))"

definition isExpired :: "Store \<Rightarrow> entry \<Rightarrow> bool" where
  "isExpired s e \<longleftrightarrow> (case expiresAt e of None \<Rightarrow> False | Some t \<Rightarrow> \<not> now s < t)"

subsection \<open>Operations\<close>

text \<open>\<^verbatim>\<open>ttl\<close> is a \<^verbatim>\<open>time.Duration\<close> in nanoseconds.\<close>

definition Set :: "string \<Rightarrow> string \<Rightarrow> int \<Rightarrow> Store \<Rightarrow> Store" where
  "Set key value ttl s =
     (let s1 = (case map_of (data s) key of
                  None \<Rightarrow> UpdateDbStat 0 ''keys'' 1 s
                | Some old \<Rightarrow> s\<lparr>usedMemory := usedMemory s - entrySize key old\<rparr>);
          expires = (if ttl > 0 then Some (now s1 + ttl) else None);
          enc = detectEncoding value;
          e0 = \<lparr>encoding = enc, intVal = 0, strVal = None, hllVal = None,
                expiresAt = expires, lru = stampNew s1\<rparr>;
          e = (case enc of
                 EncodingINT \<Rightarrow> e0\<lparr>intVal := (case ParseInt value of Some n \<Rightarrow> n | None \<Rightarrow> 0)\<rparr>
               | EncodingEMBSTR \<Rightarrow> e0\<lparr>strVal := Some (sds_New value)\<rparr>
               | EncodingRAW \<Rightarrow> e0\<lparr>strVal := Some (sds_New value)\<rparr>
               | EncodingHLL \<Rightarrow> e0);
          s2 = s1\<lparr>data := AList.update key e (data s1)\<rparr>
      in s2\<lparr>usedMemory := usedMemory s2 + entrySize key e\<rparr>)"

text \<open>A method call on a nil \<^verbatim>\<open>*sds.SDS\<close> panics.\<close>

definition Append :: "env \<Rightarrow> string \<Rightarrow> string \<Rightarrow> Store \<Rightarrow> (Store \<times> int) outcome" where
  "Append E key value s =
     (case map_of (data s) key of
        None \<Rightarrow> Ret (Set key value 0 s, int (length value))
      | Some old \<Rightarrow>
          let s1 = s\<lparr>usedMemory := usedMemory s - entrySize key old\<rparr>;
              buf0 = (if encoding old = EncodingINT then Some (sds_New (FormatInt (intVal old))) else strVal old)
          in (case buf0 of
                None \<Rightarrow> Panic
              | Some b \<Rightarrow>
                  let b1 = AppendString (grow E) b value
                  in obind (stampAccess E s1 (lru old)) (\<lambda>w.
                     let e = \<lparr>encoding = EncodingRAW, intVal = 0, strVal = Some b1, hllVal = None,
                              expiresAt = expiresAt old, lru = w\<rparr>;
                         s2 = s1\<lparr>data := AList.update key e (data s1)\<rparr>
                     in Ret (s2\<lparr>usedMemory := usedMemory s2 + entrySize key e\<rparr>, int (Len b1)))))"

text \<open>The value, whether the key exists, whether there is an error, and the expiry.\<close>

definition GetInt :: "env \<Rightarrow> string \<Rightarrow> Store \<Rightarrow> (Store \<times> int \<times> bool \<times> bool \<times> int option) outcome" where
  "GetInt E key s =
     (case map_of (data s) key of
        None \<Rightarrow> Ret (s, 0, False, False, None)
      | Some e \<Rightarrow>
          if isExpired s e then Ret (removeKey key s, 0, False, False, None)
          else obind (stampAccess E s (lru e)) (\<lambda>w.
            let e1 = e\<lparr>lru := w\<rparr>;
                s1 = s\<lparr>data := AList.update key e1 (data s)\<rparr>
            in if encoding e1 \<noteq> EncodingINT then Ret (s1, 0, True, True, None)
               else Ret (s1, intVal e1, True, False, expiresAt e1)))"

definition GetEncoding :: "string \<Rightarrow> Store \<Rightarrow> Store \<times> Encoding option" where
  "GetEncoding key s =
     (case map_of (data s) key of
        None \<Rightarrow> (s, None)
      | Some e \<Rightarrow> if isExpired s e then (removeKey key s, None) else (s, Some (encoding e)))"

definition Get :: "env \<Rightarrow> string \<Rightarrow> Store \<Rightarrow> (Store \<times> string option) outcome" where
  "Get E key s =
     (case map_of (data s) key of
        None \<Rightarrow> Ret (s, None)
      | Some e \<Rightarrow>
          if isExpired s e then Ret (removeKey key s, None)
          else obind (stampAccess E s (lru e)) (\<lambda>w.
            let e1 = e\<lparr>lru := w\<rparr>;
                s1 = s\<lparr>data := AList.update key e1 (data s)\<rparr>
            in (case encoding e1 of
                  EncodingINT \<Rightarrow> Ret (s1, Some (FormatInt (intVal e1)))
                | EncodingRAW \<Rightarrow> (case strVal e1 of Some b \<Rightarrow> Ret (s1, Some (String b)) | None \<Rightarrow> Panic)
                | EncodingEMBSTR \<Rightarrow> (case strVal e1 of Some b \<Rightarrow> Ret (s1, Some (String b)) | None \<Rightarrow> Panic)
                | EncodingHLL \<Rightarrow> Ret (s1, None))))"

text \<open>Inner \<open>None\<close>: no such key; outer \<open>None\<close>: the policy does not count accesses.\<close>

definition GetFreq :: "string \<Rightarrow> Store \<Rightarrow> Store \<times> byte option option" where
  "GetFreq key s =
     (if \<not> isLFU s then (s, None)
      else (case map_of (data s) key of
              None \<Rightarrow> (s, Some None)
            | Some e \<Rightarrow>
                if isExpired s e then (removeKey key s, Some None)
                else (s, Some (Some (lfuDecodeCounter (lru e))))))"

text \<open>\<^verbatim>\<open>time.Time.Sub\<close> saturates.\<close>

definition clamp64 :: "int \<Rightarrow> int" where
  "clamp64 x = max (- (2 ^ 63)) (min (2 ^ 63 - 1) x)"

definition TTL :: "string \<Rightarrow> Store \<Rightarrow> Store \<times> int" where
  "TTL key s =
     (case map_of (data s) key of
        None \<Rightarrow> (s, -2)
      | Some e \<Rightarrow>
          (case expiresAt e of
             None \<Rightarrow> (s, -1)
           | Some t \<Rightarrow>
               let remaining = clamp64 (t - now s)
               in if remaining \<le> 0 then (removeKey key s, -2)
                  else (s, go_div (go_div remaining (10 ^ 6) + 500) 1000)))"

definition UsedMemory :: "Store \<Rightarrow> int" where
  "UsedMemory s = usedMemory s"

definition KeyCount :: "Store \<Rightarrow> int" where
  "KeyCount s = int (length (data s))"

text \<open>The end of \<^verbatim>\<open>PFAdd\<close>: the loop over the values and the write back (lines 289 to 296).\<close>

definition pfadd_store ::
  "string \<Rightarrow> string list \<Rightarrow> entry \<Rightarrow> bool \<Rightarrow> Store \<Rightarrow> (Store \<times> bool option) outcome" where
  "pfadd_store key values e changed s =
     obind (case hllVal e of
              Some h \<Rightarrow> obind (AddAll h (map bytes values) changed) (\<lambda>(h', ch). Ret (e\<lparr>hllVal := Some h'\<rparr>, ch))
            | None \<Rightarrow> if values = [] then Ret (e, changed) else Panic) (\<lambda>(e', ch).
       let s2 = s\<lparr>data := AList.update key e' (data s)\<rparr>
       in Ret (s2\<lparr>usedMemory := usedMemory s2 + entrySize key e'\<rparr>, Some ch))"

text \<open>\<open>None\<close> is the error \<^verbatim>\<open>ErrNotHLL\<close>.\<close>

definition PFAdd :: "env \<Rightarrow> string \<Rightarrow> string list \<Rightarrow> Store \<Rightarrow> (Store \<times> bool option) outcome" where
  "PFAdd E key values s =
     (let e0 = map_of (data s) key;
          expired = (case e0 of Some e \<Rightarrow> isExpired s e | None \<Rightarrow> False);
          s1 = (if expired then removeKey key s else s);
          e1 = (if expired then None else e0)
      in (case e1 of
            Some e \<Rightarrow>
              if encoding e \<noteq> EncodingHLL then Ret (s1, None)
              else obind (stampAccess E s1 (lru e)) (\<lambda>w.
                pfadd_store key values (e\<lparr>lru := w\<rparr>) False (s1\<lparr>usedMemory := usedMemory s1 - entrySize key e\<rparr>))
          | None \<Rightarrow>
              pfadd_store key values
                \<lparr>encoding = EncodingHLL, intVal = 0, strVal = None, hllVal = Some hll_New,
                 expiresAt = None, lru = stampNew s1\<rparr> True
                (UpdateDbStat 0 ''keys'' 1 s1)))"

text \<open>The count is cached in the sketch the entry points to.\<close>

definition PFCount :: "env \<Rightarrow> string \<Rightarrow> Store \<Rightarrow> (Store \<times> int) outcome" where
  "PFCount E key s =
     (case map_of (data s) key of
        None \<Rightarrow> Ret (s, 0)
      | Some e \<Rightarrow>
          if encoding e \<noteq> EncodingHLL then Ret (s, 0)
          else (case hllVal e of
                  None \<Rightarrow> Panic
                | Some h \<Rightarrow>
                    obind (Count (fpu E) h) (\<lambda>(c, h').
                      Ret (s\<lparr>data := AList.update key (e\<lparr>hllVal := Some h'\<rparr>) (data s)\<rparr>, sint c))))"

fun merge_loop :: "Store \<Rightarrow> HLL \<Rightarrow> string list \<Rightarrow> HLL outcome" where
  "merge_loop s acc [] = Ret acc"
| "merge_loop s acc (key # keys) =
     (case map_of (data s) key of
        None \<Rightarrow> merge_loop s acc keys
      | Some e \<Rightarrow>
          if encoding e \<noteq> EncodingHLL then merge_loop s acc keys
          else (case hllVal e of
                  None \<Rightarrow> Panic
                | Some h \<Rightarrow> obind (Merge acc h) (\<lambda>(acc', _). merge_loop s acc' keys)))"

definition PFMerge :: "string \<Rightarrow> string list \<Rightarrow> Store \<Rightarrow> Store outcome" where
  "PFMerge dest sources s =
     obind (merge_loop s hll_New (dest # sources)) (\<lambda>acc.
       let s1 = (case map_of (data s) dest of
                   Some old \<Rightarrow> s\<lparr>usedMemory := usedMemory s - entrySize dest old\<rparr>
                 | None \<Rightarrow> UpdateDbStat 0 ''keys'' 1 s);
           e = \<lparr>encoding = EncodingHLL, intVal = 0, strVal = None, hllVal = Some acc,
                expiresAt = None, lru = stampNew s1\<rparr>;
           s2 = s1\<lparr>data := AList.update dest e (data s1)\<rparr>
       in Ret (s2\<lparr>usedMemory := usedMemory s2 + entrySize dest e\<rparr>))"

fun delete_loop :: "string list \<Rightarrow> int \<Rightarrow> Store \<Rightarrow> Store \<times> int" where
  "delete_loop [] removed s = (s, removed)"
| "delete_loop (key # keys) removed s =
     (case map_of (data s) key of
        None \<Rightarrow> delete_loop keys removed s
      | Some e \<Rightarrow> delete_loop keys (if \<not> isExpired s e then removed + 1 else removed) (removeKey key s))"

definition Delete :: "string list \<Rightarrow> Store \<Rightarrow> Store \<times> int" where
  "Delete keys s = delete_loop keys 0 s"

text \<open>
  \<^verbatim>\<open>DeleteExpired\<close>: the loop over the keys in the order of this iteration. Each key is
  removed at most when it is visited, so every key of the map is visited once.
\<close>

fun expire_loop :: "string list \<Rightarrow> nat \<Rightarrow> nat \<Rightarrow> Store \<Rightarrow> Store \<times> nat" where
  "expire_loop [] checked deleted s = (s, deleted)"
| "expire_loop (key # keys) checked deleted s =
     (if checked \<ge> 20 then (s, deleted)
      else (case map_of (data s) key of
              None \<Rightarrow> expire_loop keys checked deleted s
            | Some e \<Rightarrow>
                if expiresAt e = None then expire_loop keys checked deleted s
                else if isExpired s e
                then expire_loop keys (checked + 1) (deleted + 1) (removeKey key s)
                else expire_loop keys (checked + 1) deleted s))"

definition DeleteExpired :: "env \<Rightarrow> Store \<Rightarrow> Store \<times> nat" where
  "DeleteExpired E s = expire_loop (order E 0 (map fst (data s))) 0 0 s"

subsection \<open>Accounting\<close>

definition total :: "(string \<times> entry) list \<Rightarrow> int" where
  "total d = sum_list (map (\<lambda>(k, e). entrySize k e) d)"

definition size_at :: "(string \<times> entry) list \<Rightarrow> string \<Rightarrow> int" where
  "size_at d k = (case map_of d k of None \<Rightarrow> 0 | Some e \<Rightarrow> entrySize k e)"

lemma total_simps [simp]: "total [] = 0" "total ((k, e) # d) = entrySize k e + total d"
  by (simp_all add: total_def)

lemma total_update: "total (AList.update k e d) = total d - size_at d k + entrySize k e"
  by (induction d) (auto simp: size_at_def)

lemma total_delete: "distinct (map fst d) \<Longrightarrow> total (AList.delete k d) = total d - size_at d k"
proof (induction d)
  case (Cons x d)
  have "k \<notin> set (map fst d) \<Longrightarrow> AList.delete k d = d" for k by (simp add: delete_id)
  then show ?case using Cons by (cases x) (auto simp: size_at_def)
qed (simp add: size_at_def)

lemma length_update: "length (AList.update k e d) = length d + (if map_of d k = None then 1 else 0)"
  by (induction d) auto

lemma length_delete:
  "distinct (map fst d) \<Longrightarrow>
     int (length (AList.delete k d)) = int (length d) - (if map_of d k = None then 0 else 1)"
proof (induction d)
  case (Cons x d)
  obtain a b where x: "x = (a, b)" by fastforce
  show ?case
  proof (cases "a = k")
    case True
    then have "k \<notin> fst ` set d" using Cons.prems x by auto
    then show ?thesis using x True by (simp add: delete_id)
  next
    case False
    then show ?thesis using Cons x by auto
  qed
qed simp

lemma entrySize_pos [simp]: "0 < entrySize k e"
  by (simp add: entrySize_def Let_def entryOverhead_def)

lemma total_nonneg: "0 \<le> total d"
  by (induction d) (auto simp: less_imp_le intro: add_nonneg_nonneg)

definition entry_ok :: "fp \<Rightarrow> entry \<Rightarrow> bool" where
  "entry_ok f e =
     (case encoding e of
        EncodingINT \<Rightarrow> in_int64 (intVal e)
      | EncodingEMBSTR \<Rightarrow> (case strVal e of Some b \<Rightarrow> sds_ok b \<and> length (buf b) \<le> 44 | None \<Rightarrow> False)
      | EncodingRAW \<Rightarrow> (case strVal e of Some b \<Rightarrow> sds_ok b | None \<Rightarrow> False)
      | EncodingHLL \<Rightarrow> (case hllVal e of Some h \<Rightarrow> hll_ok f h \<and> strVal e = None | None \<Rightarrow> False))"

definition store_ok :: "fp \<Rightarrow> Store \<Rightarrow> bool" where
  "store_ok f s \<longleftrightarrow> distinct (map fst (data s)) \<and> usedMemory s = total (data s) \<and>
     KeyspaceStat s 0 ''keys'' = int (length (data s)) \<and>
     list_all (\<lambda>(k, e). entry_ok f e) (data s) \<and> LFUDecayTime (lfu s) \<noteq> 0"

abbreviation look :: "Store \<Rightarrow> string \<Rightarrow> entry option" where
  "look s \<equiv> map_of (data s)"

text \<open>The write all operations share: account for the old entry or the new key, store, account.\<close>

definition put_entry :: "string \<Rightarrow> entry \<Rightarrow> Store \<Rightarrow> Store" where
  "put_entry key e s =
     (let s1 = (case look s key of
                  None \<Rightarrow> UpdateDbStat 0 ''keys'' 1 s
                | Some old \<Rightarrow> s\<lparr>usedMemory := usedMemory s - entrySize key old\<rparr>);
          s2 = s1\<lparr>data := AList.update key e (data s1)\<rparr>
      in s2\<lparr>usedMemory := usedMemory s2 + entrySize key e\<rparr>)"

lemma UpdateDbStat_fields [simp]:
  "data (UpdateDbStat n m v s) = data s" "now (UpdateDbStat n m v s) = now s"
  "usedMemory (UpdateDbStat n m v s) = usedMemory s" "evPool (UpdateDbStat n m v s) = evPool s"
  "policy (UpdateDbStat n m v s) = policy s" "lfu (UpdateDbStat n m v s) = lfu s"
  "KeyspaceStat (UpdateDbStat n m v s) n m = KeyspaceStat s n m + v"
  by (simp_all add: UpdateDbStat_def)

lemma put_entry_fields [simp]:
  "data (put_entry k e s) = AList.update k e (data s)" "now (put_entry k e s) = now s"
  "usedMemory (put_entry k e s) = usedMemory s - size_at (data s) k + entrySize k e"
  "evPool (put_entry k e s) = evPool s" "policy (put_entry k e s) = policy s" "lfu (put_entry k e s) = lfu s"
  "KeyspaceStat (put_entry k e s) 0 ''keys'' = KeyspaceStat s 0 ''keys'' + (if look s k = None then 1 else 0)"
  by (simp_all add: put_entry_def Let_def size_at_def split: option.splits)

lemma removeKey_fields [simp]:
  "data (removeKey k s) = AList.delete k (data s)" "now (removeKey k s) = now s"
  "usedMemory (removeKey k s) = usedMemory s - size_at (data s) k"
  "evPool (removeKey k s) = evPool s" "policy (removeKey k s) = policy s" "lfu (removeKey k s) = lfu s"
  "KeyspaceStat (removeKey k s) 0 ''keys'' = KeyspaceStat s 0 ''keys'' - (if look s k = None then 0 else 1)"
  by (cases "look s k"; simp add: removeKey_def size_at_def delete_id flip: map_of_eq_None_iff)+

lemma list_all_update: "list_all P d \<Longrightarrow> P (k, e) \<Longrightarrow> list_all P (AList.update k e d)"
  by (induction d) auto

lemma list_all_delete: "list_all P d \<Longrightarrow> list_all P (AList.delete k d)"
  by (induction d) auto

subsection \<open>The keyspace contract\<close>

text \<open>
  What the operations above rely on: a state with writes and removals of single keys that
  keep its invariant. Loops over keys follow from it.
\<close>

locale keyspace =
  fixes ok :: "'s \<Rightarrow> bool"
    and get :: "'s \<Rightarrow> string \<Rightarrow> 'e option"
    and put :: "string \<Rightarrow> 'e \<Rightarrow> 's \<Rightarrow> 's"
    and del :: "string \<Rightarrow> 's \<Rightarrow> 's"
    and good :: "'e \<Rightarrow> bool"
  assumes ok_put: "ok s \<Longrightarrow> good e \<Longrightarrow> ok (put k e s)"
    and get_put: "get (put k e s) = (get s)(k \<mapsto> e)"
    and ok_del: "ok s \<Longrightarrow> ok (del k s)"
    and get_del: "get (del k s) = (get s)(k := None)"
    and get_good: "ok s \<Longrightarrow> get s k = Some e \<Longrightarrow> good e"
begin

lemma ok_del_all: "ok s \<Longrightarrow> ok (fold del ks s)"
  by (induction ks arbitrary: s) (auto intro: ok_del)

lemma get_del_all: "get (fold del ks s) = (get s) |` (- set ks)"
  by (induction ks arbitrary: s) (auto simp: get_del restrict_map_def fun_eq_iff)

lemma get_put_other: "k' \<noteq> k \<Longrightarrow> get (put k e s) k' = get s k'"
  by (simp add: get_put)

end

interpretation ks: keyspace "store_ok f" look put_entry removeKey "entry_ok f" for f
proof
  fix s :: Store and k and e
  assume ok: "store_ok f s" and e: "entry_ok f e"
  have "list_all (\<lambda>(k, e). entry_ok f e) (AList.update k e (data s))"
    using ok e by (intro list_all_update) (simp_all add: store_ok_def)
  with ok e show "store_ok f (put_entry k e s)"
    by (auto simp: store_ok_def distinct_update total_update length_update dest: weak_map_of_SomeI)
next
  fix s :: Store and k and e
  show "look (put_entry k e s) = (look s)(k \<mapsto> e)" by (simp add: update_conv')
  show "look (removeKey k s) = (look s)(k := None)" by (simp add: delete_conv')
  assume ok: "store_ok f s"
  then show "store_ok f (removeKey k s)"
    by (auto simp: store_ok_def distinct_delete total_delete length_delete list_all_delete)
  show "look s k = Some e \<Longrightarrow> entry_ok f e"
    using ok by (auto simp: store_ok_def list_all_iff dest: map_of_SomeD)
qed

subsection \<open>Every operation is made of writes and removals\<close>

definition new_entry :: "string \<Rightarrow> int \<Rightarrow> Store \<Rightarrow> entry" where
  "new_entry value ttl s =
     \<lparr>encoding = detectEncoding value,
      intVal = (case ParseInt value of Some n \<Rightarrow> n | None \<Rightarrow> 0),
      strVal = (if ParseInt value = None then Some (sds_New value) else None),
      hllVal = None, expiresAt = (if ttl > 0 then Some (now s + ttl) else None), lru = stampNew s\<rparr>"

lemma stampNew_frame [simp]:
  "stampNew (UpdateDbStat n m v s) = stampNew s" "stampNew (s\<lparr>usedMemory := u\<rparr>) = stampNew s"
  "stampNew (s\<lparr>data := d\<rparr>) = stampNew s"
  by (simp_all add: stampNew_def isLFU_def lfuClock_def lruClock_def)

lemma stampAccess_frame [simp]:
  "stampAccess E (s\<lparr>usedMemory := u\<rparr>) w = stampAccess E s w"
  by (simp add: stampAccess_def isLFU_def lfuClock_def lruClock_def)

lemma Set_put: "Set key value ttl s = put_entry key (new_entry value ttl s) s"
  by (cases "look s key"; cases "ParseInt value")
    (simp_all add: Set_def put_entry_def new_entry_def detectEncoding_def Let_def)

lemma new_entry_ok: "entry_ok f (new_entry value ttl s)"
  by (auto simp: entry_ok_def new_entry_def detectEncoding_def sds_New_def sds_ok_def dest: ParseInt_range)

text \<open>A write that keeps the size of the entry is a plain store into the map.\<close>

lemma put_same_size:
  assumes "look s key = Some e" "entrySize key e' = entrySize key e"
  shows "s\<lparr>data := AList.update key e' (data s)\<rparr> = put_entry key e' s"
  using assms by (simp add: put_entry_def)

lemma entrySize_lru [simp]: "entrySize key (e\<lparr>lru := w\<rparr>) = entrySize key e"
  by (cases "encoding e") (simp_all add: entrySize_def)

lemma entry_ok_lru [simp]: "entry_ok f (e\<lparr>lru := w\<rparr>) = entry_ok f e"
  by (cases "encoding e") (simp_all add: entry_ok_def split: option.splits)

lemma stampAccess_Ret: "store_ok f s \<Longrightarrow> \<exists>w. stampAccess E s v = Ret w"
  using lfuTouch_Ret by (auto simp: stampAccess_def store_ok_def)

definition touch :: "string \<Rightarrow> entry \<Rightarrow> 32 word \<Rightarrow> Store \<Rightarrow> Store" where
  "touch key e w s = put_entry key (e\<lparr>lru := w\<rparr>) s"

lemma touch_eq: "look s key = Some e \<Longrightarrow> s\<lparr>data := AList.update key (e\<lparr>lru := w\<rparr>) (data s)\<rparr> = touch key e w s"
  by (simp add: touch_def put_same_size)

lemma touch_ok: "store_ok f s \<Longrightarrow> look s key = Some e \<Longrightarrow> store_ok f (touch key e w s)"
  unfolding touch_def by (rule ks.ok_put) (auto dest: ks.get_good)

text \<open>What the keys hold and until when, as a client can find out: nothing once it has expired.\<close>

datatype rvalue = RInt int | RStr string | RSketch "byte list"

fun value_of :: "entry \<Rightarrow> rvalue" where
  "value_of e =
     (case encoding e of
        EncodingINT \<Rightarrow> RInt (intVal e)
      | EncodingHLL \<Rightarrow> RSketch (case hllVal e of Some h \<Rightarrow> regs h | None \<Rightarrow> [])
      | _ \<Rightarrow> RStr (case strVal e of Some b \<Rightarrow> String b | None \<Rightarrow> []))"

declare value_of.simps [simp del]

text \<open>The bytes a string command sees; a sketch has none.\<close>

fun text_of :: "rvalue \<Rightarrow> string option" where
  "text_of (RInt n) = Some (FormatInt n)"
| "text_of (RStr v) = Some v"
| "text_of (RSketch _) = None"

definition view :: "Store \<Rightarrow> string \<Rightarrow> (rvalue \<times> int option) option" where
  "view s k =
     (case look s k of
        None \<Rightarrow> None
      | Some e \<Rightarrow> if isExpired s e then None else Some (value_of e, expiresAt e))"

lemma isExpired_frame [simp]:
  "isExpired (put_entry k e s) = isExpired s" "isExpired (removeKey k s) = isExpired s"
  "isExpired s (e\<lparr>lru := w\<rparr>) = isExpired s e"
  by (simp_all add: isExpired_def fun_eq_iff split: option.splits)

lemma view_put:
  "view (put_entry k e s) = (view s)(k := if isExpired s e then None else Some (value_of e, expiresAt e))"
  by (auto simp: view_def fun_eq_iff update_conv' split: option.splits)

lemma view_remove: "view (removeKey k s) = (view s)(k := None)"
  by (auto simp: view_def fun_eq_iff delete_conv' split: option.splits)

lemma view_remove_expired: "look s k = Some e \<Longrightarrow> isExpired s e \<Longrightarrow> view (removeKey k s) = view s"
  by (auto simp: view_remove view_def fun_eq_iff)

lemma value_of_lru [simp]: "value_of (e\<lparr>lru := w\<rparr>) = value_of e"
  by (cases "encoding e") (simp_all add: value_of.simps)

lemma view_touch: "look s k = Some e \<Longrightarrow> view (touch k e w s) = view s"
  unfolding touch_def view_put by (auto simp: view_def fun_eq_iff)

lemma view_Some:
  "view s k = Some (v, x) \<longleftrightarrow> (\<exists>e. look s k = Some e \<and> \<not> isExpired s e \<and> value_of e = v \<and> expiresAt e = x)"
  by (auto simp: view_def split: option.splits if_splits)

lemma view_None: "view s k = None \<longleftrightarrow> look s k = None \<or> (\<exists>e. look s k = Some e \<and> isExpired s e)"
  by (auto simp: view_def split: option.splits if_splits)

subsection \<open>What each operation does\<close>

text \<open>The value a string is stored as: anything that parses as an integer becomes one.\<close>

definition stored :: "string \<Rightarrow> rvalue" where
  "stored v = (case ParseInt v of Some n \<Rightarrow> RInt n | None \<Rightarrow> RStr v)"

lemma value_of_new_entry: "value_of (new_entry v ttl s) = stored v"
  by (auto simp: value_of.simps new_entry_def detectEncoding_def stored_def split: option.splits)

lemma new_entry_expiry:
  "expiresAt (new_entry v ttl s) = (if 0 < ttl then Some (now s + ttl) else None)"
  "\<not> isExpired s (new_entry v ttl s)"
  by (auto simp: new_entry_def isExpired_def)

lemma Set_view:
  "view (Set k v ttl s) = (view s)(k \<mapsto> (stored v, if 0 < ttl then Some (now s + ttl) else None))"
  by (simp add: Set_put view_put new_entry_expiry value_of_new_entry)

lemma Set_ok: "store_ok f s \<Longrightarrow> store_ok f (Set k v ttl s)"
  unfolding Set_put by (intro ks.ok_put new_entry_ok)

lemma entry_ok_cases:
  assumes "entry_ok f e"
  obtains "encoding e = EncodingINT" "value_of e = RInt (intVal e)" "in_int64 (intVal e)"
  | b where "encoding e \<in> {EncodingEMBSTR, EncodingRAW}" "strVal e = Some b" "value_of e = RStr (String b)" "sds_ok b"
  | h where "encoding e = EncodingHLL" "hllVal e = Some h" "value_of e = RSketch (regs h)" "hll_ok f h" "strVal e = None"
  using assms by (cases "encoding e") (auto simp: entry_ok_def value_of.simps split: option.splits)

lemma Get_view:
  assumes "store_ok f s"
  shows "\<exists>s'. Get E k s = Ret (s', case view s k of None \<Rightarrow> None | Some (v, _) \<Rightarrow> text_of v) \<and>
    store_ok f s' \<and> view s' = view s"
proof (cases "look s k")
  case None
  then show ?thesis using assms by (simp add: Get_def view_def)
next
  case (Some e)
  show ?thesis
  proof (cases "isExpired s e")
    case True
    then show ?thesis using Some assms ks.ok_del [OF assms] view_remove_expired [OF Some True]
      by (simp add: Get_def view_def)
  next
    case False
    obtain w where w: "stampAccess E s (lru e) = Ret w" using stampAccess_Ret [OF assms] by blast
    have "store_ok f (touch k e w s)" "view (touch k e w s) = view s"
      using touch_ok [OF assms Some] view_touch [OF Some] by simp_all
    moreover have "entry_ok f e" using ks.get_good [OF assms Some] .
    then have "Get E k s = Ret (touch k e w s, text_of (value_of e))"
      by (cases rule: entry_ok_cases) (auto simp: Get_def Some False w touch_eq [OF Some])
    ultimately show ?thesis using Some False by (simp add: view_def)
  qed
qed

lemma GetInt_view:
  assumes "store_ok f s"
  shows "\<exists>s'. GetInt E k s =
      Ret (s', case view s k of
                 None \<Rightarrow> (0, False, False, None)
               | Some (RInt n, x) \<Rightarrow> (n, True, False, x)
               | Some (_, x) \<Rightarrow> (0, True, True, None)) \<and>
    store_ok f s' \<and> view s' = view s"
proof (cases "look s k")
  case None
  then show ?thesis using assms by (simp add: GetInt_def view_def)
next
  case (Some e)
  show ?thesis
  proof (cases "isExpired s e")
    case True
    then show ?thesis using Some assms ks.ok_del [OF assms] view_remove_expired [OF Some True]
      by (simp add: GetInt_def view_def)
  next
    case False
    obtain w where w: "stampAccess E s (lru e) = Ret w" using stampAccess_Ret [OF assms] by blast
    have "store_ok f (touch k e w s)" "view (touch k e w s) = view s"
      using touch_ok [OF assms Some] view_touch [OF Some] by simp_all
    moreover have "entry_ok f e" using ks.get_good [OF assms Some] .
    then have "GetInt E k s = Ret (touch k e w s, case value_of e of
        RInt n \<Rightarrow> (n, True, False, expiresAt e) | _ \<Rightarrow> (0, True, True, None))"
      by (cases rule: entry_ok_cases) (auto simp: GetInt_def Some False w touch_eq [OF Some] Let_def)
    ultimately show ?thesis using Some False by (auto simp: view_def split: rvalue.splits)
  qed
qed

lemma clamp64_pos: "clamp64 (t - u) \<le> 0 \<longleftrightarrow> \<not> u < t" "0 < clamp64 (t - u) \<longleftrightarrow> u < t"
  by (auto simp: clamp64_def)

lemma meta_read:
  assumes "store_ok f s"
  shows "store_ok f (fst (GetEncoding k s)) \<and> view (fst (GetEncoding k s)) = view s"
    and "store_ok f (fst (GetFreq k s)) \<and> view (fst (GetFreq k s)) = view s"
    and "store_ok f (fst (TTL k s)) \<and> view (fst (TTL k s)) = view s"
proof -
  show "store_ok f (fst (GetEncoding k s)) \<and> view (fst (GetEncoding k s)) = view s"
    "store_ok f (fst (GetFreq k s)) \<and> view (fst (GetFreq k s)) = view s"
    using assms ks.ok_del [OF assms]
    by (auto simp: GetEncoding_def GetFreq_def view_remove_expired split: option.splits)
  show "store_ok f (fst (TTL k s)) \<and> view (fst (TTL k s)) = view s"
  proof (cases "look s k")
    case (Some e)
    then show ?thesis using assms ks.ok_del [OF assms] view_remove_expired [OF Some]
      by (cases "expiresAt e") (simp_all add: TTL_def isExpired_def clamp64_pos Let_def)
  qed (use assms in \<open>simp add: TTL_def\<close>)
qed

text \<open>Seconds left, rounded to the nearest; -1 without expiry, -2 for no key.\<close>

lemma whole_seconds: "0 < x \<Longrightarrow> go_div (go_div x 1000000 + 500) 1000 = (x div 1000000 + 500) div 1000"
  by (simp add: pos_imp_zdiv_nonneg_iff)

lemma TTL_result:
  "snd (TTL k s) =
     (case view s k of
        None \<Rightarrow> -2
      | Some (_, None) \<Rightarrow> -1
      | Some (_, Some t) \<Rightarrow> (clamp64 (t - now s) div 10 ^ 6 + 500) div 1000)"
  by (cases "look s k"; cases "expiresAt (the (look s k))")
    (auto simp: TTL_def view_def isExpired_def Let_def clamp64_pos whole_seconds)

lemma entry_ok_raw: "sds_ok b \<Longrightarrow> encoding e = EncodingRAW \<Longrightarrow> strVal e = Some b \<Longrightarrow> entry_ok f e"
  by (simp add: entry_ok_def)

lemma Append_view:
  assumes "store_ok f s" "env_ok E" "look s k = Some e" "text_of (value_of e) = Some t"
  shows "\<exists>s'. Append E k v s = Ret (s', int (length t + length v)) \<and> store_ok f s' \<and>
    view s' = (view s)(k := if isExpired s e then None else Some (RStr (t @ v), expiresAt e))"
proof -
  obtain w where w: "stampAccess E s (lru e) = Ret w" using stampAccess_Ret [OF assms(1)] by blast
  obtain b where b: "(if encoding e = EncodingINT then Some (sds_New (FormatInt (intVal e))) else strVal e) = Some b"
    "String b = t"
    using ks.get_good [OF assms(1,3)] assms(4) by (cases rule: entry_ok_cases) auto
  let ?e = "\<lparr>encoding = EncodingRAW, intVal = 0, strVal = Some (AppendString (grow E) b v), hllVal = None,
    expiresAt = expiresAt e, lru = w\<rparr>"
  have "Append E k v s = Ret (put_entry k ?e s, int (length t + length v))"
    using assms(3) b w by (simp add: Append_def put_entry_def Len_eq Let_def)
  moreover have "entry_ok f ?e"
    using assms(2) by (intro entry_ok_raw [OF AppendString_ok]) (auto simp: env_ok_def)
  then have "store_ok f (put_entry k ?e s)" by (rule ks.ok_put [OF assms(1)])
  moreover have "view (put_entry k ?e s) = (view s)(k := if isExpired s e then None else Some (RStr (t @ v), expiresAt e))"
    using b(2) by (simp add: view_put value_of.simps isExpired_def)
  ultimately show ?thesis by blast
qed

lemma pfadd_store_put:
  assumes "hll_ok f h" "hllVal e = Some h" "encoding e = EncodingHLL"
  shows "\<exists>h' ch. pfadd_store key values e changed
      (case look s key of None \<Rightarrow> UpdateDbStat 0 ''keys'' 1 s
       | Some old \<Rightarrow> s\<lparr>usedMemory := usedMemory s - entrySize key old\<rparr>) =
      Ret (put_entry key (e\<lparr>hllVal := Some h'\<rparr>) s, Some ch) \<and> hll_ok f h' \<and>
      regs h' = max_all (regs h) (map (hllPatLen \<circ> bytes) values) \<and> (ch \<longleftrightarrow> changed \<or> regs h' \<noteq> regs h)"
proof -
  from AddAll_regs [OF assms(1), of "map bytes values" changed] obtain h' ch where
    "AddAll h (map bytes values) changed = Ret (h', ch)" "hll_ok f h'"
    "regs h' = max_all (regs h) (map (hllPatLen \<circ> bytes) values)" "ch \<longleftrightarrow> changed \<or> regs h' \<noteq> regs h"
    by auto
  then show ?thesis using assms(2)
    by (intro exI [of _ h'] exI [of _ ch]) (simp add: pfadd_store_def put_entry_def Let_def)
qed

lemma entry_ok_hll:
  "hll_ok f h \<Longrightarrow> encoding e = EncodingHLL \<Longrightarrow> hllVal e = Some h \<Longrightarrow> strVal e = None \<Longrightarrow> entry_ok f e"
  by (simp add: entry_ok_def)

lemma PFAdd_create:
  assumes "store_ok f s" "fp_ok f" "view s k = None"
  shows "\<exists>s'. PFAdd E k values s = Ret (s', Some True) \<and> store_ok f s' \<and>
    view s' = (view s)(k \<mapsto> (RSketch (sketch (map bytes values)), None))"
proof -
  define s1 where "s1 = (if look s k = None then s else removeKey k s)"
  have s1: "store_ok f s1" "view s1 = view s" "look s1 k = None"
    using assms ks.ok_del [OF assms(1)]
    by (auto simp: s1_def view_None view_remove_expired delete_conv')
  let ?e = "\<lparr>encoding = EncodingHLL, intVal = 0, strVal = None, hllVal = Some hll_New, expiresAt = None, lru = stampNew s1\<rparr>"
  have "PFAdd E k values s = pfadd_store k values ?e True (UpdateDbStat 0 ''keys'' 1 s1)"
    using assms(3) by (auto simp: PFAdd_def view_None s1_def Let_def)
  with pfadd_store_put [OF hll_New_ok [OF assms(2)], of ?e k "values" True s1] s1(3)
  obtain h' where h': "PFAdd E k values s = Ret (put_entry k (?e\<lparr>hllVal := Some h'\<rparr>) s1, Some True)" "hll_ok f h'"
    "regs h' = sketch (map bytes values)"
    by (auto simp: sketch_def hll_New_regs)
  have "store_ok f (put_entry k (?e\<lparr>hllVal := Some h'\<rparr>) s1)"
    by (rule ks.ok_put [OF s1(1)], rule entry_ok_hll [OF h'(2)]) simp_all
  then show ?thesis using h' s1(2) by (simp add: view_put isExpired_def value_of.simps)
qed

lemma PFAdd_update:
  assumes "store_ok f s" "view s k = Some (RSketch rs, x)"
  shows "\<exists>s' ch. PFAdd E k values s = Ret (s', Some ch) \<and> store_ok f s' \<and>
    view s' = (view s)(k \<mapsto> (RSketch (max_all rs (map (hllPatLen \<circ> bytes) values)), x)) \<and>
    (ch \<longleftrightarrow> max_all rs (map (hllPatLen \<circ> bytes) values) \<noteq> rs)"
proof -
  from assms(2) obtain e where e: "look s k = Some e" "\<not> isExpired s e" "value_of e = RSketch rs" "expiresAt e = x"
    by (auto simp: view_Some)
  from ks.get_good [OF assms(1) e(1)] e(3) obtain h where h: "encoding e = EncodingHLL" "hllVal e = Some h"
    "rs = regs h" "hll_ok f h" "strVal e = None"
    by (cases rule: entry_ok_cases) auto
  obtain w where w: "stampAccess E s (lru e) = Ret w" using stampAccess_Ret [OF assms(1)] by blast
  have "PFAdd E k values s = pfadd_store k values (e\<lparr>lru := w\<rparr>) False
      (s\<lparr>usedMemory := usedMemory s - entrySize k e\<rparr>)"
    using e(1,2) h(1) w by (simp add: PFAdd_def Let_def)
  with pfadd_store_put [OF h(4), of "e\<lparr>lru := w\<rparr>" k "values" False s] e(1) h(1,2)
  obtain h' ch where h': "PFAdd E k values s = Ret (put_entry k (e\<lparr>lru := w, hllVal := Some h'\<rparr>) s, Some ch)"
    "hll_ok f h'" "regs h' = max_all (regs h) (map (hllPatLen \<circ> bytes) values)" "ch \<longleftrightarrow> regs h' \<noteq> regs h"
    by auto
  have "store_ok f (put_entry k (e\<lparr>lru := w, hllVal := Some h'\<rparr>) s)"
    by (rule ks.ok_put [OF assms(1)], rule entry_ok_hll [OF h'(2)]) (simp_all add: h(1,5))
  then show ?thesis using h' h e by (simp add: view_put isExpired_def value_of.simps)
qed

lemma PFAdd_wrongtype:
  assumes "view s k = Some (v, x)" "text_of v \<noteq> None" "store_ok f s"
  shows "PFAdd E k values s = Ret (s, None)"
proof -
  from assms(1) obtain e where e: "look s k = Some e" "\<not> isExpired s e" "value_of e = v" by (auto simp: view_Some)
  with ks.get_good [OF assms(3) e(1)] assms(2) show ?thesis
    by (cases rule: entry_ok_cases) (auto simp: PFAdd_def)
qed

lemma PFCount_view:
  assumes "store_ok (fpu E) s"
  shows "\<exists>s'. PFCount E k s = Ret (s', case look s k of
      Some e \<Rightarrow> (case value_of e of RSketch rs \<Rightarrow> sint (cardinality (fpu E) (histogram rs)) | _ \<Rightarrow> 0)
    | None \<Rightarrow> 0) \<and> store_ok (fpu E) s' \<and> view s' = view s"
proof (cases "look s k")
  case None
  then show ?thesis using assms by (simp add: PFCount_def)
next
  case (Some e)
  from ks.get_good [OF assms Some] show ?thesis
  proof (cases rule: entry_ok_cases)
    case (3 h)
    from Count_regs [OF 3(4)] obtain h' where h': "Count (fpu E) h = Ret (cardinality (fpu E) (histogram (regs h)), h')"
      "hll_ok (fpu E) h'" "regs h' = regs h" "Size h' = Size h" by blast
    let ?e = "e\<lparr>hllVal := Some h'\<rparr>"
    have "entrySize k ?e = entrySize k e" using 3(1,2) h'(4) by (simp add: entrySize_def)
    then have "PFCount E k s = Ret (put_entry k ?e s, sint (cardinality (fpu E) (histogram (regs h))))"
      using Some 3 h'(1) by (simp add: PFCount_def put_same_size [OF Some])
    moreover have "store_ok (fpu E) (put_entry k ?e s)"
      by (rule ks.ok_put [OF assms], rule entry_ok_hll [OF h'(2)]) (simp_all add: 3(1,5))
    moreover have "isExpired s ?e = isExpired s e" "value_of ?e = value_of e"
      using 3 h'(3) by (simp_all add: isExpired_def value_of.simps)
    then have "view (put_entry k ?e s) = view s" unfolding view_put using Some by (auto simp: view_def)
    ultimately show ?thesis using Some 3(3) by simp
  qed (use Some assms in \<open>auto simp: PFCount_def\<close>)
qed

definition sketches :: "Store \<Rightarrow> string list \<Rightarrow> byte list list" where
  "sketches s keys =
     concat (map (\<lambda>k. case look s k of
                        Some e \<Rightarrow> (case value_of e of RSketch rs \<Rightarrow> [rs] | _ \<Rightarrow> [])
                      | None \<Rightarrow> []) keys)"

lemma merge_loop_regs:
  assumes "store_ok f s" "hll_ok f acc"
  shows "\<exists>h. merge_loop s acc keys = Ret h \<and> hll_ok f h \<and> regs h = foldl (map2 max) (regs acc) (sketches s keys)"
  using assms(2)
proof (induction keys arbitrary: acc)
  case Nil
  then show ?case by (simp add: sketches_def)
next
  case (Cons k keys)
  show ?case
  proof (cases "look s k")
    case None
    then show ?thesis using Cons.IH [OF Cons.prems] by (simp add: sketches_def)
  next
    case (Some e)
    from ks.get_good [OF assms(1) Some] show ?thesis
    proof (cases rule: entry_ok_cases)
      case (3 h)
      from Merge_ok [OF Cons.prems 3(4)] obtain h1 ch where
        "Merge acc h = Ret (h1, ch)" "hll_ok f h1" "regs h1 = map2 max (regs acc) (regs h)" by blast
      then show ?thesis using Cons.IH [of h1] Some 3 by (simp add: sketches_def)
    qed (use Cons.IH [OF Cons.prems] Some in \<open>auto simp: sketches_def\<close>)
  qed
qed

lemma PFMerge_view:
  assumes "store_ok f s" "fp_ok f"
  shows "\<exists>s'. PFMerge dest sources s = Ret s' \<and> store_ok f s' \<and>
    view s' = (view s)(dest \<mapsto>
      (RSketch (foldl (map2 max) (replicate registers 0) (sketches s (dest # sources))), None))"
proof -
  from merge_loop_regs [OF assms(1) hll_New_ok [OF assms(2)], of "dest # sources"]
  obtain h where h: "merge_loop s hll_New (dest # sources) = Ret h" "hll_ok f h"
    "regs h = foldl (map2 max) (replicate registers 0) (sketches s (dest # sources))"
    by (auto simp: hll_New_regs)
  let ?e = "\<lparr>encoding = EncodingHLL, intVal = 0, strVal = None, hllVal = Some h, expiresAt = None, lru = stampNew s\<rparr>"
  have "PFMerge dest sources s = Ret (put_entry dest ?e s)"
    unfolding PFMerge_def h(1) by (simp add: put_entry_def Let_def split: option.splits)
  moreover have "store_ok f (put_entry dest ?e s)"
    by (rule ks.ok_put [OF assms(1)], rule entry_ok_hll [OF h(2)]) simp_all
  moreover have "\<not> isExpired s ?e" "value_of ?e = RSketch (regs h)" by (simp_all add: isExpired_def value_of.simps)
  ultimately show ?thesis using h(3) by (simp add: view_put)
qed

subsection \<open>Removing keys\<close>

lemma removeKey_None: "look s k = None \<Longrightarrow> removeKey k s = s"
  by (simp add: removeKey_def)

lemma now_removeKeys [simp]: "now (fold removeKey keys s) = now s"
  by (induction keys arbitrary: s) auto

lemma isExpired_removeKeys [simp]: "isExpired (fold removeKey keys s) = isExpired s"
  by (induction keys arbitrary: s) auto

lemma view_removeKeys: "view (fold removeKey keys s) = (view s) |` (- set keys)"
  using ks.get_del_all [of keys s]
  by (auto simp: view_def restrict_map_def fun_eq_iff split: option.splits)

lemma delete_loop_eq:
  "delete_loop keys removed s =
     (fold removeKey keys s, removed + int (card {k \<in> set keys. view s k \<noteq> None}))"
proof (induction keys arbitrary: removed s)
  case (Cons k keys)
  have set: "{k' \<in> set keys. view (removeKey k s) k' \<noteq> None} = {k' \<in> set keys. view s k' \<noteq> None} - {k}"
    by (auto simp: view_remove)
  show ?case
  proof (cases "view s k")
    case None
    then have "{k' \<in> set (k # keys). view s k' \<noteq> None} = {k' \<in> set keys. view s k' \<noteq> None}"
      "k \<notin> {k' \<in> set keys. view s k' \<noteq> None}" by auto
    then show ?thesis using None Cons set by (auto simp: view_None removeKey_None)
  next
    case (Some v)
    then obtain e where e: "look s k = Some e" "\<not> isExpired s e" by (cases v) (auto simp: view_Some)
    have "{k' \<in> set (k # keys). view s k' \<noteq> None} = insert k ({k' \<in> set keys. view s k' \<noteq> None} - {k})"
      using Some by auto
    then have "card {k' \<in> set (k # keys). view s k' \<noteq> None} =
        Suc (card {k' \<in> set keys. view (removeKey k s) k' \<noteq> None})"
      by (simp only: set) (simp add: card.insert_remove del: not_None_eq)
    then show ?thesis using e by (simp only: delete_loop.simps Cons) simp
  qed
qed simp

lemma Delete_view:
  assumes "store_ok f s"
  shows "store_ok f (fst (Delete keys s)) \<and> view (fst (Delete keys s)) = (view s) |` (- set keys) \<and>
    snd (Delete keys s) = int (card {k \<in> set keys. view s k \<noteq> None})"
  using ks.ok_del_all [OF assms, of keys] by (simp add: Delete_def delete_loop_eq view_removeKeys)

definition expired_key :: "Store \<Rightarrow> string \<Rightarrow> bool" where
  "expired_key s k = (case look s k of None \<Rightarrow> False | Some e \<Rightarrow> isExpired s e)"

definition volatile_key :: "Store \<Rightarrow> string \<Rightarrow> bool" where
  "volatile_key s k = (case look s k of None \<Rightarrow> False | Some e \<Rightarrow> expiresAt e \<noteq> None)"

lemma expired_volatile: "expired_key s k \<Longrightarrow> volatile_key s k"
  by (auto simp: expired_key_def volatile_key_def isExpired_def split: option.splits)

lemma removeKey_other:
  "k \<noteq> k' \<Longrightarrow> expired_key (removeKey k s) k' = expired_key s k'"
  "k \<noteq> k' \<Longrightarrow> volatile_key (removeKey k s) k' = volatile_key s k'"
  by (auto simp: expired_key_def volatile_key_def delete_conv' split: option.splits)

lemma expire_loop_keys:
  assumes "distinct keys"
  shows "\<exists>ks. distinct ks \<and> set ks \<subseteq> set keys \<and> list_all (expired_key s) ks \<and> length ks \<le> 20 - checked \<and>
    expire_loop keys checked deleted s = (fold removeKey ks s, deleted + length ks) \<and>
    (checked + length (filter (volatile_key s) keys) \<le> 20 \<longrightarrow> {k \<in> set keys. expired_key s k} \<subseteq> set ks)"
  using assms
proof (induction keys arbitrary: checked deleted s)
  case (Cons k keys)
  then have dist: "distinct keys" "k \<notin> set keys" by simp_all
  note IH = Cons.IH [OF dist(1)]
  consider "20 \<le> checked" | "checked < 20" "\<not> volatile_key s k"
    | "checked < 20" "volatile_key s k" "\<not> expired_key s k" | "checked < 20" "expired_key s k"
    by linarith
  then show ?case
  proof cases
    case 1
    then have "filter (volatile_key s) (k # keys) = []"
      if "checked + length (filter (volatile_key s) (k # keys)) \<le> 20"
      using that by (simp only: flip: length_0_conv)
    then have "\<forall>k' \<in> set (k # keys). \<not> volatile_key s k'"
      if "checked + length (filter (volatile_key s) (k # keys)) \<le> 20"
      using that by (simp only: filter_empty_conv) blast
    then have "{k' \<in> set (k # keys). expired_key s k'} = {}"
      if "checked + length (filter (volatile_key s) (k # keys)) \<le> 20"
      using that expired_volatile by blast
    with 1 show ?thesis by (intro exI [of _ "[]"]) auto
  next
    case 2
    then have "expire_loop (k # keys) checked deleted s = expire_loop keys checked deleted s"
      by (auto simp: volatile_key_def split: option.splits)
    then show ?thesis using IH [of s checked deleted] 2 expired_volatile by fastforce
  next
    case 3
    then have "expire_loop (k # keys) checked deleted s = expire_loop keys (checked + 1) deleted s"
      by (auto simp: volatile_key_def expired_key_def split: option.splits)
    then show ?thesis using IH [of s "checked + 1" deleted] 3 by fastforce
  next
    case 4
    then have eq: "expire_loop (k # keys) checked deleted s = expire_loop keys (checked + 1) (deleted + 1) (removeKey k s)"
      by (auto simp: expired_key_def isExpired_def split: option.splits)
    obtain ks where ks: "distinct ks" "set ks \<subseteq> set keys" "list_all (expired_key (removeKey k s)) ks"
      "length ks \<le> 20 - (checked + 1)"
      "expire_loop keys (checked + 1) (deleted + 1) (removeKey k s) = (fold removeKey ks (removeKey k s), deleted + 1 + length ks)"
      "checked + 1 + length (filter (volatile_key (removeKey k s)) keys) \<le> 20 \<longrightarrow>
        {k' \<in> set keys. expired_key (removeKey k s) k'} \<subseteq> set ks"
      using IH [of "removeKey k s" "checked + 1" "deleted + 1"] by blast
    have same: "\<forall>k' \<in> set keys. expired_key (removeKey k s) k' = expired_key s k' \<and>
        volatile_key (removeKey k s) k' = volatile_key s k'"
      using dist(2) removeKey_other by metis
    then have "filter (volatile_key (removeKey k s)) keys = filter (volatile_key s) keys"
      by (auto intro: filter_cong)
    then show ?thesis using ks eq same 4 dist(2) expired_volatile [OF 4(2)]
      by (intro exI [of _ "k # ks"]) (auto simp: list_all_iff)
  qed
qed auto

lemma view_expired_removed:
  "list_all (expired_key s) ks \<Longrightarrow> view (fold removeKey ks s) = view s"
proof -
  assume "list_all (expired_key s) ks"
  moreover have "expired_key s k \<Longrightarrow> view s k = None" for k
    by (auto simp: expired_key_def view_def split: option.splits)
  ultimately show ?thesis by (auto simp: list_all_iff fun_eq_iff view_removeKeys restrict_map_def)
qed

subsection \<open>Properties\<close>

text \<open>
  What \<^verbatim>\<open>Set\<close> stores is what \<^verbatim>\<open>Get\<close> returns, for the key written and for every
  other key: the value itself unless it parses as a 64-bit integer, in which case the
  canonical decimal form of that integer.
\<close>

lemma Get_after_Set:
  assumes "store_ok f s"
  shows "\<exists>s1 s2 r. Get E k (Set k v ttl s) = Ret (s1, Some (case ParseInt v of Some n \<Rightarrow> FormatInt n | None \<Rightarrow> v)) \<and>
    (k' \<noteq> k \<longrightarrow> Get E k' (Set k v ttl s) = Ret (s2, r) \<and> (\<exists>s3. Get E k' s = Ret (s3, r)))"
proof -
  note g = Get_view [OF Set_ok [OF assms, of k v ttl], of E]
  have "(case view (Set k v ttl s) k of None \<Rightarrow> None | Some (w, _) \<Rightarrow> text_of w) =
      Some (case ParseInt v of Some n \<Rightarrow> FormatInt n | None \<Rightarrow> v)"
    by (simp add: Set_view stored_def split: option.splits)
  moreover have "k' \<noteq> k \<Longrightarrow> view (Set k v ttl s) k' = view s k'" by (simp add: Set_view)
  ultimately show ?thesis using g [of k] g [of k'] Get_view [OF assms, of E k'] by fastforce
qed

definition env0 :: env where
  "env0 = \<lparr>grow = (\<lambda>c n. n), fpu = \<lparr>rnd = (\<lambda>x. x), Log = ln\<rparr>, draw = 0, order = (\<lambda>n ks. ks),
     sort_Slice = sort_key score, uniUpper = (\<lambda>s. s), uniLower = (\<lambda>s. s), wall = 0,
     instant = 0, accepts = 2 ^ 40\<rparr>"

lemma env0_ok [simp]: "env_ok env0"
  using fp_ok_exact by (simp add: env_ok_def env0_def grow_ok_def)

lemma store_New_ok [simp]: "store_ok f (store_New t)"
  by (simp add: store_ok_def store_New_def lfuDefaults_def)

text \<open>A value such as 007 does not come back as it was written.\<close>

lemma leading_zeros_lost:
  assumes "store_ok f s"
  shows "\<exists>s'. Get E k (Set k ''007'' ttl s) = Ret (s', Some ''7'')"
proof -
  have "ParseInt ''007'' = Some 7" by (simp add: ParseInt_def is_digit_def digit_val_def)
  moreover have "FormatInt 7 = ''7''" by (simp add: FormatInt_def show_nat.simps digit_char_def)
  ultimately show ?thesis
    using Get_view [OF Set_ok [OF assms, of k "''007''" ttl], of E k] by (auto simp: Set_view stored_def)
qed

text \<open>
  C32: a key set with a positive time to live is readable at every instant before it is
  over and at none from then on; reading it then gives its memory and its place in the
  key statistic back.
\<close>

theorem expiry_boundary:
  assumes "store_ok f s" "0 < ttl" "t = (Set k v ttl s)\<lparr>now := u\<rparr>"
  shows "(u < now s + ttl \<longrightarrow> (\<exists>t'. Get E k t = Ret (t', text_of (stored v)))) \<and>
    (now s + ttl \<le> u \<longrightarrow> (\<exists>t'. Get E k t = Ret (t', None) \<and> look t' k = None \<and>
       UsedMemory t' = UsedMemory t - entrySize k (new_entry v ttl s) \<and>
       KeyspaceStat t' 0 ''keys'' = KeyspaceStat t 0 ''keys'' - 1))"
proof -
  let ?e = "new_entry v ttl s"
  have t: "store_ok f t" "look t k = Some ?e" "now t = u"
    using Set_ok [OF assms(1), of k v ttl] assms(3) by (simp_all add: store_ok_def Set_put update_conv')
  have x: "expiresAt ?e = Some (now s + ttl)" using assms(2) by (simp add: new_entry_expiry)
  have "u < now s + ttl \<Longrightarrow> view t k = Some (stored v, Some (now s + ttl))"
    using t x by (simp add: view_def isExpired_def value_of_new_entry)
  then have live: "u < now s + ttl \<longrightarrow> (\<exists>t'. Get E k t = Ret (t', text_of (stored v)))"
    using Get_view [OF t(1), of E k] by auto
  have "now s + ttl \<le> u \<Longrightarrow> Get E k t = Ret (removeKey k t, None)"
    using t x by (simp add: Get_def isExpired_def)
  moreover have "look (removeKey k t) k = None" by (simp add: delete_conv')
  moreover have "size_at (data t) k = entrySize k ?e" using t(2) by (simp add: size_at_def)
  ultimately show ?thesis using live t(2) by (auto simp: UsedMemory_def)
qed

theorem expiry_boundary_witness:
  "\<exists>t'. Get env0 ''k'' ((Set ''k'' ''v'' 10 (store_New 5))\<lparr>now := 15\<rparr>) = Ret (t', None)"
  using expiry_boundary [where s = "store_New 5" and ttl = 10 and k = "''k''" and v = "''v''" and u = 15 and E = env0,
      OF store_New_ok _ refl]
  by (auto simp: store_New_def)

text \<open>
  Appending to a readable string or number concatenates, keeps the expiry, returns
  the new length, and leaves every other key alone; later reads see the result.
\<close>

lemma Append_then_Get:
  assumes "store_ok (fpu E) s" "env_ok E" "view s k = Some (r, x)" "text_of r = Some t"
  shows "\<exists>s' s''. Append E k v s = Ret (s', int (length (t @ v))) \<and> store_ok (fpu E) s' \<and>
    view s' = (view s)(k \<mapsto> (RStr (t @ v), x)) \<and> Get E k s' = Ret (s'', Some (t @ v))"
proof -
  from assms(3) obtain e where e: "look s k = Some e" "\<not> isExpired s e" "value_of e = r" "expiresAt e = x"
    by (auto simp: view_Some)
  from Append_view [OF assms(1,2) e(1), of t v] assms(4) e obtain s' where
    s': "Append E k v s = Ret (s', int (length t + length v))" "store_ok (fpu E) s'"
    "view s' = (view s)(k \<mapsto> (RStr (t @ v), x))" by auto
  then show ?thesis using Get_view [OF s'(2), of E k] by auto
qed

text \<open>
  \<^verbatim>\<open>Append\<close> does not look at the expiry: the bytes appended to a key that is over but not
  yet collected cannot be read back, although the reply counts them.
\<close>

lemma append_to_expired_is_lost:
  assumes "store_ok (fpu E) s" "env_ok E" "look s k = Some e" "isExpired s e" "text_of (value_of e) = Some t"
  shows "\<exists>s' s''. Append E k v s = Ret (s', int (length t + length v)) \<and> Get E k s' = Ret (s'', None)"
proof -
  from Append_view [OF assms(1,2,3,5), of v] assms(4) obtain s' where
    s': "Append E k v s = Ret (s', int (length t + length v))" "store_ok (fpu E) s'" "view s' = (view s)(k := None)"
    by auto
  then show ?thesis using Get_view [OF s'(2), of E k] by auto
qed

text \<open>
  \<^verbatim>\<open>APPEND\<close> on a key that holds a HyperLogLog dereferences a nil string and panics,
  which ends the server: the type of the value is not checked.
\<close>

lemma append_on_sketch_panics:
  assumes "store_ok (fpu E) s" "env_ok E" "view s k = None"
  shows "\<exists>s'. PFAdd E k values s = Ret (s', Some True) \<and> Append E k v s' = Panic"
proof -
  have "fp_ok (fpu E)" using assms(2) by (simp add: env_ok_def)
  from PFAdd_create [OF assms(1) this assms(3), of E "values"] obtain s' where
    s': "PFAdd E k values s = Ret (s', Some True)" "store_ok (fpu E) s'"
    "view s' k = Some (RSketch (sketch (map bytes values)), None)" by auto
  from s'(3) obtain e where e: "look s' k = Some e" "value_of e = RSketch (sketch (map bytes values))"
    by (auto simp: view_Some)
  from ks.get_good [OF s'(2) e(1)] have "Append E k v s' = Panic"
    using e by (cases rule: entry_ok_cases) (auto simp: Append_def)
  with s'(1) show ?thesis by blast
qed

text \<open>
  C33: \<^verbatim>\<open>Delete\<close> removes exactly the named keys, changes nothing else a client can see,
  and returns how many different ones of them were readable; expired ones go too, uncounted.
\<close>

theorem Delete_exact:
  assumes "store_ok f s"
  shows "view (fst (Delete keys s)) = (view s) |` (- set keys) \<and> look (fst (Delete keys s)) = (look s) |` (- set keys) \<and>
    snd (Delete keys s) = int (card {k \<in> set keys. view s k \<noteq> None}) \<and> store_ok f (fst (Delete keys s))"
  using Delete_view [OF assms, of keys] ks.get_del_all [of keys s] by (simp add: Delete_def delete_loop_eq)

theorem Delete_exact_witness:
  "snd (Delete [''k'', ''k'', ''x''] (Set ''k'' ''v'' 0 (store_New 0))) =
    int (card {k \<in> set [''k'', ''k'', ''x'']. view (Set ''k'' ''v'' 0 (store_New 0)) k \<noteq> None})"
  by (rule Delete_exact [OF Set_ok [OF store_New_ok], THEN conjunct2, THEN conjunct2, THEN conjunct1])

text \<open>
  A round of active expiry removes only keys that are over, at most 20 of them,
  reports their number, and is invisible to clients; when at most 20 keys have an expiry
  at all, it removes every key that is over, in whatever order the map is walked.
\<close>

lemma DeleteExpired_round:
  assumes "store_ok f s" "env_ok E" "DeleteExpired E s = (s', n)"
  shows "view s' = view s \<and> store_ok f s' \<and> n \<le> 20 \<and> length (data s') + n = length (data s) \<and>
    (\<forall>k. look s' k = look s k \<or> look s' k = None \<and> expired_key s k) \<and>
    (length (filter (volatile_key s) (map fst (data s))) \<le> 20 \<longrightarrow> (\<forall>k. \<not> expired_key s' k))"
proof -
  let ?keys = "order E 0 (map fst (data s))"
  have m: "mset ?keys = mset (map fst (data s))" using assms(2) by (simp add: env_ok_def)
  have keys: "set ?keys = fst ` set (data s)" using mset_eq_setD [OF m] by simp
  have "distinct ?keys" using mset_eq_imp_distinct_iff [OF m] assms(1) by (simp add: store_ok_def)
  from expire_loop_keys [OF this, of s 0 0] assms(3) obtain ks where ks: "distinct ks" "set ks \<subseteq> set ?keys"
    "list_all (expired_key s) ks" "n = length ks" "length ks \<le> 20" "s' = fold removeKey ks s"
    "length (filter (volatile_key s) ?keys) \<le> 20 \<longrightarrow> {k \<in> set ?keys. expired_key s k} \<subseteq> set ks"
    by (auto simp: DeleteExpired_def)
  have filter_mset: "mset (filter (volatile_key s) ?keys) = mset (filter (volatile_key s) (map fst (data s)))"
    by (simp only: mset_filter m)
  have look: "look s' = (look s) |` (- set ks)" using ks.get_del_all [of ks s] ks(6) by simp
  have ok: "store_ok f s'" using ks.ok_del_all [OF assms(1)] ks(6) by simp
  have dom: "set ks \<subseteq> dom (look s)" using ks(3) by (auto simp: list_all_iff expired_key_def split: option.splits)
  have card: "length (data t) = card (dom (look t))" if "store_ok f t" for t
    using that distinct_card [of "map fst (data t)"] by (simp add: store_ok_def dom_map_of_conv_image_fst)
  have "dom (look s') = dom (look s) - set ks" using look by auto
  moreover have "card (set ks) = n" "card (set ks) \<le> card (dom (look s))"
    using ks(1,4) card_mono [OF _ dom] by (simp_all add: distinct_card finite_dom_map_of)
  ultimately have "length (data s') + n = length (data s)"
    using card [OF ok] card [OF assms(1)] card_Diff_subset [OF _ dom] by simp
  moreover have "\<forall>k. look s' k = look s k \<or> look s' k = None \<and> expired_key s k"
    using look ks(3) by (auto simp: restrict_map_def list_all_iff)
  moreover have "\<not> expired_key s' k" if "length (filter (volatile_key s) (map fst (data s))) \<le> 20" for k
  proof
    assume e: "expired_key s' k"
    then have *: "look s' k \<noteq> None" by (auto simp: expired_key_def split: option.splits)
    then have "k \<notin> set ks" "look s k = look s' k" using look by (auto simp: restrict_map_def split: if_splits)
    moreover have "expired_key s k" using e \<open>look s k = look s' k\<close> ks(6) by (simp add: expired_key_def split: option.splits)
    moreover have "k \<in> fst ` set (data s)"
      using * \<open>look s k = look s' k\<close> by (metis map_of_eq_None_iff)
    then have "k \<in> set ?keys" by (simp add: keys)
    moreover have "length (filter (volatile_key s) ?keys) \<le> 20"
      using that mset_eq_length [OF filter_mset] by simp
    ultimately show False using ks(7) by blast
  qed
  ultimately show ?thesis using ks(4-6) ok view_expired_removed [OF ks(3)] by blast
qed

text \<open>
  C34: \<^verbatim>\<open>PFMERGE\<close> stores the union. Counting the destination afterwards gives the estimate
  for the pointwise maximum of the sketches at the destination and at all the sources; keys
  that are missing or of another type contribute nothing, and no other key changes.
\<close>

theorem PFMerge_then_PFCount:
  assumes "store_ok (fpu E) s" "env_ok E"
  shows "\<exists>s' s''. PFMerge dest sources s = Ret s' \<and> store_ok (fpu E) s' \<and>
    PFCount E dest s' = Ret (s'', sint (cardinality (fpu E) (histogram
      (foldl (map2 max) (replicate registers 0) (sketches s (dest # sources)))))) \<and>
    (\<forall>k. k \<noteq> dest \<longrightarrow> view s' k = view s k)"
proof -
  have "fp_ok (fpu E)" using assms(2) by (simp add: env_ok_def)
  from PFMerge_view [OF assms(1) this, of dest sources] obtain s' where s': "PFMerge dest sources s = Ret s'"
    "store_ok (fpu E) s'" "view s' = (view s)(dest \<mapsto>
      (RSketch (foldl (map2 max) (replicate registers 0) (sketches s (dest # sources))), None))"
    by blast
  let ?rs = "foldl (map2 max) (replicate registers 0) (sketches s (dest # sources))"
  have "view s' dest = Some (RSketch ?rs, None)" unfolding s'(3) by simp
  then obtain e where e: "look s' dest = Some e" "value_of e = RSketch ?rs" unfolding view_Some by blast
  from PFCount_view [OF s'(2), of dest] obtain s'' where
    "PFCount E dest s' = Ret (s'', sint (cardinality (fpu E) (histogram ?rs)))"
    unfolding e(1) option.case e(2) rvalue.case by blast
  moreover have "\<forall>k. k \<noteq> dest \<longrightarrow> view s' k = view s k" unfolding s'(3) by simp
  ultimately show ?thesis using s'(1,2) by blast
qed

theorem PFMerge_then_PFCount_witness:
  "\<exists>s' s''. PFMerge ''d'' [''a''] (store_New 0) = Ret s' \<and>
    PFCount env0 ''d'' s' = Ret (s'', sint (cardinality (fpu env0) (histogram
      (foldl (map2 max) (replicate registers 0) (sketches (store_New 0) [''d'', ''a''])))))"
proof -
  from PFMerge_then_PFCount [OF store_New_ok env0_ok, of "''d''" "[''a'']" 0] obtain s' s'' where
    "PFMerge ''d'' [''a''] (store_New 0) = Ret s'"
    "PFCount env0 ''d'' s' = Ret (s'', sint (cardinality (fpu env0) (histogram
      (foldl (map2 max) (replicate registers 0) (sketches (store_New 0) [''d'', ''a''])))))"
    by (elim exE conjE)
  then show ?thesis by (intro exI conjI)
qed

end
