(* ===== verification/Evict.thy ===== *)
theory Evict
  imports Store
begin

text \<open>
  Eviction, \<^verbatim>\<open>store/lru.go\<close> from line 72 on: the sample of keys, the pool of candidates
  that survives between rounds, and the loop that frees memory. The loop has no bound of
  its own; it is a partial function here and is proved to end.
\<close>

definition EvictionPoolSize :: nat where "EvictionPoolSize = 16"

definition OverMemory :: "int \<Rightarrow> Store \<Rightarrow> bool" where
  "OverMemory maxBytes s \<longleftrightarrow> maxBytes > 0 \<and> usedMemory s > maxBytes"

text \<open>The \<open>n\<close>-th iteration over the map stops once enough keys are collected.\<close>

definition sampleKeys :: "env \<Rightarrow> nat \<Rightarrow> int \<Rightarrow> Store \<Rightarrow> string list outcome" where
  "sampleKeys E n samples s =
     (if \<not> make_ok samples 16 then Panic
      else Ret (take (max 1 (nat samples)) (order E n (map fst (data s)))))"

definition evictionScore :: "Store \<Rightarrow> entry \<Rightarrow> 32 word" where
  "evictionScore s e =
     (if isLFU s then ucast (255 - lfuDecodeCounter (lru e)) else lruIdle (lruClock s) (lru e))"

definition sortPool :: "env \<Rightarrow> Store \<Rightarrow> Store" where
  "sortPool E s = s\<lparr>evPool := sort_Slice E (evPool s)\<rparr>"

fun refresh :: "string \<Rightarrow> 32 word \<Rightarrow> evictionCandidate list \<Rightarrow> evictionCandidate list" where
  "refresh key sc [] = []"
| "refresh key sc (c # cs) = (if ckey c = key then c\<lparr>score := sc\<rparr> # cs else c # refresh key sc cs)"

definition poolInsert :: "env \<Rightarrow> string \<Rightarrow> 32 word \<Rightarrow> Store \<Rightarrow> Store" where
  "poolInsert E key sc s =
     (if key \<in> set (map ckey (evPool s)) then sortPool E (s\<lparr>evPool := refresh key sc (evPool s)\<rparr>)
      else let cand = \<lparr>ckey = key, score = sc\<rparr>
           in if length (evPool s) < EvictionPoolSize then sortPool E (s\<lparr>evPool := evPool s @ [cand]\<rparr>)
              else if sc \<le> score (evPool s ! 0) then s
              else sortPool E (s\<lparr>evPool := (evPool s)[0 := cand]\<rparr>))"

text \<open>Reading a missing key of a Go map gives the zero entry.\<close>

definition zero_entry :: entry where
  "zero_entry = \<lparr>encoding = EncodingINT, intVal = 0, strVal = None, hllVal = None, expiresAt = None, lru = 0\<rparr>"

fun insert_sample :: "env \<Rightarrow> string list \<Rightarrow> Store \<Rightarrow> Store" where
  "insert_sample E [] s = s"
| "insert_sample E (k # ks) s =
     insert_sample E ks
       (poolInsert E k (evictionScore s (case look s k of Some e \<Rightarrow> e | None \<Rightarrow> zero_entry)) s)"

text \<open>The inner loop, on the pool from its stale end: slots are dropped up to the first live key.\<close>

fun evict_one :: "evictionCandidate list \<Rightarrow> Store \<Rightarrow> Store" where
  "evict_one [] s = s\<lparr>evPool := []\<rparr>"
| "evict_one (c # cs) s =
     (if look s (ckey c) \<noteq> None then removeKey (ckey c) (s\<lparr>evPool := rev cs\<rparr>) else evict_one cs s)"

partial_function (option) evict_loop :: "env \<Rightarrow> int \<Rightarrow> int \<Rightarrow> nat \<Rightarrow> Store \<Rightarrow> Store outcome option" where
  "evict_loop E samples maxBytes n s =
     (if \<not> usedMemory s > maxBytes then Some (Ret s)
      else if data s = [] then Some (Ret s)
      else (case sampleKeys E n samples s of
              Panic \<Rightarrow> Some Panic
            | Ret ks \<Rightarrow>
                let s1 = insert_sample E ks s
                in evict_loop E samples maxBytes (Suc n) (evict_one (rev (evPool s1)) s1)))"

text \<open>A loop that never ended would, like a panic, be no result.\<close>

definition PerformEvictions :: "env \<Rightarrow> int \<Rightarrow> int \<Rightarrow> Store \<Rightarrow> Store outcome" where
  "PerformEvictions E samples maxBytes s =
     (if maxBytes \<le> 0 then Ret s
      else (case evict_loop E (if samples \<le> 0 then 5 else samples) maxBytes 0 s of
              Some r \<Rightarrow> r | None \<Rightarrow> Panic))"

subsection \<open>The pool\<close>

definition pool_ok :: "Store \<Rightarrow> bool" where
  "pool_ok s \<longleftrightarrow> distinct (map ckey (evPool s)) \<and> sorted (map score (evPool s)) \<and>
     length (evPool s) \<le> EvictionPoolSize"

lemma store_ok_pool [simp]: "store_ok f (s\<lparr>evPool := p\<rparr>) = store_ok f s"
  by (simp add: store_ok_def)

lemma poolInsert_fields [simp]:
  "data (poolInsert E k sc s) = data s" "now (poolInsert E k sc s) = now s"
  "usedMemory (poolInsert E k sc s) = usedMemory s" "policy (poolInsert E k sc s) = policy s"
  "lfu (poolInsert E k sc s) = lfu s" "store_ok f (poolInsert E k sc s) = store_ok f s"
  by (simp_all add: poolInsert_def sortPool_def Let_def)

lemma refresh_keys [simp]: "map ckey (refresh k sc cs) = map ckey cs"
  by (induction cs) auto

lemma sort_Slice_laws:
  assumes "env_ok E"
  shows "set (sort_Slice E p) = set p" "length (sort_Slice E p) = length p"
    "sorted (map score (sort_Slice E p))" "distinct (map ckey (sort_Slice E p)) = distinct (map ckey p)"
proof -
  have m: "mset (sort_Slice E p) = mset p" using assms by (simp add: env_ok_def)
  show "set (sort_Slice E p) = set p" "length (sort_Slice E p) = length p"
    using m by (metis set_mset_mset, metis size_mset)
  have "mset (map ckey (sort_Slice E p)) = mset (map ckey p)" using m by simp
  then show "distinct (map ckey (sort_Slice E p)) = distinct (map ckey p)"
    by (metis mset_eq_imp_distinct_iff)
  show "sorted (map score (sort_Slice E p))" using assms by (simp add: env_ok_def)
qed

lemma poolInsert_ok:
  assumes "env_ok E" "pool_ok s"
  shows "pool_ok (poolInsert E k sc s)"
proof -
  have len: "length (refresh k sc (evPool s)) = length (evPool s)"
    using refresh_keys [of k sc "evPool s"] by (metis length_map)
  have zero: "distinct (map ckey ((evPool s)[0 := c]))"
    if "k \<notin> set (map ckey (evPool s))" "ckey c = k" for c
  proof (cases "evPool s")
    case (Cons x xs)
    then show ?thesis using that assms(2) by (auto simp: pool_ok_def)
  qed simp
  show ?thesis
    using assms(2) len zero
    by (auto simp: poolInsert_def pool_ok_def sortPool_def Let_def sort_Slice_laws [OF assms(1)] EvictionPoolSize_def)
qed

text \<open>A pool from which a round can evict: some candidate's key still exists.\<close>

definition live :: "Store \<Rightarrow> bool" where
  "live s \<longleftrightarrow> (\<exists>c \<in> set (evPool s). look s (ckey c) \<noteq> None)"

lemma poolInsert_live:
  assumes "env_ok E" "look s k \<noteq> None" "evPool s = [] \<or> live s"
  shows "live (poolInsert E k sc s)"
proof -
  have ref: "\<exists>c \<in> set (refresh k sc cs). look s (ckey c) \<noteq> None"
    if "\<exists>c \<in> set cs. look s (ckey c) \<noteq> None" for cs
    using that by (induction cs) auto
  show ?thesis
  proof (cases "evPool s")
    case Nil
    then show ?thesis using assms(2)
      by (simp add: poolInsert_def live_def sortPool_def sort_Slice_laws [OF assms(1)] EvictionPoolSize_def)
  next
    case (Cons c cs)
    with assms(3) have "live s" by simp
    then show ?thesis using assms(2) ref [of "evPool s"] Cons
      by (auto simp: poolInsert_def live_def sortPool_def Let_def sort_Slice_laws [OF assms(1)]
          simp del: refresh.simps)
  qed
qed

lemma insert_sample_fields [simp]:
  "data (insert_sample E ks s) = data s" "now (insert_sample E ks s) = now s"
  "usedMemory (insert_sample E ks s) = usedMemory s" "policy (insert_sample E ks s) = policy s"
  "lfu (insert_sample E ks s) = lfu s" "store_ok f (insert_sample E ks s) = store_ok f s"
  by (induction ks arbitrary: s) auto

lemma insert_sample_ok: "env_ok E \<Longrightarrow> pool_ok s \<Longrightarrow> pool_ok (insert_sample E ks s)"
  by (induction ks arbitrary: s) (auto simp: poolInsert_ok)

lemma insert_sample_live:
  assumes "env_ok E" "\<forall>k \<in> set ks. look s k \<noteq> None" "ks \<noteq> [] \<and> evPool s = [] \<or> live s"
  shows "live (insert_sample E ks s)"
  using assms(2,3)
proof (induction ks arbitrary: s)
  case (Cons k ks)
  then have "live (poolInsert E k sc s)" for sc
    by (intro poolInsert_live [OF assms(1)]) auto
  with Cons show ?case by auto
qed auto
subsection \<open>One round\<close>

lemma removeKey_evPool:
  "removeKey k (s\<lparr>evPool := p\<rparr>) = (removeKey k s)\<lparr>evPool := p\<rparr>"
  by (simp add: removeKey_def UpdateDbStat_def split: option.splits)

text \<open>The victim is the live candidate nearest the stale end.\<close>

lemma evict_one_cases:
  "(\<forall>c \<in> set cs. look s (ckey c) = None) \<and> evict_one cs s = s\<lparr>evPool := []\<rparr> \<or>
   (\<exists>xs c ys. cs = xs @ c # ys \<and> (\<forall>x \<in> set xs. look s (ckey x) = None) \<and> look s (ckey c) \<noteq> None \<and>
      evict_one cs s = (removeKey (ckey c) s)\<lparr>evPool := rev ys\<rparr>)"
proof (induction cs)
  case (Cons c cs)
  show ?case
  proof (cases "look s (ckey c)")
    case None
    from Cons.IH show ?thesis
    proof (elim disjE exE conjE)
      fix xs d ys
      assume "cs = xs @ d # ys" "\<forall>x \<in> set xs. look s (ckey x) = None" "look s (ckey d) \<noteq> None"
        "evict_one cs s = (removeKey (ckey d) s)\<lparr>evPool := rev ys\<rparr>"
      with None show ?thesis by (intro disjI2 exI [of _ "c # xs"] exI [of _ d] exI [of _ ys]) auto
    qed (use None in auto)
  next
    case (Some e)
    then show ?thesis by (intro disjI2 exI [of _ "[]"] exI [of _ c] exI [of _ cs]) (auto simp: removeKey_evPool)
  qed
qed simp

definition evict_round :: "env \<Rightarrow> string list \<Rightarrow> Store \<Rightarrow> Store" where
  "evict_round E ks s = (let s1 = insert_sample E ks s in evict_one (rev (evPool s1)) s1)"

lemma evict_round_fields:
  "now (evict_round E ks s) = now s" "policy (evict_round E ks s) = policy s" "lfu (evict_round E ks s) = lfu s"
  using evict_one_cases [of "rev (evPool (insert_sample E ks s))" "insert_sample E ks s"]
  by (auto simp: evict_round_def Let_def)

lemma evict_round_keys:
  "data (evict_round E ks s) = data s \<and> evPool (evict_round E ks s) = [] \<and> \<not> live (insert_sample E ks s) \<or>
   (\<exists>k. look s k \<noteq> None \<and> data (evict_round E ks s) = AList.delete k (data s))"
  using evict_one_cases [of "rev (evPool (insert_sample E ks s))" "insert_sample E ks s"]
  by (auto simp: evict_round_def Let_def live_def)

lemma evict_round_look: "look (evict_round E ks s) \<subseteq>\<^sub>m look s"
  using evict_round_keys [of E ks s] by (auto simp: map_le_def delete_conv' split: if_splits)

lemma evict_round_ok:
  assumes "store_ok f s"
  shows "store_ok f (evict_round E ks s)"
  using evict_one_cases [of "rev (evPool (insert_sample E ks s))" "insert_sample E ks s"]
    ks.ok_del [of f "insert_sample E ks s"] assms
  by (auto simp: evict_round_def Let_def)

lemma evict_round_pool:
  assumes "env_ok E" "pool_ok s"
  shows "pool_ok (evict_round E ks s)"
proof -
  let ?s = "insert_sample E ks s"
  have ok: "pool_ok ?s" using insert_sample_ok [OF assms] .
  from evict_one_cases [of "rev (evPool ?s)" ?s]
  have "\<exists>zs. evPool ?s = evPool (evict_round E ks s) @ zs"
  proof (elim disjE exE conjE)
    fix xs c ys
    assume "rev (evPool ?s) = xs @ c # ys" "evict_one (rev (evPool ?s)) ?s = (removeKey (ckey c) ?s)\<lparr>evPool := rev ys\<rparr>"
    moreover from this(1) have "evPool ?s = rev (xs @ c # ys)" by (metis rev_rev_ident)
    ultimately show ?thesis by (simp add: evict_round_def)
  qed (simp add: evict_round_def)
  then obtain zs where "evPool ?s = evPool (evict_round E ks s) @ zs" by blast
  with ok show ?thesis by (auto simp: pool_ok_def sorted_append)
qed

subsection \<open>The loop ends\<close>

definition evict_measure :: "Store \<Rightarrow> nat" where
  "evict_measure s = 2 * length (data s) + (if evPool s = [] then 0 else 1)"

lemma evict_round_measure:
  assumes "env_ok E" "store_ok f s" "\<forall>k \<in> set ks. look s k \<noteq> None" "ks \<noteq> []"
  shows "evict_measure (evict_round E ks s) < evict_measure s"
proof -
  have "length (AList.delete k (data s)) < length (data s)" if "look s k \<noteq> None" for k
    using that length_delete [of "data s" k] assms(2) by (auto simp: store_ok_def)
  moreover have "evPool s = [] \<Longrightarrow> live (insert_sample E ks s)"
    using insert_sample_live [OF assms(1,3)] assms(4) by simp
  ultimately show ?thesis
    using evict_round_keys [of E ks s] by (fastforce simp: evict_measure_def)
qed

lemma sample_live:
  assumes "env_ok E" "data s \<noteq> []"
  shows "\<forall>k \<in> set (take (max 1 n) (order E i (map fst (data s)))). look s k \<noteq> None"
    "take (max 1 n) (order E i (map fst (data s))) \<noteq> []"
proof -
  have m: "mset (order E i (map fst (data s))) = mset (map fst (data s))" using assms(1) by (simp add: env_ok_def)
  then have "set (order E i (map fst (data s))) = fst ` set (data s)" by (metis set_mset_mset set_map)
  then show "\<forall>k \<in> set (take (max 1 n) (order E i (map fst (data s)))). look s k \<noteq> None"
    by (auto simp: map_of_eq_None_iff dest!: in_set_takeD)
  have "order E i (map fst (data s)) \<noteq> []" using m assms(2) by auto
  then show "take (max 1 n) (order E i (map fst (data s))) \<noteq> []" by simp
qed

lemma evict_loop_ends:
  assumes "env_ok E" "store_ok f s" "make_ok samples 16" "0 < maxBytes"
  shows "\<exists>s'. evict_loop E samples maxBytes n s = Some (Ret s') \<and> store_ok f s' \<and> usedMemory s' \<le> maxBytes \<and>
    look s' \<subseteq>\<^sub>m look s \<and> now s' = now s \<and> policy s' = policy s \<and> lfu s' = lfu s \<and> (pool_ok s \<longrightarrow> pool_ok s')"
  using assms(2)
proof (induction "evict_measure s" arbitrary: s n rule: less_induct)
  case less
  show ?case
  proof (cases "maxBytes < usedMemory s \<and> data s \<noteq> []")
    case False
    have "data s = [] \<Longrightarrow> usedMemory s = 0" using less.prems by (simp add: store_ok_def)
    then have "usedMemory s \<le> maxBytes" using False assms(4) by (cases "data s = []") auto
    then show ?thesis using less.prems by (subst evict_loop.simps) simp
  next
    case True
    define ks where "ks = take (max 1 (nat samples)) (order E n (map fst (data s)))"
    have ks: "\<forall>k \<in> set ks. look s k \<noteq> None" "ks \<noteq> []"
      unfolding ks_def using sample_live [OF assms(1)] True by blast+
    have step: "evict_loop E samples maxBytes n s = evict_loop E samples maxBytes (Suc n) (evict_round E ks s)"
      using True assms(3) by (subst evict_loop.simps) (simp add: sampleKeys_def ks_def evict_round_def Let_def)
    have "evict_measure (evict_round E ks s) < evict_measure s"
      by (rule evict_round_measure [OF assms(1) less.prems ks])
    from less.hyps [OF this evict_round_ok [OF less.prems], of "Suc n"] obtain s' where
      s': "evict_loop E samples maxBytes (Suc n) (evict_round E ks s) = Some (Ret s')" "store_ok f s'"
      "usedMemory s' \<le> maxBytes" "look s' \<subseteq>\<^sub>m look (evict_round E ks s)" "now s' = now (evict_round E ks s)"
      "policy s' = policy (evict_round E ks s)" "lfu s' = lfu (evict_round E ks s)"
      "pool_ok (evict_round E ks s) \<longrightarrow> pool_ok s'"
      by blast
    have "look s' \<subseteq>\<^sub>m look s" using s'(4) evict_round_look [of E ks s] by (rule map_le_trans)
    then show ?thesis
      using s' step evict_round_fields [of E ks s] evict_round_pool [OF assms(1), of s ks] by auto
  qed
qed

lemma PerformEvictions_ends:
  assumes "env_ok E" "store_ok f s" "samples \<le> 2 ^ 44"
  shows "\<exists>s'. PerformEvictions E samples maxBytes s = Ret s' \<and> store_ok f s' \<and>
    (0 < maxBytes \<longrightarrow> usedMemory s' \<le> maxBytes) \<and> (maxBytes \<le> 0 \<or> usedMemory s \<le> maxBytes \<longrightarrow> s' = s) \<and>
    look s' \<subseteq>\<^sub>m look s \<and> now s' = now s \<and> policy s' = policy s \<and> lfu s' = lfu s \<and> (pool_ok s \<longrightarrow> pool_ok s')"
proof (cases "0 < maxBytes")
  case True
  have "make_ok (if samples \<le> 0 then 5 else samples) 16" using assms(3) by (simp add: make_ok_def)
  from evict_loop_ends [OF assms(1,2) this True, of 0] obtain s' where
    s': "evict_loop E (if samples \<le> 0 then 5 else samples) maxBytes 0 s = Some (Ret s')" "store_ok f s'"
    "usedMemory s' \<le> maxBytes" "look s' \<subseteq>\<^sub>m look s" "now s' = now s" "policy s' = policy s" "lfu s' = lfu s"
    "pool_ok s \<longrightarrow> pool_ok s'"
    by blast
  have "usedMemory s \<le> maxBytes \<Longrightarrow> s' = s"
    using s'(1) evict_loop.simps [of E _ maxBytes 0 s] by simp
  with s' True show ?thesis by (simp add: PerformEvictions_def)
qed (simp add: PerformEvictions_def assms(2))

subsection \<open>Every reachable store\<close>

text \<open>
  One rule per operation that changes the store, each in an environment of its own; the
  clock may be set to any instant between two operations. A decay time is taken below
  \<open>2\<^sup>3\<^sup>2\<close>: a larger flag value is cut to 32 bits and can become 0.
\<close>

inductive store_step :: "env \<Rightarrow> Store \<Rightarrow> Store \<Rightarrow> bool" for E where
  clock: "store_step E s (s\<lparr>now := t\<rparr>)"
| setPolicy: "store_step E s (SetPolicy pol s)"
| setParams: "d < 2 ^ 32 \<Longrightarrow> store_step E s (s\<lparr>lfu := SetLFUParams l d (lfu s)\<rparr>)"
| set: "store_step E s (Set k v ttl s)"
| append: "Append E k v s = Ret (s', n) \<Longrightarrow> store_step E s s'"
| getInt: "GetInt E k s = Ret (s', r) \<Longrightarrow> store_step E s s'"
| getEncoding: "GetEncoding k s = (s', r) \<Longrightarrow> store_step E s s'"
| get: "Get E k s = Ret (s', r) \<Longrightarrow> store_step E s s'"
| getFreq: "GetFreq k s = (s', r) \<Longrightarrow> store_step E s s'"
| ttl: "TTL k s = (s', n) \<Longrightarrow> store_step E s s'"
| pfadd: "PFAdd E k vs s = Ret (s', r) \<Longrightarrow> store_step E s s'"
| pfcount: "PFCount E k s = Ret (s', n) \<Longrightarrow> store_step E s s'"
| pfmerge: "PFMerge k ks s = Ret s' \<Longrightarrow> store_step E s s'"
| delete: "Delete ks s = (s', n) \<Longrightarrow> store_step E s s'"
| expire: "DeleteExpired E s = (s', m) \<Longrightarrow> store_step E s s'"
| evict: "samples \<le> 2 ^ 44 \<Longrightarrow> PerformEvictions E samples maxBytes s = Ret s' \<Longrightarrow> store_step E s s'"

inductive reachable :: "fp \<Rightarrow> Store \<Rightarrow> bool" for f where
  start: "reachable f (store_New t)"
| step: "reachable f s \<Longrightarrow> env_ok E \<Longrightarrow> fpu E = f \<Longrightarrow> store_step E s s' \<Longrightarrow> reachable f s'"

text \<open>Only eviction touches the pool.\<close>

lemma evPool_removeKeys [simp]: "evPool (fold removeKey ks s) = evPool s"
  by (induction ks arbitrary: s) auto

lemma evPool_expire_loop: "expire_loop keys c d s = (s', n) \<Longrightarrow> evPool s' = evPool s"
proof (induction keys c d s rule: expire_loop.induct)
  case (2 key keys checked deleted s)
  then show ?case by (auto split: if_splits option.splits)
qed simp

lemma expire_loop_ok: "store_ok f s \<Longrightarrow> expire_loop keys c d s = (s', n) \<Longrightarrow> store_ok f s'"
proof (induction keys c d s rule: expire_loop.induct)
  case (2 key keys checked deleted s)
  then show ?case by (auto split: if_splits option.splits intro: ks.ok_del)
qed simp

lemma evPool_frame:
  "evPool (Set k v t s) = evPool s"
  "Append E k v s = Ret (s1, n) \<Longrightarrow> evPool s1 = evPool s"
  "GetInt E k s = Ret (s2, r2) \<Longrightarrow> evPool s2 = evPool s"
  "Get E k s = Ret (s3, r3) \<Longrightarrow> evPool s3 = evPool s"
  "PFCount E k s = Ret (s5, n5) \<Longrightarrow> evPool s5 = evPool s"
  "PFMerge k keys s = Ret s6 \<Longrightarrow> evPool s6 = evPool s"
  "GetEncoding k s = (s7, r7) \<Longrightarrow> evPool s7 = evPool s"
  "GetFreq k s = (s8, r8) \<Longrightarrow> evPool s8 = evPool s"
  "TTL k s = (s9, r9) \<Longrightarrow> evPool s9 = evPool s"
  "Delete keys s = (s10, n10) \<Longrightarrow> evPool s10 = evPool s"
  "DeleteExpired E s = (s11, n11) \<Longrightarrow> evPool s11 = evPool s"
proof -
  show "evPool (Set k v t s) = evPool s" by (simp add: Set_put)
  then show "Append E k v s = Ret (s1, n) \<Longrightarrow> evPool s1 = evPool s"
    by (auto simp: Append_def Set_put Let_def split: option.splits if_splits)
  show "GetInt E k s = Ret (s2, r2) \<Longrightarrow> evPool s2 = evPool s" "Get E k s = Ret (s3, r3) \<Longrightarrow> evPool s3 = evPool s"
    by (auto simp: GetInt_def Get_def Let_def split: option.splits if_splits Encoding.splits)
  show "PFCount E k s = Ret (s5, n5) \<Longrightarrow> evPool s5 = evPool s" "PFMerge k keys s = Ret s6 \<Longrightarrow> evPool s6 = evPool s"
    by (auto simp: PFCount_def PFMerge_def Let_def split: option.splits if_splits)
  show "GetEncoding k s = (s7, r7) \<Longrightarrow> evPool s7 = evPool s" "GetFreq k s = (s8, r8) \<Longrightarrow> evPool s8 = evPool s"
    "TTL k s = (s9, r9) \<Longrightarrow> evPool s9 = evPool s"
    by (auto simp: GetEncoding_def GetFreq_def TTL_def Let_def split: option.splits if_splits)
  show "Delete keys s = (s10, n10) \<Longrightarrow> evPool s10 = evPool s" by (auto simp: Delete_def delete_loop_eq)
  show "DeleteExpired E s = (s11, n11) \<Longrightarrow> evPool s11 = evPool s"
    by (auto simp: DeleteExpired_def dest: evPool_expire_loop)
qed

lemma evPool_pfadd_store: "pfadd_store k vs e ch s = Ret (s', r) \<Longrightarrow> evPool s' = evPool s"
  by (auto simp: pfadd_store_def Let_def split: option.splits if_splits)

lemma evPool_PFAdd: "PFAdd E k vs s = Ret (s', r) \<Longrightarrow> evPool s' = evPool s"
  by (auto simp: PFAdd_def Let_def dest!: evPool_pfadd_store split: option.splits if_splits)

lemma PFAdd_ok:
  assumes "store_ok f s" "fp_ok f" "PFAdd E k vs s = Ret (s', r)"
  shows "store_ok f s'"
proof (cases "view s k")
  case None
  with PFAdd_create [OF assms(1,2), of k E vs] assms(3) show ?thesis by auto
next
  case (Some vx)
  then obtain v x where vx: "view s k = Some (v, x)" by (cases vx) auto
  show ?thesis
  proof (cases v)
    case (RSketch rs)
    then show ?thesis using PFAdd_update [OF assms(1), of k rs x E vs] vx assms(3) by auto
  qed (use PFAdd_wrongtype [OF vx _ assms(1), of E vs] assms in auto)
qed

lemma Append_ok:
  assumes "store_ok f s" "env_ok E" "Append E k v s = Ret (s', n)"
  shows "store_ok f s'"
proof (cases "look s k")
  case None
  then show ?thesis using assms(3) Set_ok [OF assms(1)] by (auto simp: Append_def)
next
  case (Some e)
  have "text_of (value_of e) \<noteq> None"
    using ks.get_good [OF assms(1) Some] assms(3) by (cases rule: entry_ok_cases) (auto simp: Append_def Some)
  then obtain t where "text_of (value_of e) = Some t" by blast
  from Append_view [OF assms(1,2) Some this, of v] assms(3) show ?thesis by auto
qed

lemma decay_param: "d < 2 ^ 32 \<Longrightarrow> LFUDecayTime p \<noteq> 0 \<Longrightarrow> LFUDecayTime (SetLFUParams l d p) \<noteq> 0"
proof -
  assume *: "d < 2 ^ 32" "LFUDecayTime p \<noteq> 0"
  have "1 \<le> d \<Longrightarrow> uint (word_of_int d :: 32 word) = d"
    using *(1) by (simp add: uint_word_of_int)
  then have "1 \<le> d \<Longrightarrow> (word_of_int d :: 32 word) \<noteq> 0" by force
  with *(2) show ?thesis by (simp add: SetLFUParams_def Let_def)
qed

text \<open>A decay time of \<open>2\<^sup>3\<^sup>2\<close> minutes becomes 0 and the next access divides by it.\<close>

lemma huge_decay_time_panics:
  "lfuTouch f (SetLFUParams 10 (2 ^ 32) lfuDefaults) dr packed t = Panic"
  by (simp add: lfuTouch_def lfuDecay_def SetLFUParams_def lfuDefaults_def)

lemma store_step_ok:
  assumes "store_step E s s'" "env_ok E" "store_ok (fpu E) s" "pool_ok s"
  shows "store_ok (fpu E) s' \<and> pool_ok s'"
proof -
  have fp: "fp_ok (fpu E)" using assms(2) by (simp add: env_ok_def)
  have pool: "evPool t = evPool s \<Longrightarrow> pool_ok t" for t using assms(4) by (simp add: pool_ok_def)
  show ?thesis using assms(1)
  proof (cases rule: store_step.cases)
    case (getInt k r)
    then show ?thesis using GetInt_view [OF assms(3), of E k] pool [OF evPool_frame(3)] by auto
  next
    case (get k r)
    then show ?thesis using Get_view [OF assms(3), of E k] pool [OF evPool_frame(4)] by auto
  next
    case (getEncoding k r)
    then show ?thesis using meta_read(1) [OF assms(3), of k] pool [OF evPool_frame(7)] by auto
  next
    case (getFreq k r)
    then show ?thesis using meta_read(2) [OF assms(3), of k] pool [OF evPool_frame(8)] by auto
  next
    case (ttl k n)
    then show ?thesis using meta_read(3) [OF assms(3), of k] pool [OF evPool_frame(9)] by auto
  next
    case (pfcount k n)
    then show ?thesis using PFCount_view [OF assms(3), of k] pool [OF evPool_frame(5)] by auto
  next
    case (pfmerge k keys)
    then show ?thesis using PFMerge_view [OF assms(3) fp, of k keys] pool [OF evPool_frame(6)] by auto
  next
    case (delete keys n)
    then show ?thesis using Delete_view [OF assms(3), of keys] pool [OF evPool_frame(10)] by auto
  next
    case (expire m)
    have "store_ok (fpu E) s'"
      using expire_loop_ok [OF assms(3)] expire unfolding DeleteExpired_def by blast
    then show ?thesis using pool [OF evPool_frame(11) [OF expire]] by simp
  next
    case (evict samples maxBytes)
    then show ?thesis using PerformEvictions_ends [OF assms(2,3), of samples maxBytes] assms(4) by auto
  qed (use assms(3) pool evPool_frame(1,2) Append_ok [OF assms(3,2)] PFAdd_ok [OF assms(3) fp] evPool_PFAdd Set_ok [OF assms(3)] decay_param
       in \<open>auto simp: store_ok_def SetPolicy_def pool_ok_def\<close>)
qed

lemma reachable_ok: "reachable f s \<Longrightarrow> fp_ok f \<Longrightarrow> store_ok f s \<and> pool_ok s"
proof (induction rule: reachable.induct)
  case (start t)
  show ?case by (simp add: pool_ok_def store_New_def [of t]) (simp add: store_ok_def lfuDefaults_def)
next
  case (step s E s')
  then show ?case using store_step_ok by blast
qed

subsection \<open>Properties\<close>

text \<open>
  C7: the accounting invariant. In every store reachable by any sequence of operations,
  clock changes and evictions, the memory counter is the sum of the sizes of the entries,
  the key statistic is the number of keys, every entry is well formed for its encoding,
  and the eviction pool is sorted, without duplicates and within its size.
\<close>

theorem reachable_invariant:
  assumes "reachable f s" "fp_ok f"
  shows "distinct (map fst (data s)) \<and>
    UsedMemory s = sum_list (map (\<lambda>(k, e). entrySize k e) (data s)) \<and> 0 \<le> UsedMemory s \<and>
    KeyspaceStat s 0 ''keys'' = KeyCount s \<and> list_all (\<lambda>(k, e). entry_ok f e) (data s) \<and>
    sorted (map score (evPool s)) \<and> distinct (map ckey (evPool s)) \<and> length (evPool s) \<le> EvictionPoolSize"
  using reachable_ok [OF assms] total_nonneg [of "data s"]
  by (simp add: store_ok_def pool_ok_def UsedMemory_def KeyCount_def total_def)

lemma reachable_example: "reachable (fpu env0) (Set ''k'' ''v'' 0 (store_New 0))"
  by (rule reachable.step [OF reachable.start env0_ok refl]) (rule store_step.set)

theorem reachable_invariant_witness:
  "UsedMemory (Set ''k'' ''v'' 0 (store_New 0)) =
     sum_list (map (\<lambda>(k, e). entrySize k e) (data (Set ''k'' ''v'' 0 (store_New 0))))"
proof -
  have "fp_ok (fpu env0)" using env0_ok by (simp only: env_ok_def)
  from reachable_invariant [OF reachable_example this] show ?thesis by blast
qed

text \<open>
  C18: eviction ends and succeeds. Whatever the iteration order of the map, the ties of
  the sort and the keys that vanished from the pool, the loop returns, the memory is then
  within the limit, and all it did was remove keys; below the limit it does nothing.
\<close>

theorem PerformEvictions_reaches_limit:
  assumes "env_ok E" "store_ok f s" "0 < maxBytes" "samples \<le> 2 ^ 44"
  shows "\<exists>s'. PerformEvictions E samples maxBytes s = Ret s' \<and> store_ok f s' \<and> \<not> OverMemory maxBytes s' \<and>
    look s' \<subseteq>\<^sub>m look s \<and> (\<not> OverMemory maxBytes s \<longrightarrow> s' = s)"
  using PerformEvictions_ends [OF assms(1,2,4), of maxBytes] assms(3) by (auto simp: OverMemory_def)

theorem PerformEvictions_reaches_limit_witness:
  "\<exists>s'. PerformEvictions env0 5 1 (Set ''k'' ''v'' 0 (store_New 0)) = Ret s' \<and> \<not> OverMemory 1 s'"
  using PerformEvictions_reaches_limit [OF env0_ok Set_ok [OF store_New_ok], of 1 5] by fastforce

text \<open>
  C35: which key a round evicts. If any pooled candidate still exists, the round removes
  exactly one key, and no pooled key that still exists had a higher score (staler or less
  frequently used) than the victim; if none exists, it only empties the pool.
\<close>

theorem evict_one_takes_worst:
  assumes "pool_ok s" "c \<in> set (evPool s)" "look s (ckey c) \<noteq> None"
  shows "\<exists>v. v \<in> set (evPool s) \<and> look s (ckey v) \<noteq> None \<and>
    (\<forall>d \<in> set (evPool s). look s (ckey d) \<noteq> None \<longrightarrow> score d \<le> score v) \<and>
    look (evict_one (rev (evPool s)) s) = (look s)(ckey v := None)"
proof -
  from evict_one_cases [of "rev (evPool s)" s] assms(2,3) obtain xs v ys where
    v: "rev (evPool s) = xs @ v # ys" "\<forall>x \<in> set xs. look s (ckey x) = None" "look s (ckey v) \<noteq> None"
    "evict_one (rev (evPool s)) s = (removeKey (ckey v) s)\<lparr>evPool := rev ys\<rparr>" by auto
  from v(1) have p: "evPool s = rev ys @ v # rev xs" by (metis append.assoc append_Cons append_Nil rev_append rev_rev_ident rev.simps(2))
  have "score d \<le> score v" if "d \<in> set (evPool s)" "look s (ckey d) \<noteq> None" for d
    using that v(2) assms(1) unfolding p pool_ok_def by (auto simp: sorted_append p)
  then show ?thesis using v p by (intro exI [of _ v]) (auto simp: delete_conv')
qed

theorem evict_one_takes_worst_witness:
  "\<exists>s v. s = poolInsert env0 ''k'' 7 (Set ''k'' ''v'' 0 (store_New 0)) \<and> v \<in> set (evPool s) \<and>
    look (evict_one (rev (evPool s)) s) = (look s)(ckey v := None)"
proof -
  let ?s = "poolInsert env0 ''k'' 7 (Set ''k'' ''v'' 0 (store_New 0))"
  have "evPool ?s = [\<lparr>ckey = ''k'', score = 7\<rparr>]"
    by (simp add: poolInsert_def Set_put store_New_def EvictionPoolSize_def sortPool_def env0_def)
  moreover have "pool_ok ?s" using calculation by (simp add: pool_ok_def EvictionPoolSize_def)
  moreover have "look ?s ''k'' \<noteq> None" by (simp add: Set_put update_conv')
  ultimately show ?thesis using evict_one_takes_worst [of ?s "\<lparr>ckey = ''k'', score = 7\<rparr>"] by auto
qed

end
