(* ===== verification/Slot.thy ===== *)
theory Slot
  imports Go_Prelude
begin

unbundle bit_operations_syntax

text \<open>
  Hash slots, \<^verbatim>\<open>cluster/slot.go\<close>: the table-driven checksum, the hash tag inside a key and
  the slot number.
\<close>

definition NumSlots :: nat where "NumSlots = 16384"

text \<open>One turn of the loop that fills the table.\<close>

definition crc_shift :: "16 word \<Rightarrow> 16 word" where
  "crc_shift crc = (if crc AND 0x8000 \<noteq> 0 then push_bit 1 crc XOR 0x1021 else push_bit 1 crc)"

definition crc16tab :: "16 word list" where
  "crc16tab = map (\<lambda>i. (crc_shift ^^ 8) (push_bit 8 (of_nat i))) [0..<256]"

definition CRC16 :: "string \<Rightarrow> 16 word" where
  "CRC16 s =
     foldl (\<lambda>crc c. push_bit 8 crc XOR crc16tab ! unat ((ucast (drop_bit 8 crc) :: 8 word) XOR of_char c)) 0 s"

function indexByte :: "string \<Rightarrow> char \<Rightarrow> nat \<Rightarrow> int" where
  "indexByte s c i = (if i < length s then if s ! i = c then int i else indexByte s c (Suc i) else -1)"
  by pat_completeness auto
termination
  by (relation "measure (\<lambda>(s, _, i). length s - i)") auto

declare indexByte.simps [simp del]

definition KeyHashSlot :: "string \<Rightarrow> nat" where
  "KeyHashSlot key =
     (let opn = indexByte key (CHR ''{'') 0;
          key' = (if opn \<ge> 0
                  then let close = indexByte key (CHR ''}'') (nat opn + 1)
                       in if close > opn + 1
                          then take (nat (close - opn - 1)) (drop (nat opn + 1) key) else key
                  else key)
      in unat (CRC16 key' AND (of_nat NumSlots - 1)))"

subsection \<open>The checksum, bit by bit\<close>

text \<open>CRC-16/XMODEM without a table: shift the message in, one bit at a time.\<close>

definition crc_bitwise :: "string \<Rightarrow> 16 word" where
  "crc_bitwise s = foldl (\<lambda>crc c. (crc_shift ^^ 8) (crc XOR push_bit 8 (of_char c))) 0 s"

lemma crc_shift_alt: "crc_shift w = push_bit 1 w XOR (if bit w 15 then 0x1021 else 0)"
  using and_exp_eq_0_iff_not_bit [of w 15] by (simp add: crc_shift_def)

lemma crc_shift_xor: "crc_shift (a XOR b) = crc_shift a XOR crc_shift b"
  by (simp add: crc_shift_alt bit_xor_iff push_bit_xor xor.assoc xor.left_commute)

lemma crc_shift_pow_xor: "(crc_shift ^^ n) (a XOR b) = (crc_shift ^^ n) a XOR (crc_shift ^^ n) b"
  by (induction n) (simp_all add: crc_shift_xor)

lemma crc_shift_small:
  assumes "\<And>k. bit w k \<Longrightarrow> k + n < 16"
  shows "(crc_shift ^^ n) w = push_bit n w"
  using assms
proof (induction n)
  case (Suc n)
  then have "(crc_shift ^^ n) w = push_bit n w" by (metis Suc_lessD add_Suc_right)
  then have "(crc_shift ^^ Suc n) w = crc_shift (push_bit n w)" by simp
  also have "\<not> bit (push_bit n w) 15" using Suc.prems [of "15 - n"] by (auto simp: bit_simps)
  then have "crc_shift (push_bit n w) = push_bit (Suc n) w"
    by (simp only: crc_shift_alt if_False) simp
  finally show ?case .
qed simp

lemma crc_table_step:
  "push_bit 8 crc XOR crc16tab ! unat ((ucast (drop_bit 8 crc) :: 8 word) XOR b) =
     (crc_shift ^^ 8) (crc XOR push_bit 8 (ucast b))"
proof -
  let ?h = "(ucast (drop_bit 8 crc) :: 8 word) XOR b"
  let ?lo = "take_bit 8 crc"
  have "unat ?h < 256" using unsigned_less [of ?h, where ?'a = nat] by simp
  then have "crc16tab ! unat ?h = (crc_shift ^^ 8) (push_bit 8 (of_nat (unat ?h)))"
    by (simp add: crc16tab_def del: upt_rec_numeral)
  moreover have "of_nat (unat ?h) = (ucast ?h :: 16 word)" by (simp add: unsigned_of_nat)
  ultimately have tab: "crc16tab ! unat ?h = (crc_shift ^^ 8) (push_bit 8 (ucast ?h))" by simp
  have split: "crc XOR push_bit 8 (ucast b) = push_bit 8 (ucast ?h) XOR ?lo"
    by (rule bit_word_eqI) (auto simp: bit_simps)
  have "(crc_shift ^^ 8) ?lo = push_bit 8 ?lo" by (rule crc_shift_small) (auto simp: bit_simps)
  moreover have "push_bit 8 ?lo = push_bit 8 crc" by (rule bit_word_eqI) (auto simp: bit_simps)
  ultimately show ?thesis unfolding tab split crc_shift_pow_xor by (simp add: xor.commute)
qed

lemma ucast_of_char: "ucast (of_char c :: 8 word) = (of_char c :: 16 word)"
proof -
  have "unat (of_nat (of_char c) :: 8 word) = (of_char c :: nat)"
    using nat_of_char_less_256 [of c] by (simp only: unat_of_nat) simp
  then have *: "unat (of_char c :: 8 word) = (of_char c :: nat)" by (simp only: of_nat_of_char)
  have "ucast (of_char c :: 8 word) = (of_nat (unat (of_char c :: 8 word)) :: 16 word)" by simp
  then show ?thesis unfolding * by (simp only: of_nat_of_char)
qed

subsection \<open>Hash tags\<close>

lemma takeWhile_upto: "c \<notin> set t \<Longrightarrow> takeWhile (\<lambda>x. x \<noteq> c) (t @ c # r) = t"
  by (induction t) auto

lemma indexByte_found:
  "i \<le> length p \<Longrightarrow> c \<notin> set (drop i p) \<Longrightarrow> indexByte (p @ c # r) c i = int (length p)"
proof (induction "length p - i" arbitrary: i)
  case 0
  then have "i = length p" by simp
  then show ?case by (subst indexByte.simps) simp
next
  case (Suc n)
  then have i: "i < length p" by simp
  then have "p ! i \<noteq> c" using Suc.prems(2) by (metis Cons_nth_drop_Suc list.set_intros(1))
  moreover have "indexByte (p @ c # r) c (Suc i) = int (length p)"
    using Suc i by (metis (no_types, lifting) Cons_nth_drop_Suc Suc_leI diff_Suc_1 Suc_diff_Suc list.set_intros(2))
  ultimately show ?case using i by (subst indexByte.simps) (simp add: nth_append)
qed

lemma indexByte_missing: "c \<notin> set (drop i s) \<Longrightarrow> indexByte s c i = -1"
proof (induction s c i rule: indexByte.induct)
  case (1 s c i)
  show ?case
  proof (cases "i < length s")
    case True
    then have "drop i s = s ! i # drop (Suc i) s" by (simp add: Cons_nth_drop_Suc)
    with 1 True show ?thesis by (subst indexByte.simps) auto
  qed (subst indexByte.simps, simp)
qed

definition slot_of :: "string \<Rightarrow> nat" where
  "slot_of s = unat (CRC16 s AND (of_nat NumSlots - 1))"

lemma slot_of_less: "slot_of s < NumSlots"
proof -
  have "CRC16 s AND (of_nat NumSlots - 1) \<le> of_nat NumSlots - 1" by (rule word_and_le1)
  then show ?thesis by (simp add: slot_of_def NumSlots_def word_le_nat_alt)
qed

lemma KeyHashSlot_no_open: "CHR ''{'' \<notin> set key \<Longrightarrow> KeyHashSlot key = slot_of key"
  by (simp add: KeyHashSlot_def slot_of_def indexByte_missing)

lemma KeyHashSlot_open:
  assumes "CHR ''{'' \<notin> set p"
  shows "KeyHashSlot (p @ CHR ''{'' # q) =
    slot_of (if CHR ''}'' \<in> set q \<and> hd q \<noteq> CHR ''}'' then takeWhile (\<lambda>c. c \<noteq> CHR ''}'') q else p @ CHR ''{'' # q)"
proof -
  let ?key = "p @ CHR ''{'' # q"
  have open': "indexByte ?key (CHR ''{'') 0 = int (length p)"
    using indexByte_found [of 0 p "CHR ''{''" q] assms by simp
  show ?thesis
  proof (cases "CHR ''}'' \<in> set q")
    case False
    then have "indexByte ?key (CHR ''}'') (length p + 1) = -1" by (intro indexByte_missing) simp
    with False show ?thesis by (simp add: KeyHashSlot_def slot_of_def open' Let_def nat_add_distrib)
  next
    case True
    then obtain t r where q: "q = t @ CHR ''}'' # r" "CHR ''}'' \<notin> set t" by (metis split_list_first)
    have close: "indexByte ?key (CHR ''}'') (length p + 1) = int (length p + 1 + length t)"
      using indexByte_found [of "length p + 1" "p @ CHR ''{'' # t" "CHR ''}''" r] q by simp
    have tw: "takeWhile (\<lambda>c. c \<noteq> CHR ''}'') q = t" using q by (simp add: takeWhile_upto)
    show ?thesis
    proof (cases "t = []")
      case True
      with close open' q show ?thesis by (simp add: KeyHashSlot_def slot_of_def Let_def nat_add_distrib)
    next
      case False
      with q have "hd q \<noteq> CHR ''}''" by (cases t) auto
      with close open' q False tw show ?thesis
        by (simp add: KeyHashSlot_def slot_of_def Let_def nat_add_distrib)
    qed
  qed
qed

subsection \<open>Properties\<close>


lemma KeyHashSlot_less: "KeyHashSlot key < NumSlots"
  by (cases "CHR ''{'' \<in> set key") (auto simp: KeyHashSlot_def slot_of_less [unfolded slot_of_def] Let_def)



end
