(* ===== verification/Layout.thy ===== *)
theory Layout
  imports Slot
begin

unbundle bit_operations_syntax

text \<open>
  The cluster layout file, \<^verbatim>\<open>cluster/config.go\<close>: nodes, slot ranges, and the parser that
  turns the file into the slot map. A \<^verbatim>\<open>*Node\<close> is the position of the node in \<^verbatim>\<open>Nodes\<close>.
\<close>

record SlotRange =
  Start :: int
  End :: int

record Node =
  Name :: string
  Addr :: string
  Port :: int
  ID :: string
  Slots :: "SlotRange list"

record Layout =
  Nodes :: "Node list"
  Self :: "nat option"
  owner :: "nat \<Rightarrow> nat option"

definition Owner :: "Layout \<Rightarrow> int \<Rightarrow> nat option" where
  "Owner l slot = (if slot < 0 \<or> slot \<ge> int NumSlots then None else owner l (nat slot))"

subsection \<open>Library functions the parser calls\<close>

text \<open>\<^verbatim>\<open>crypto/sha1\<close> and \<^verbatim>\<open>encoding/hex\<close>.\<close>

definition rotl :: "nat \<Rightarrow> 32 word \<Rightarrow> 32 word" where
  "rotl n w = push_bit n w OR drop_bit (32 - n) w"

definition sha1_pad :: "8 word list \<Rightarrow> 8 word list" where
  "sha1_pad m = m @ [0x80] @ replicate (nat ((55 - int (length m)) mod 64)) 0 @
     map (\<lambda>i. of_nat (8 * length m div 256 ^ i)) [7, 6, 5, 4, 3, 2, 1, 0]"

fun be_words :: "8 word list \<Rightarrow> 32 word list" where
  "be_words (a # b # c # d # r) =
     (push_bit 24 (ucast a) OR push_bit 16 (ucast b) OR push_bit 8 (ucast c) OR ucast d) # be_words r"
| "be_words _ = []"

definition sha1_schedule :: "32 word list \<Rightarrow> 32 word list" where
  "sha1_schedule ws =
     foldl (\<lambda>w t. w @ [rotl 1 (w ! (t - 3) XOR w ! (t - 8) XOR w ! (t - 14) XOR w ! (t - 16))]) ws [16..<80]"

type_synonym sha1_state = "32 word \<times> 32 word \<times> 32 word \<times> 32 word \<times> 32 word"

fun sha1_round :: "32 word list \<Rightarrow> sha1_state \<Rightarrow> nat \<Rightarrow> sha1_state" where
  "sha1_round w (a, b, c, d, e) t =
     (let (f, k) = (if t < 20 then ((b AND c) OR (NOT b AND d), 0x5A827999)
                    else if t < 40 then (b XOR c XOR d, 0x6ED9EBA1)
                    else if t < 60 then ((b AND c) OR (b AND d) OR (c AND d), 0x8F1BBCDC)
                    else (b XOR c XOR d, 0xCA62C1D6))
      in (rotl 5 a + f + e + k + w ! t, a, rotl 30 b, c, d))"

fun sha1_block :: "sha1_state \<Rightarrow> 32 word list \<Rightarrow> sha1_state" where
  "sha1_block (a, b, c, d, e) ws =
     (let (a', b', c', d', e') = foldl (sha1_round (sha1_schedule ws)) (a, b, c, d, e) [0..<80]
      in (a + a', b + b', c + c', d + d', e + e'))"

function sha1_blocks :: "sha1_state \<Rightarrow> 32 word list \<Rightarrow> sha1_state" where
  "sha1_blocks h ws = (if ws = [] then h else sha1_blocks (sha1_block h (take 16 ws)) (drop 16 ws))"
  by pat_completeness auto
termination
  by (relation "measure (\<lambda>(_, ws). length ws)") (auto simp: length_greater_0_conv [symmetric] simp del: length_greater_0_conv)

declare sha1_blocks.simps [simp del]

definition sha1 :: "8 word list \<Rightarrow> 32 word list" where
  "sha1 m =
     (let (a, b, c, d, e) =
            sha1_blocks (0x67452301, 0xEFCDAB89, 0x98BADCFE, 0x10325476, 0xC3D2E1F0) (be_words (sha1_pad m))
      in [a, b, c, d, e])"

definition hextable :: string where "hextable = ''0123456789abcdef''"

definition hex_word :: "32 word \<Rightarrow> string" where
  "hex_word w = map (\<lambda>i. hextable ! (unat w div 16 ^ i mod 16)) [7, 6, 5, 4, 3, 2, 1, 0]"

definition nodeID :: "string \<Rightarrow> string" where
  "nodeID name = concat (map hex_word (sha1 (bytes name)))"

text \<open>\<^verbatim>\<open>strings.Cut\<close> at the first dash; \<^verbatim>\<open>strings.Fields\<close> on an ASCII string.\<close>

definition Cut :: "string \<Rightarrow> char \<Rightarrow> string \<times> string option" where
  "Cut s c = (let lo = takeWhile (\<lambda>x. x \<noteq> c) s
              in (lo, if c \<in> set s then Some (drop (length lo + 1) s) else None))"

definition is_space :: "char \<Rightarrow> bool" where
  "is_space c \<longleftrightarrow> c \<in> {CHR 0x09, CHR 0x0A, CHR 0x0B, CHR 0x0C, CHR 0x0D, CHR '' ''}"

fun fields_from :: "string \<Rightarrow> string \<Rightarrow> string list" where
  "fields_from cur [] = (if cur = [] then [] else [rev cur])"
| "fields_from cur (c # cs) =
     (if is_space c then (if cur = [] then fields_from [] cs else rev cur # fields_from [] cs)
      else fields_from (c # cur) cs)"

definition Fields :: "(string \<Rightarrow> string list) \<Rightarrow> string \<Rightarrow> string list" where
  "Fields uni s = (if is_ascii s then fields_from [] s else uni s)"

text \<open>\<^verbatim>\<open>net.SplitHostPort\<close>: the host and the port, \<open>None\<close> for any error.\<close>

definition last_index :: "string \<Rightarrow> char \<Rightarrow> nat option" where
  "last_index s c = (if c \<in> set s then Some (length s - 1 - length (takeWhile (\<lambda>x. x \<noteq> c) (rev s))) else None)"

definition SplitHostPort :: "string \<Rightarrow> (string \<times> string) option" where
  "SplitHostPort hp =
     (case last_index hp (CHR '':'') of
        None \<Rightarrow> None
      | Some i \<Rightarrow>
          let finish = (\<lambda>host j k.
                if CHR ''['' \<in> set (drop j hp) \<or> CHR '']'' \<in> set (drop k hp) then None
                else Some (host, drop (i + 1) hp))
          in if hd hp = CHR ''[''
             then (if CHR '']'' \<notin> set hp then None
                   else let e = length (takeWhile (\<lambda>x. x \<noteq> CHR '']'') hp)
                        in if e + 1 \<noteq> i then None else finish (take (e - 1) (drop 1 hp)) 1 (e + 1))
             else if CHR '':'' \<in> set (take i hp) then None
             else finish (take i hp) 0 0)"

text \<open>
  \<^verbatim>\<open>bufio.Scanner\<close>: lines without their terminator and without one carriage return; a line
  that does not fit the 64 KiB buffer stops the scan with an error.
\<close>

function raw_lines :: "string \<Rightarrow> string list" where
  "raw_lines s =
     (if s = [] then []
      else let l = takeWhile (\<lambda>c. c \<noteq> LF) s in l # raw_lines (drop (length l + 1) s))"
  by pat_completeness auto
termination
  by (relation "measure length") auto

declare raw_lines.simps [simp del]

definition dropCR :: "string \<Rightarrow> string" where
  "dropCR l = (if l \<noteq> [] \<and> last l = CR then butlast l else l)"

definition too_long :: "string \<Rightarrow> bool" where
  "too_long l \<longleftrightarrow> length l \<ge> 65536"

subsection \<open>The parser\<close>

datatype lerr =
    OpenFailed
  | WantFields nat
  | DuplicateName nat string
  | DuplicateAddr nat string
  | BadAddress nat string
  | BadPort nat string
  | BadSlot nat string
  | BadRange nat string
  | OutOfBounds nat string
  | SlotClaimed nat nat string string
  | PortTwice int
  | ScanFailed
  | NoNodes
  | NoSelf int

definition parseRange :: "nat \<Rightarrow> string \<Rightarrow> lerr + SlotRange" where
  "parseRange lineNo spec =
     (let (lo, hi) = Cut spec (CHR ''-'')
      in case Atoi lo of
           None \<Rightarrow> Inl (BadSlot lineNo spec)
         | Some start \<Rightarrow>
             (case (case hi of None \<Rightarrow> Some start | Some h \<Rightarrow> Atoi h) of
                None \<Rightarrow> Inl (BadRange lineNo spec)
              | Some stop \<Rightarrow>
                  if start < 0 \<or> stop \<ge> int NumSlots \<or> start > stop then Inl (OutOfBounds lineNo spec)
                  else Inr \<lparr>Start = start, End = stop\<rparr>))"

text \<open>
  The loop over the slots of one range: \<open>n\<close> is the position the new node will have, so
  a slot may already belong to an earlier node or to this one.
\<close>

fun claim_slots ::
  "nat \<Rightarrow> string \<Rightarrow> Node list \<Rightarrow> nat list \<Rightarrow> (nat \<Rightarrow> nat option) \<Rightarrow> lerr + (nat \<Rightarrow> nat option)" where
  "claim_slots lineNo name nodes [] own = Inr own"
| "claim_slots lineNo name nodes (s # ss) own =
     (case own s of
        Some prev \<Rightarrow>
          Inl (SlotClaimed lineNo s (if prev < length nodes then Name (nodes ! prev) else name) name)
      | None \<Rightarrow> claim_slots lineNo name nodes ss (own(s \<mapsto> length nodes)))"

fun claim_specs ::
  "nat \<Rightarrow> string \<Rightarrow> Node list \<Rightarrow> string list \<Rightarrow> SlotRange list \<Rightarrow> (nat \<Rightarrow> nat option)
     \<Rightarrow> lerr + (SlotRange list \<times> (nat \<Rightarrow> nat option))" where
  "claim_specs lineNo name nodes [] rs own = Inr (rs, own)"
| "claim_specs lineNo name nodes (spec # specs) rs own =
     (case parseRange lineNo spec of
        Inl e \<Rightarrow> Inl e
      | Inr sr \<Rightarrow>
          (case claim_slots lineNo name nodes [nat (Start sr)..<Suc (nat (End sr))] own of
             Inl e \<Rightarrow> Inl e
           | Inr own' \<Rightarrow> claim_specs lineNo name nodes specs (rs @ [sr]) own'))"

text \<open>
  The body of the loop over the lines. \<^verbatim>\<open>names\<close> and \<^verbatim>\<open>addrs\<close> hold what the nodes so far use.
\<close>

definition parse_line :: "(string \<Rightarrow> string list) \<Rightarrow> int \<Rightarrow> nat \<Rightarrow> string \<Rightarrow> Layout \<Rightarrow> lerr + Layout" where
  "parse_line uni myPort lineNo line0 l =
     (let line = takeWhile (\<lambda>c. c \<noteq> CHR ''#'') line0;
          fields = Fields uni line
      in if length fields = 0 then Inr l
         else if length fields < 3 then Inl (WantFields lineNo)
         else let name = fields ! 0; addr = fields ! 1
         in if name \<in> set (map Name (Nodes l)) then Inl (DuplicateName lineNo name)
            else if addr \<in> set (map Addr (Nodes l)) then Inl (DuplicateAddr lineNo addr)
            else (case SplitHostPort addr of
                    None \<Rightarrow> Inl (BadAddress lineNo addr)
                  | Some (_, portStr) \<Rightarrow>
                      (case Atoi portStr of
                         None \<Rightarrow> Inl (BadPort lineNo addr)
                       | Some port \<Rightarrow>
                           (case claim_specs lineNo name (Nodes l) (drop 2 fields) [] (owner l) of
                              Inl e \<Rightarrow> Inl e
                            | Inr (rs, own) \<Rightarrow>
                                let n = \<lparr>Name = name, Addr = addr, Port = port, ID = nodeID name, Slots = rs\<rparr>;
                                    l1 = l\<lparr>Nodes := Nodes l @ [n], owner := own\<rparr>
                                in if port = myPort
                                   then (if Self l1 \<noteq> None then Inl (PortTwice port)
                                         else Inr (l1\<lparr>Self := Some (length (Nodes l))\<rparr>))
                                   else Inr l1))))"

fun parse_lines :: "(string \<Rightarrow> string list) \<Rightarrow> int \<Rightarrow> nat \<Rightarrow> string list \<Rightarrow> Layout \<Rightarrow> lerr + Layout" where
  "parse_lines uni myPort lineNo [] l = Inr l"
| "parse_lines uni myPort lineNo (raw # raws) l =
     (if too_long raw then Inl ScanFailed
      else (case parse_line uni myPort (lineNo + 1) (dropCR raw) l of
              Inl e \<Rightarrow> Inl e
            | Inr l' \<Rightarrow> parse_lines uni myPort (lineNo + 1) raws l'))"

definition empty_layout :: Layout where
  "empty_layout = \<lparr>Nodes = [], Self = None, owner = (\<lambda>_. None)\<rparr>"

text \<open>\<open>ioerr\<close>: reading fails after the bytes \<open>r\<close>.\<close>

definition ParseLayout :: "(string \<Rightarrow> string list) \<Rightarrow> string \<Rightarrow> bool \<Rightarrow> int \<Rightarrow> lerr + Layout" where
  "ParseLayout uni r ioerr myPort =
     (case parse_lines uni myPort 0 (raw_lines r) empty_layout of
        Inl e \<Rightarrow> Inl e
      | Inr l \<Rightarrow>
          if ioerr then Inl ScanFailed
          else if length (Nodes l) = 0 then Inl NoNodes
          else if Self l = None then Inl (NoSelf myPort)
          else Inr l)"

definition LoadLayout :: "(string \<Rightarrow> string list) \<Rightarrow> (string \<times> bool) option \<Rightarrow> int \<Rightarrow> lerr + Layout" where
  "LoadLayout uni content myPort =
     (case content of None \<Rightarrow> Inl OpenFailed | Some (r, ioerr) \<Rightarrow> ParseLayout uni r ioerr myPort)"

subsection \<open>What a layout guarantees\<close>

definition in_range :: "SlotRange \<Rightarrow> nat \<Rightarrow> bool" where
  "in_range r s \<longleftrightarrow> Start r \<le> int s \<and> int s \<le> End r"

definition range_ok :: "SlotRange \<Rightarrow> bool" where
  "range_ok r \<longleftrightarrow> 0 \<le> Start r \<and> Start r \<le> End r \<and> End r < int NumSlots"

text \<open>Ranges of one node that share no slot.\<close>

fun disjoint_ranges :: "SlotRange list \<Rightarrow> bool" where
  "disjoint_ranges [] = True"
| "disjoint_ranges (r # rs) = ((\<forall>q \<in> set rs. \<forall>s < NumSlots. \<not> (in_range r s \<and> in_range q s)) \<and> disjoint_ranges rs)"

definition layout_ok :: "int \<Rightarrow> Layout \<Rightarrow> bool" where
  "layout_ok myPort l \<longleftrightarrow>
     distinct (map Name (Nodes l)) \<and> distinct (map Addr (Nodes l)) \<and>
     (\<forall>n \<in> set (Nodes l). list_all range_ok (Slots n) \<and> disjoint_ranges (Slots n) \<and> Slots n \<noteq> [] \<and> CHR '':'' \<in> set (Addr n)) \<and>
     (\<forall>s i. owner l s = Some i \<longleftrightarrow> i < length (Nodes l) \<and> (\<exists>r \<in> set (Slots (Nodes l ! i)). in_range r s)) \<and>
     (\<forall>i < length (Nodes l). Port (Nodes l ! i) = myPort \<longleftrightarrow> Self l = Some i) \<and>
     (\<forall>i. Self l = Some i \<longrightarrow> i < length (Nodes l))"

lemma parseRange_ok: "parseRange ln spec = Inr r \<Longrightarrow> range_ok r"
  by (auto simp: parseRange_def range_ok_def NumSlots_def split: prod.splits option.splits if_splits)

lemma range_slots: "range_ok r \<Longrightarrow> set [nat (Start r)..<Suc (nat (End r))] = {s. in_range r s}"
  by (auto simp: range_ok_def in_range_def simp del: upt_Suc)

lemma claim_slots_Inr:
  "claim_slots ln name nodes ss own = Inr own' \<Longrightarrow>
     (\<forall>s. own' s = (if s \<in> set ss then Some (length nodes) else own s)) \<and> (\<forall>s \<in> set ss. own s = None)"
proof (induction ss arbitrary: own)
  case (Cons s ss)
  then have free: "own s = None" by (auto split: option.splits)
  with Cons.prems have "claim_slots ln name nodes ss (own(s \<mapsto> length nodes)) = Inr own'" by simp
  from Cons.IH [OF this] free show ?case by (auto split: if_splits)
qed simp

lemma claim_specs_Inr:
  "claim_specs ln name nodes specs rs own = Inr (rs', own') \<Longrightarrow>
     \<exists>new. rs' = rs @ new \<and> length new = length specs \<and> list_all range_ok new \<and> disjoint_ranges new \<and>
       (\<forall>s. own' s = (if \<exists>r \<in> set new. in_range r s then Some (length nodes) else own s)) \<and>
       (\<forall>s. (\<exists>r \<in> set new. in_range r s) \<longrightarrow> own s = None)"
proof (induction specs arbitrary: rs own)
  case (Cons spec specs)
  then obtain sr where sr: "parseRange ln spec = Inr sr" by (auto split: sum.splits)
  with Cons.prems obtain own1 where
    own1: "claim_slots ln name nodes [nat (Start sr)..<Suc (nat (End sr))] own = Inr own1"
    and rest: "claim_specs ln name nodes specs (rs @ [sr]) own1 = Inr (rs', own')"
    by (auto simp del: upt_Suc split: sum.splits)
  have ok: "range_ok sr" using parseRange_ok [OF sr] .
  from claim_slots_Inr [OF own1] have
    o: "\<And>s. own1 s = (if in_range sr s then Some (length nodes) else own s)" "\<And>s. in_range sr s \<Longrightarrow> own s = None"
    unfolding range_slots [OF ok] by auto
  from Cons.IH [OF rest] obtain new where new: "rs' = (rs @ [sr]) @ new" "length new = length specs"
    "list_all range_ok new" "disjoint_ranges new"
    "\<And>s. own' s = (if \<exists>r \<in> set new. in_range r s then Some (length nodes) else own1 s)"
    "\<And>s. (\<exists>r \<in> set new. in_range r s) \<Longrightarrow> own1 s = None"
    by blast
  have apart: "\<not> (in_range sr s \<and> in_range q s)" if "q \<in> set new" for q s
    using that new(6) [of s] o(1) [of s] by (metis option.distinct(1))
  have "disjoint_ranges (sr # new)" using apart new(4) by auto
  moreover have "own' s = (if \<exists>r \<in> set (sr # new). in_range r s then Some (length nodes) else own s)" for s
    using new(5) [of s] o(1) [of s] by auto
  moreover have "own s = None" if "\<exists>r \<in> set (sr # new). in_range r s" for s
    using that new(6) [of s] o(1) [of s] o(2) [of s] by (cases "in_range sr s") auto
  ultimately show ?case using new(1-3) ok by (intro exI [of _ "sr # new"]) auto
qed simp

lemma layout_ok_empty: "layout_ok myPort empty_layout"
  by (simp add: layout_ok_def empty_layout_def)

text \<open>A new node whose ranges were free, with a name and an address of its own.\<close>

lemma layout_ok_add:
  assumes "layout_ok myPort l" "Name n \<notin> set (map Name (Nodes l))" "Addr n \<notin> set (map Addr (Nodes l))"
    "list_all range_ok (Slots n)" "disjoint_ranges (Slots n)" "Slots n \<noteq> [] \<and> CHR '':'' \<in> set (Addr n)"
    "\<And>s. own s = (if \<exists>r \<in> set (Slots n). in_range r s then Some (length (Nodes l)) else owner l s)"
    "\<And>s. (\<exists>r \<in> set (Slots n). in_range r s) \<Longrightarrow> owner l s = None"
    "Port n = myPort \<Longrightarrow> Self l = None"
    "self = (if Port n = myPort then Some (length (Nodes l)) else Self l)"
  shows "layout_ok myPort (l\<lparr>Nodes := Nodes l @ [n], owner := own, Self := self\<rparr>)"
proof -
  let ?N = "length (Nodes l)"
  note old = assms(1) [unfolded layout_ok_def]
  have own: "owner l s = Some i \<longleftrightarrow> i < ?N \<and> (\<exists>r \<in> set (Slots (Nodes l ! i)). in_range r s)" for s i
    using old by blast
  have "own s = Some i \<longleftrightarrow> i < Suc ?N \<and> (\<exists>r \<in> set (Slots ((Nodes l @ [n]) ! i)). in_range r s)" for s i
  proof (cases "i = ?N")
    case True
    then show ?thesis using assms(7) [of s] own [of s i] by auto
  next
    case False
    then have "own s = Some i \<longleftrightarrow> owner l s = Some i" using assms(7,8) [of s] by auto
    then show ?thesis using own [of s i] False by (auto simp: nth_append)
  qed
  moreover have "Port ((Nodes l @ [n]) ! i) = myPort \<longleftrightarrow> self = Some i" if "i < Suc ?N" for i
  proof (cases "i = ?N")
    case True
    have "Self l \<noteq> Some ?N" using old by blast
    then show ?thesis using True assms(10) by simp
  next
    case False
    then have i: "i < ?N" using that by simp
    then have "Port (Nodes l ! i) = myPort \<longleftrightarrow> Self l = Some i" using old by blast
    then show ?thesis using i assms(9,10) by (auto simp: nth_append)
  qed
  moreover have "self = Some i \<Longrightarrow> i < Suc ?N" for i
    using old assms(10) by (auto split: if_splits intro: less_SucI)
  ultimately show ?thesis using old assms(2-6) unfolding layout_ok_def by auto
qed

lemma parse_line_ok:
  assumes "parse_line uni myPort ln line l = Inr l'" "layout_ok myPort l"
  shows "layout_ok myPort l'"
proof -
  define fields where "fields = Fields uni (takeWhile (\<lambda>c. c \<noteq> CHR ''#'') line)"
  show ?thesis
  proof (cases "length fields = 0")
    case True
    then show ?thesis using assms by (simp add: parse_line_def fields_def)
  next
    case False
    note line = assms(1) [unfolded parse_line_def Let_def, folded fields_def]
    have p: "\<not> length fields < 3" "fields ! 0 \<notin> set (map Name (Nodes l))" "fields ! 1 \<notin> set (map Addr (Nodes l))"
      using line False by (auto split: if_splits)
    obtain host portStr where hp: "SplitHostPort (fields ! 1) = Some (host, portStr)"
      using line False p by (cases "SplitHostPort (fields ! 1)") (auto split: if_splits)
    obtain port where port: "Atoi portStr = Some port"
      using line False p hp by (cases "Atoi portStr") (auto split: if_splits)
    obtain rs own where claim: "claim_specs ln (fields ! 0) (Nodes l) (drop 2 fields) [] (owner l) = Inr (rs, own)"
      using line False p hp port
      by (cases "claim_specs ln (fields ! 0) (Nodes l) (drop 2 fields) [] (owner l)") (auto split: if_splits)
    have l': "port = myPort \<Longrightarrow> Self l = None"
      "l' = l\<lparr>Nodes := Nodes l @ [\<lparr>Name = fields ! 0, Addr = fields ! 1, Port = port, ID = nodeID (fields ! 0), Slots = rs\<rparr>],
         owner := own, Self := (if port = myPort then Some (length (Nodes l)) else Self l)\<rparr>"
      using line False p hp port claim by (auto split: if_splits)
    from claim_specs_Inr [OF claim] have rs: "length rs = length (drop 2 fields)" "list_all range_ok rs" "disjoint_ranges rs"
      "\<And>s. own s = (if \<exists>r \<in> set rs. in_range r s then Some (length (Nodes l)) else owner l s)"
      "\<And>s. (\<exists>r \<in> set rs. in_range r s) \<Longrightarrow> owner l s = None"
      by auto
    have "rs \<noteq> []" using rs(1) p(1) by auto
    moreover have "CHR '':'' \<in> set (fields ! 1)"
      using hp by (auto simp: SplitHostPort_def last_index_def split: option.splits if_splits)
    ultimately show ?thesis unfolding l'(2) using rs p(2,3) l'(1)
      by (intro layout_ok_add [OF assms(2)]) simp_all
  qed
qed

lemma parse_lines_ok:
  "parse_lines uni myPort ln raws l = Inr l' \<Longrightarrow> layout_ok myPort l \<Longrightarrow> layout_ok myPort l'"
  by (induction raws arbitrary: ln l) (auto split: if_splits sum.splits dest: parse_line_ok)

lemma ParseLayout_ok:
  assumes "ParseLayout uni r ioerr myPort = Inr l"
  shows "layout_ok myPort l" "\<not> ioerr" "Self l \<noteq> None"
proof -
  from assms have l: "parse_lines uni myPort 0 (raw_lines r) empty_layout = Inr l" "\<not> ioerr" "Self l \<noteq> None"
    by (auto simp: ParseLayout_def split: sum.splits if_splits)
  then show "layout_ok myPort l" "\<not> ioerr" "Self l \<noteq> None" using parse_lines_ok [OF l(1) layout_ok_empty] by simp_all
qed

lemma LoadLayout_ok: "LoadLayout uni content myPort = Inr l \<Longrightarrow> layout_ok myPort l \<and> Self l \<noteq> None"
  by (auto simp: LoadLayout_def dest: ParseLayout_ok split: option.splits)

text \<open>
  C38: a layout file that loads describes a consistent cluster. Names and addresses are
  different, every range lies within the slots, no slot is claimed twice, the owner of a
  slot is exactly the node with a range around it, and there is exactly one node with this
  server's port, which is itself.
\<close>

theorem ParseLayout_sound:
  assumes "ParseLayout uni r ioerr myPort = Inr l"
  shows "layout_ok myPort l \<and> \<not> ioerr \<and> (\<exists>i < length (Nodes l). Self l = Some i \<and> Port (Nodes l ! i) = myPort)"
proof -
  obtain i where "Self l = Some i" using ParseLayout_ok(3) [OF assms] by blast
  then show ?thesis using ParseLayout_ok(1,2) [OF assms] unfolding layout_ok_def by blast
qed

lemma small_file_loads: "\<exists>l. ParseLayout (\<lambda>_. []) ''a h:7 0-1'' False 7 = Inr l"
proof -
  have lines: "raw_lines ''a h:7 0-1'' = [''a h:7 0-1'']" by (simp add: raw_lines.simps)
  show ?thesis
    by (simp add: ParseLayout_def lines too_long_def dropCR_def parse_line_def Let_def Fields_def is_space_def
        SplitHostPort_def last_index_def parseRange_def Cut_def empty_layout_def NumSlots_def is_ascii_def
        ParseInt_def is_digit_def digit_val_def)
qed

theorem ParseLayout_sound_witness:
  "\<exists>l. ParseLayout (\<lambda>_. []) ''a h:7 0-1'' False 7 = Inr l \<and> layout_ok 7 l"
proof -
  obtain l where l: "ParseLayout (\<lambda>_. []) ''a h:7 0-1'' False 7 = Inr l" using small_file_loads by blast
  from ParseLayout_sound [OF l] l show ?thesis by blast
qed

text \<open>
  Node identifiers are 40 hexadecimal digits and depend on the name alone, so a node
  keeps its identifier across restarts and moves of its slots.
\<close>

lemma nodeID_length: "length (nodeID name) = 40 \<and> set (nodeID name) \<subseteq> set hextable"
proof -
  have five: "length (sha1 m) = 5" for m by (simp add: sha1_def split: prod.splits)
  have eight: "length (hex_word w) = 8" for w by (simp add: hex_word_def)
  have len: "length (concat (map hex_word ws)) = 8 * length ws" for ws by (induction ws) (simp_all add: eight)
  have "length hextable = 16" by (simp add: hextable_def)
  then have "hextable ! (n mod 16) \<in> set hextable" for n :: nat by (intro nth_mem) simp
  then have "set (hex_word w) \<subseteq> set hextable" for w unfolding hex_word_def by (simp add: image_subset_iff)
  then have "set (concat (map hex_word ws)) \<subseteq> set hextable" for ws by (induction ws) simp_all
  then show ?thesis unfolding nodeID_def by (simp only: len five) simp
qed

end
