(* ===== verification/Resp.thy ===== *)
theory Resp
  imports Go_Prelude
begin

text \<open>
  The RESP protocol of \<^verbatim>\<open>core/resp.go\<close>, \<^verbatim>\<open>core/encode.go\<close> and \<^verbatim>\<open>core/decode.go\<close>:
  the encoders, the recursive decoder over the bytes still to come from the reader, its
  reusable scratch buffer, and the laws that tie them together.
\<close>

subsection \<open>Encoders\<close>

definition EncodeBulkString :: "string \<Rightarrow> string" where
  "EncodeBulkString s = ''$'' @ FormatInt (int (length s)) @ CRLF @ s @ CRLF"

definition EncodeArray :: "string list \<Rightarrow> string" where
  "EncodeArray args =
     foldl (\<lambda>out arg. out @ EncodeBulkString arg) (''*'' @ FormatInt (int (length args)) @ CRLF) args"

definition EncodeSimpleString :: "string \<Rightarrow> string" where
  "EncodeSimpleString s = ''+'' @ s @ CRLF"

definition EncodeError :: "string \<Rightarrow> string" where
  "EncodeError s = ''-'' @ s @ CRLF"

definition EncodeRawArray :: "string list \<Rightarrow> string" where
  "EncodeRawArray items =
     foldl (\<lambda>out item. out @ item) (''*'' @ FormatInt (int (length items)) @ CRLF) items"

definition EncodeNullBulkString :: string where
  "EncodeNullBulkString = ''$-1'' @ CRLF"

definition EncodeInteger :: "int \<Rightarrow> string" where
  "EncodeInteger n = '':'' @ FormatInt n @ CRLF"

subsection \<open>DecodeInteger\<close>

definition TrimPrefix :: "string \<Rightarrow> string \<Rightarrow> string" where
  "TrimPrefix s p = (if take (length p) s = p then drop (length p) s else s)"

definition TrimSuffix :: "string \<Rightarrow> string \<Rightarrow> string" where
  "TrimSuffix s p =
     (if length p \<le> length s \<and> drop (length s - length p) s = p
      then take (length s - length p) s else s)"

definition DecodeInteger :: "string \<Rightarrow> int option" where
  "DecodeInteger b = ParseInt (TrimSuffix (TrimPrefix b '':'') CRLF)"

subsection \<open>The decoder\<close>

text \<open>
  A decoded \<^verbatim>\<open>any\<close> is a string (simple string, error and bulk string alike), an
  \<^verbatim>\<open>int64\<close> or a slice of such values. Every \<^verbatim>\<open>fmt.Errorf\<close> of the decoder is one
  constructor of \<open>rerr\<close>; \<open>Crash\<close> is a runtime panic.
\<close>

datatype any = StrV string | IntV int | ArrV "any list"

datatype rerr =
    EOF
  | MalformedLine string
  | InvalidInteger string
  | InvalidBulkLength string
  | BulkBody
  | BulkTerminator
  | InvalidArrayLength string
  | ArrayElement nat rerr
  | UnknownType char

datatype 'a reading = Got 'a | Fail rerr | Crash

definition readLine :: "string \<Rightarrow> (string \<times> string) reading" where
  "readLine r =
     (case ReadString r of
        None \<Rightarrow> Fail EOF
      | Some (line, r') \<Rightarrow>
          if length line < 2 \<or> line ! (length line - 2) \<noteq> CR then Fail (MalformedLine line)
          else Got (take (length line - 2) line, r'))"

definition readSimpleString :: "string \<Rightarrow> (string \<times> string) reading" where
  "readSimpleString r = readLine r"

definition readError :: "string \<Rightarrow> (string \<times> string) reading" where
  "readError r = readLine r"

definition readInteger :: "string \<Rightarrow> (int \<times> string) reading" where
  "readInteger r =
     (case readLine r of
        Fail e \<Rightarrow> Fail e
      | Crash \<Rightarrow> Crash
      | Got (line, r') \<Rightarrow>
          (case ParseInt line of None \<Rightarrow> Fail (InvalidInteger line) | Some n \<Rightarrow> Got (n, r')))"

text \<open>
  \<^verbatim>\<open>scratch *[]byte\<close> is \<open>None\<close> for nil, otherwise the bytes of the buffer up to its
  capacity. \<open>bulk_buffer\<close> is the choice of the array the body is read into
  (lines 56 to 69); \<open>None\<close> is a panic of \<^verbatim>\<open>make\<close> or of the slice expression.
\<close>

type_synonym scratch = "string option"

definition bulk_buffer :: "scratch \<Rightarrow> int \<Rightarrow> string option" where
  "bulk_buffer scratch need =
     (case scratch of
        None \<Rightarrow> if make_ok need 1 then Some (replicate (nat need) (CHR 0x00)) else None
      | Some b \<Rightarrow>
          if int (length b) < need
          then (if make_ok need 1 then Some (replicate (nat need) (CHR 0x00)) else None)
          else if need < 0 then None else Some b)"

definition readBulkString :: "scratch \<Rightarrow> string \<Rightarrow> (string \<times> string \<times> scratch) reading" where
  "readBulkString scratch r =
     (case readLine r of
        Fail e \<Rightarrow> Fail e
      | Crash \<Rightarrow> Crash
      | Got (line, r') \<Rightarrow>
          (case Atoi line of
             None \<Rightarrow> Fail (InvalidBulkLength line)
           | Some len \<Rightarrow>
               if len = -1 then Got ([], r', scratch)
               else let need = wrap64 (len + 2) in
                 (case bulk_buffer scratch need of
                    None \<Rightarrow> Crash
                  | Some arr \<Rightarrow>
                      if int (length r') < need then Fail BulkBody
                      else let arr' = take (nat need) r' @ drop (nat need) arr;
                               buffer = take (nat need) arr'
                           in if len < 0 then Crash
                              else if buffer ! nat len \<noteq> CR \<or> buffer ! nat (len + 1) \<noteq> LF
                              then Fail BulkTerminator
                              else Got (take (nat len) buffer, drop (nat need) r',
                                        map_option (\<lambda>_. arr') scratch))))"

lemma readLine_length: "readLine r = Got (l, r') \<Longrightarrow> length r' < length r"
  by (auto simp: readLine_def split: option.splits if_splits dest: ReadString_length)

lemma readInteger_length: "readInteger r = Got (n, r') \<Longrightarrow> length r' < length r"
  by (auto simp: readInteger_def split: reading.splits option.splits dest: readLine_length)

lemma readBulkString_length:
  "readBulkString sc r = Got (s, r', sc') \<Longrightarrow> length r' < length r"
  by (auto simp: readBulkString_def Let_def split: reading.splits option.splits if_splits
      dest!: readLine_length)

text \<open>
  The recursion is nested: the second element of an array is decoded from what the first
  one left. Each decoded value consumes at least its type byte, which is what makes it
  terminate.
\<close>

function decode :: "scratch \<Rightarrow> string \<Rightarrow> (any \<times> string \<times> scratch) reading"
  and readArray :: "scratch \<Rightarrow> string \<Rightarrow> (any list \<times> string \<times> scratch) reading"
  and readElems :: "nat \<Rightarrow> nat \<Rightarrow> scratch \<Rightarrow> string \<Rightarrow> (any list \<times> string \<times> scratch) reading"
where
  "decode scratch r =
     (case r of
        [] \<Rightarrow> Fail EOF
      | typeByte # r0 \<Rightarrow>
          if typeByte = CHR ''+'' then
            (case readSimpleString r0 of
               Got (s, r') \<Rightarrow> Got (StrV s, r', scratch) | Fail e \<Rightarrow> Fail e | Crash \<Rightarrow> Crash)
          else if typeByte = CHR ''-'' then
            (case readError r0 of
               Got (s, r') \<Rightarrow> Got (StrV s, r', scratch) | Fail e \<Rightarrow> Fail e | Crash \<Rightarrow> Crash)
          else if typeByte = CHR '':'' then
            (case readInteger r0 of
               Got (n, r') \<Rightarrow> Got (IntV n, r', scratch) | Fail e \<Rightarrow> Fail e | Crash \<Rightarrow> Crash)
          else if typeByte = CHR ''$'' then
            (case readBulkString scratch r0 of
               Got (s, r', sc') \<Rightarrow> Got (StrV s, r', sc') | Fail e \<Rightarrow> Fail e | Crash \<Rightarrow> Crash)
          else if typeByte = CHR ''*'' then
            (case readArray scratch r0 of
               Got (vs, r', sc') \<Rightarrow> Got (ArrV vs, r', sc') | Fail e \<Rightarrow> Fail e | Crash \<Rightarrow> Crash)
          else Fail (UnknownType typeByte))"
| "readArray scratch r =
     (case readLine r of
        Fail e \<Rightarrow> Fail e
      | Crash \<Rightarrow> Crash
      | Got (line, r') \<Rightarrow>
          (case Atoi line of
             None \<Rightarrow> Fail (InvalidArrayLength line)
           | Some count \<Rightarrow>
               if \<not> make_ok count 16 then Crash
               else readElems (nat count) 0 scratch r'))"
| "readElems count i scratch r =
     (if i < count then
        (case decode scratch r of
           Fail e \<Rightarrow> Fail (ArrayElement i e)
         | Crash \<Rightarrow> Crash
         | Got (v, r', sc') \<Rightarrow>
             (case readElems count (Suc i) sc' r' of
                Got (vs, r'', sc'') \<Rightarrow> Got (v # vs, r'', sc'')
              | Fail e \<Rightarrow> Fail e
              | Crash \<Rightarrow> Crash))
      else Got ([], r, scratch))"
  by pat_completeness auto

termination
proof -
  have len: "decode_readArray_readElems_dom (Inl (sc, r)) \<Longrightarrow>
      (\<forall>v r' sc'. decode sc r = Got (v, r', sc') \<longrightarrow> length r' < length r)"
    and "decode_readArray_readElems_dom (Inr (Inl (sc, r))) \<Longrightarrow>
      (\<forall>vs r' sc'. readArray sc r = Got (vs, r', sc') \<longrightarrow> length r' < length r)"
    and "decode_readArray_readElems_dom (Inr (Inr (n, i, sc, r))) \<Longrightarrow>
      (\<forall>vs r' sc'. readElems n i sc r = Got (vs, r', sc') \<longrightarrow> length r' \<le> length r)"
    for sc r n i
  proof (induction sc r and sc r and n i sc r rule: decode_readArray_readElems.pinduct)
    case (1 sc r)
    show ?case
    proof (cases r)
      case Nil
      with 1 show ?thesis by (simp add: decode.psimps)
    next
      case (Cons c r0)
      have "length r' < length r" if *: "decode sc r = Got (v, r', sc')" for v r' sc'
        using * 1 Cons
        by (auto simp: decode.psimps readSimpleString_def readError_def split: if_splits reading.splits
            dest!: readLine_length readInteger_length readBulkString_length)
      then show ?thesis by blast
    qed
  next
    case (2 sc r)
    have "length r' < length r" if *: "readArray sc r = Got (vs, r', sc')" for vs r' sc'
    proof -
      from * "2.hyps" obtain line r1 count where "readLine r = Got (line, r1)"
        and "Atoi line = Some count" and "make_ok count 16"
        and "readElems (nat count) 0 sc r1 = Got (vs, r', sc')"
        by (auto simp: readArray.psimps split: if_splits reading.splits option.splits)
      then have "length r' \<le> length r1" using "2.IH" by blast
      moreover have "length r1 < length r" using \<open>readLine r = Got (line, r1)\<close> by (rule readLine_length)
      ultimately show ?thesis by simp
    qed
    then show ?case by blast
  next
    case (3 n i sc r)
    have "length r' \<le> length r" if *: "readElems n i sc r = Got (vs, r', sc')" for vs r' sc'
    proof (cases "i < n")
      case True
      with * "3.hyps" obtain v r1 sc1 vs1 where d: "decode sc r = Got (v, r1, sc1)"
        and e: "readElems n (Suc i) sc1 r1 = Got (vs1, r', sc')"
        by (auto simp: readElems.psimps split: reading.splits)
      from "3.IH"(1) True d have "length r1 < length r" by blast
      moreover from "3.IH"(2) [OF True d] e have "length r' \<le> length r1" by blast
      ultimately show ?thesis by simp
    next
      case False
      with * "3.hyps" show ?thesis by (simp add: readElems.psimps)
    qed
    then show ?case by blast
  qed
  show ?thesis
  proof (relation "measure (\<lambda>x. case x of Inl (sc, r) \<Rightarrow> 2 * length r
          | Inr (Inl (sc, r)) \<Rightarrow> 2 * length r + 1
          | Inr (Inr (n, i, sc, r)) \<Rightarrow> 2 * length r + 1)", goal_cases)
    case 1
    show ?case by simp
  next
    case 2
    then show ?case by simp
  next
    case 3
    then show ?case by (auto dest: readLine_length)
  next
    case 4
    show ?case by simp
  next
    case (5 n i sc r x v q r' sc')
    then have "decode sc r = Got (v, r', sc')" by simp
    with 5 len [of sc r] have "length r' < length r" by blast
    then show ?case by simp
  qed
qed

declare decode.simps [simp del] readArray.simps [simp del] readElems.simps [simp del]

definition Decode :: "string \<Rightarrow> (any \<times> string) reading" where
  "Decode r =
     (case decode None r of Got (v, r', _) \<Rightarrow> Got (v, r') | Fail e \<Rightarrow> Fail e | Crash \<Rightarrow> Crash)"

record Decoder =
  dec_r :: string
  dec_scratch :: string

definition NewDecoder :: "string \<Rightarrow> Decoder" where
  "NewDecoder r = \<lparr>dec_r = r, dec_scratch = []\<rparr>"

definition Decoder_Decode :: "Decoder \<Rightarrow> (any \<times> Decoder) reading" where
  "Decoder_Decode d =
     (case decode (Some (dec_scratch d)) (dec_r d) of
        Got (v, r', sc') \<Rightarrow>
          Got (v, \<lparr>dec_r = r', dec_scratch = (case sc' of Some b \<Rightarrow> b | None \<Rightarrow> [])\<rparr>)
      | Fail e \<Rightarrow> Fail e
      | Crash \<Rightarrow> Crash)"

subsection \<open>Progress and stability of the decoder\<close>

lemma decode_lengths:
  "\<forall>v r' sc'. decode sc r = Got (v, r', sc') \<longrightarrow> length r' < length r"
  "\<forall>vs r' sc'. readArray sc r = Got (vs, r', sc') \<longrightarrow> length r' < length r"
  "\<forall>vs r' sc'. readElems n i sc r = Got (vs, r', sc') \<longrightarrow> length r' \<le> length r"
proof (induction sc r and sc r and n i sc r rule: decode_readArray_readElems.induct)
  case (1 sc r)
  show ?case
  proof (cases r)
    case Nil
    with 1 show ?thesis by (simp add: decode.simps)
  next
    case (Cons c r0)
    have "length r' < length r" if *: "decode sc r = Got (v, r', sc')" for v r' sc'
      using * 1 Cons
      by (auto simp: decode.simps readSimpleString_def readError_def split: if_splits reading.splits
          dest!: readLine_length readInteger_length readBulkString_length)
    then show ?thesis by blast
  qed
next
  case (2 sc r)
  have "length r' < length r" if *: "readArray sc r = Got (vs, r', sc')" for vs r' sc'
  proof -
    from * obtain line r1 count where "readLine r = Got (line, r1)"
      and "Atoi line = Some count" and "make_ok count 16"
      and "readElems (nat count) 0 sc r1 = Got (vs, r', sc')"
      by (auto simp: readArray.simps split: if_splits reading.splits option.splits)
    then have "length r' \<le> length r1" using "2.IH" by blast
    moreover have "length r1 < length r" using \<open>readLine r = Got (line, r1)\<close> by (rule readLine_length)
    ultimately show ?thesis by simp
  qed
  then show ?case by blast
next
  case (3 n i sc r)
  have "length r' \<le> length r" if *: "readElems n i sc r = Got (vs, r', sc')" for vs r' sc'
  proof (cases "i < n")
    case True
    with * obtain v r1 sc1 vs1 where d: "decode sc r = Got (v, r1, sc1)"
      and e: "readElems n (Suc i) sc1 r1 = Got (vs1, r', sc')"
      by (auto simp: readElems.simps [of n i] split: reading.splits)
    from "3.IH"(1) True d have "length r1 < length r" by blast
    moreover from "3.IH"(2) [OF True d] e have "length r' \<le> length r1" by blast
    ultimately show ?thesis by simp
  next
    case False
    with * show ?thesis by (simp add: readElems.simps)
  qed
  then show ?case by blast
qed

lemmas decode_length = decode_lengths(1) [rule_format]

lemma Decode_length: "Decode r = Got (v, r') \<Longrightarrow> length r' < length r"
  by (auto simp: Decode_def split: reading.splits dest: decode_length)

lemma ReadString_extend: "ReadString r = Some (l, r') \<Longrightarrow> ReadString (r @ x) = Some (l, r' @ x)"
  by (induction r arbitrary: l r') (auto split: if_splits)

lemma ReadString_last: "ReadString r = Some (l, r') \<Longrightarrow> last l = LF \<and> l \<noteq> []"
  by (induction r arbitrary: l r') (auto split: if_splits)

lemma line_split:
  assumes "last line = LF" "2 \<le> length line" "line ! (length line - 2) = CR"
  shows "line = take (length line - 2) line @ CRLF"
proof -
  have ne: "line \<noteq> []" "butlast line \<noteq> []"
    using assms(2) by (auto simp flip: length_greater_0_conv)
  then have "line = butlast (butlast line) @ [last (butlast line), last line]"
    by (metis append_assoc append_butlast_last_id append_Cons append_Nil)
  moreover have "last (butlast line) = CR"
    using assms(2,3) ne by (simp add: last_conv_nth nth_butlast numeral_2_eq_2)
  moreover have "butlast (butlast line) = take (length line - 2) line"
    by (simp add: butlast_conv_take numeral_2_eq_2)
  ultimately show ?thesis using assms(1) by simp
qed

lemma readLine_eq_Got: "readLine r = Got (l, r') \<longleftrightarrow> ReadString r = Some (l @ CRLF, r')"
proof
  assume "readLine r = Got (l, r')"
  then obtain line where "ReadString r = Some (line, r')" and l: "l = take (length line - 2) line"
    and "2 \<le> length line" "line ! (length line - 2) = CR"
    by (auto simp: readLine_def split: option.splits if_splits)
  with line_split [of line] ReadString_last show "ReadString r = Some (l @ CRLF, r')" by auto
next
  assume "ReadString r = Some (l @ CRLF, r')"
  then show "readLine r = Got (l, r')" by (simp add: readLine_def nth_append)
qed

lemma readLine_no_Crash [simp]: "readLine r \<noteq> Crash"
  by (simp add: readLine_def split: option.splits)

lemma readLine_extend: "readLine r = Got (l, r') \<Longrightarrow> readLine (r @ x) = Got (l, r' @ x)"
  by (simp add: readLine_eq_Got ReadString_extend)

lemma readLine_line [simp]: "LF \<notin> set l \<Longrightarrow> readLine (l @ CR # LF # r) = Got (l, r)"
  using ReadString_append [of "l @ [CR]" r] by (simp add: readLine_eq_Got)

lemma readInteger_eq_Got:
  "readInteger r = Got (n, r') \<longleftrightarrow> (\<exists>line. readLine r = Got (line, r') \<and> ParseInt line = Some n)"
  by (auto simp: readInteger_def split: reading.splits option.splits)

lemma readInteger_no_Crash [simp]: "readInteger r \<noteq> Crash"
  by (simp add: readInteger_def split: option.splits reading.splits)

lemma readInteger_extend: "readInteger r = Got (n, r') \<Longrightarrow> readInteger (r @ x) = Got (n, r' @ x)"
  using readLine_extend by (fastforce simp: readInteger_eq_Got)

text \<open>
  Reading a bulk string, case by case on the announced length: the null string, a length
  that makes the runtime panic, and a body.
\<close>

definition bulk_panics :: "scratch \<Rightarrow> int \<Rightarrow> bool" where
  "bulk_panics sc len \<longleftrightarrow> len \<noteq> -1 \<and> (len < 0 \<or> bulk_buffer sc (wrap64 (len + 2)) = None)"

lemma bulk_buffer_neg: "need < 0 \<Longrightarrow> bulk_buffer sc need = None"
  by (auto simp: bulk_buffer_def make_ok_def split: option.splits)

lemma readBulkString_body:
  assumes "readLine r = Got (line, r1)" "Atoi line = Some len" "len \<noteq> -1"
  shows "readBulkString sc r =
    (if bulk_panics sc len then Crash
     else if length r1 < nat len + 2 then Fail BulkBody
     else if r1 ! nat len \<noteq> CR \<or> r1 ! Suc (nat len) \<noteq> LF then Fail BulkTerminator
     else Got (take (nat len) r1, drop (nat len + 2) r1,
       map_option (\<lambda>_. take (nat len + 2) r1 @
         drop (nat len + 2) (the (bulk_buffer sc (len + 2)))) sc))"
proof (cases "bulk_panics sc len")
  case True
  from assms(2) have "in_int64 len" by (rule ParseInt_range)
  then have neg: "len < 0 \<Longrightarrow> wrap64 (len + 2) = len + 2"
    by (intro wrap64_id) (simp add: in_int64_def)
  show ?thesis
  proof (cases "bulk_buffer sc (wrap64 (len + 2))")
    case None
    with True assms show ?thesis by (simp add: readBulkString_def)
  next
    case (Some arr)
    with True assms(3) have "len < 0" by (auto simp: bulk_panics_def)
    moreover have "\<not> len + 2 < 0" using Some neg bulk_buffer_neg by fastforce
    ultimately have "len = -2" using assms(3) by linarith
    with Some True assms neg show ?thesis by (simp add: readBulkString_def)
  qed
next
  case False
  then have len: "0 \<le> len" using assms(3) by (auto simp: bulk_panics_def)
  have need: "wrap64 (len + 2) = len + 2"
  proof (cases "len + 2 < 2 ^ 63")
    case True
    with len show ?thesis by (simp add: in_int64_def)
  next
    case overflow: False
    moreover from assms(2) have "in_int64 len" by (rule ParseInt_range)
    ultimately have "wrap64 (len + 2) < 0"
      using wrap64_over [of "len + 2"] by (simp add: in_int64_def)
    with False assms(3) show ?thesis by (simp add: bulk_panics_def bulk_buffer_neg)
  qed
  with False assms(3) obtain arr where arr: "bulk_buffer sc (len + 2) = Some arr"
    by (auto simp: bulk_panics_def)
  have n: "nat (len + 2) = nat len + 2" "nat (len + 1) = Suc (nat len)" using len by simp_all
  have c: "int (length r1) < len + 2 \<longleftrightarrow> length r1 < nat len + 2" using len by linarith
  show ?thesis
    using assms False len need arr by (simp add: readBulkString_def Let_def n c nth_append)
qed

lemma readBulkString_null:
  "readLine r = Got (line, r1) \<Longrightarrow> Atoi line = Some (-1) \<Longrightarrow>
     readBulkString sc r = Got ([], r1, sc)"
  by (simp add: readBulkString_def)

lemma readBulkString_cases:
  obtains (line) e where "readLine r = Fail e" "readBulkString sc r = Fail e"
  | (number) line r1 where "readLine r = Got (line, r1)" "Atoi line = None"
      "readBulkString sc r = Fail (InvalidBulkLength line)"
  | (null) line r1 where "readLine r = Got (line, r1)" "Atoi line = Some (-1)"
      "readBulkString sc r = Got ([], r1, sc)"
  | (body) line r1 len where "readLine r = Got (line, r1)" "Atoi line = Some len" "len \<noteq> -1"
proof (cases "readLine r")
  case (Got x)
  obtain line r1 where x: "x = (line, r1)" by fastforce
  show ?thesis
  proof (cases "Atoi line")
    case None
    with Got x number show ?thesis by (simp add: readBulkString_def)
  next
    case (Some len)
    with Got x null body show ?thesis
      by (cases "len = -1") (simp_all add: readBulkString_null)
  qed
qed (use line in \<open>simp_all add: readBulkString_def\<close>)

lemma readBulkString_extend:
  "readBulkString sc r = Got (s, r', sc') \<Longrightarrow> readBulkString sc (r @ x) = Got (s, r' @ x, sc')"
proof (cases rule: readBulkString_cases [where r = r and sc = sc])
  case (body line r1 len)
  moreover from body(1) have "readLine (r @ x) = Got (line, r1 @ x)" by (rule readLine_extend)
  moreover assume "readBulkString sc r = Got (s, r', sc')"
  ultimately show ?thesis
    by (auto simp: readBulkString_body nth_append split: if_splits)
qed (auto intro: readBulkString_null readLine_extend)

lemma readBulkString_Crash:
  "readBulkString sc r = Crash \<Longrightarrow> readBulkString sc (r @ x) = Crash"
proof (cases rule: readBulkString_cases [where r = r and sc = sc])
  case (body line r1 len)
  moreover from body(1) have "readLine (r @ x) = Got (line, r1 @ x)" by (rule readLine_extend)
  moreover assume "readBulkString sc r = Crash"
  ultimately show ?thesis by (auto simp: readBulkString_body split: if_splits)
qed auto


text \<open>
  What has been decoded, or has crashed, does not depend on bytes that arrive later: the
  wire format is prefix-free.
\<close>

lemma decode_extend:
  "\<forall>x. (\<forall>v r' sc'. decode sc r = Got (v, r', sc') \<longrightarrow> decode sc (r @ x) = Got (v, r' @ x, sc'))
     \<and> (decode sc r = Crash \<longrightarrow> decode sc (r @ x) = Crash)"
  "\<forall>x. (\<forall>v r' sc'. readArray sc r = Got (v, r', sc') \<longrightarrow> readArray sc (r @ x) = Got (v, r' @ x, sc'))
     \<and> (readArray sc r = Crash \<longrightarrow> readArray sc (r @ x) = Crash)"
  "\<forall>x. (\<forall>v r' sc'. readElems n i sc r = Got (v, r', sc') \<longrightarrow>
            readElems n i sc (r @ x) = Got (v, r' @ x, sc'))
     \<and> (readElems n i sc r = Crash \<longrightarrow> readElems n i sc (r @ x) = Crash)"
proof (induction sc r and sc r and n i sc r rule: decode_readArray_readElems.induct)
  case (1 sc r)
  show ?case
  proof (cases r)
    case Nil
    then show ?thesis by (simp add: decode.simps)
  next
    case (Cons c r0)
    consider "c \<in> {CHR ''+'', CHR ''-''}" | "c = CHR '':''" | "c = CHR ''$''" | "c = CHR ''*''"
      | "c \<notin> {CHR ''+'', CHR ''-'', CHR '':'', CHR ''$'', CHR ''*''}" by blast
    then show ?thesis
    proof cases
      case 1
      with Cons show ?thesis
        by (cases "readLine r0")
          (auto simp: decode.simps readSimpleString_def readError_def readLine_extend)
    next
      case 2
      with Cons show ?thesis
        by (cases "readInteger r0") (auto simp: decode.simps readInteger_extend)
    next
      case 3
      with Cons show ?thesis
        by (cases "readBulkString sc r0")
          (auto simp: decode.simps readBulkString_extend readBulkString_Crash)
    next
      case 4
      with Cons 1 show ?thesis
        by (cases "readArray sc r0") (auto simp: decode.simps)
    next
      case 5
      with Cons show ?thesis by (simp add: decode.simps)
    qed
  qed
next
  case (2 sc r)
  show ?case
  proof (cases "readLine r")
    case (Got p)
    obtain line r1 where p: "p = (line, r1)" by fastforce
    with Got have ext: "readLine (r @ x) = Got (line, r1 @ x)" for x by (simp add: readLine_extend)
    show ?thesis using 2 [OF Got p [symmetric]] Got p ext
      by (auto simp: readArray.simps split: option.splits)
  qed (simp_all add: readArray.simps)
next
  case (3 n i sc r)
  show ?case
  proof (cases "i < n")
    case True
    then show ?thesis
    proof (cases "decode sc r")
      case (Got p)
      obtain v r1 sc1 where p: "p = (v, r1, sc1)" by (cases p) auto
      with 3(1) True Got have ext: "decode sc (r @ x) = Got (v, r1 @ x, sc1)" for x by blast
      have IH: "readElems n (Suc i) sc1 r1 = Got (vs, r', sc') \<Longrightarrow>
          readElems n (Suc i) sc1 (r1 @ x) = Got (vs, r' @ x, sc')"
        "readElems n (Suc i) sc1 r1 = Crash \<Longrightarrow> readElems n (Suc i) sc1 (r1 @ x) = Crash"
        for vs r' sc' x
        using 3(2) [OF True Got p [symmetric] refl] by blast+
      show ?thesis using True Got p ext IH
        by (auto simp: readElems.simps [of n i] split: reading.splits)
    next
      case Crash
      with 3(1) True show ?thesis by (auto simp: readElems.simps [of n i])
    qed (simp add: readElems.simps [of n i])
  next
    case False
    then show ?thesis by (simp add: readElems.simps [of n i])
  qed
qed

subsection \<open>The scratch buffer changes nothing but allocation\<close>

definition scratch_ok :: "scratch \<Rightarrow> bool" where
  "scratch_ok sc \<longleftrightarrow> (case sc of None \<Rightarrow> True | Some b \<Rightarrow> int (length b) \<le> 2 ^ 48)"

text \<open>Same value, same rest, same failure; the buffer left behind is still a Go slice.\<close>

fun agrees :: "('a \<times> string \<times> scratch) reading \<Rightarrow> ('a \<times> string \<times> scratch) reading \<Rightarrow> bool" where
  "agrees (Got (v, r, sc)) (Got (v', r', sc')) \<longleftrightarrow> v = v' \<and> r = r' \<and> scratch_ok sc \<and> sc' = None"
| "agrees (Fail e) (Fail e') \<longleftrightarrow> e = e'"
| "agrees Crash Crash \<longleftrightarrow> True"
| "agrees _ _ \<longleftrightarrow> False"

lemma agrees_iff:
  "agrees (Got (v, r, sc)) y \<longleftrightarrow> y = Got (v, r, None) \<and> scratch_ok sc"
  "agrees (Fail e) y \<longleftrightarrow> y = Fail e"
  "agrees Crash y \<longleftrightarrow> y = Crash"
  by (cases y; auto)+

lemma bulk_buffer_ok:
  assumes "scratch_ok sc"
  shows "bulk_buffer sc need = None \<longleftrightarrow> bulk_buffer None need = None"
    and "bulk_buffer sc need = Some arr \<Longrightarrow> int (length arr) \<le> 2 ^ 48 \<and> need \<le> int (length arr)"
  using assms by (auto simp: bulk_buffer_def scratch_ok_def make_ok_def split: option.splits if_splits)

lemma bulk_panics_ok: "scratch_ok sc \<Longrightarrow> bulk_panics sc len = bulk_panics None len"
  using bulk_buffer_ok(1) [of sc "wrap64 (len + 2)"] by (auto simp: bulk_panics_def)

lemma readBulkString_agrees:
  assumes "scratch_ok sc"
  shows "agrees (readBulkString sc r) (readBulkString None r)"
proof (cases rule: readBulkString_cases [where r = r and sc = sc])
  case (body line r1 len)
  have "scratch_ok (map_option (\<lambda>_. take (nat len + 2) r1 @
      drop (nat len + 2) (the (bulk_buffer sc (len + 2)))) sc)"
    if "\<not> bulk_panics sc len" "\<not> length r1 < nat len + 2"
  proof -
    from that(1) body(3) have "0 \<le> len" "in_int64 len" "bulk_buffer sc (wrap64 (len + 2)) \<noteq> None"
      using ParseInt_range [OF body(2)] by (auto simp: bulk_panics_def)
    then have "wrap64 (len + 2) = len + 2"
      using wrap64_over [of "len + 2"] bulk_buffer_neg [of "wrap64 (len + 2)" sc]
      by (cases "len + 2 < 2 ^ 63") (auto simp: in_int64_def)
    then obtain arr where "bulk_buffer sc (len + 2) = Some arr"
      using \<open>bulk_buffer sc (wrap64 (len + 2)) \<noteq> None\<close> by auto
    with bulk_buffer_ok(2) [OF assms this] that(2) \<open>0 \<le> len\<close> show ?thesis
      by (auto simp: scratch_ok_def split: option.splits)
  qed
  with body show ?thesis
    by (auto simp: readBulkString_body bulk_panics_ok [OF assms] agrees_iff)
qed (use assms in \<open>auto simp: agrees_iff readBulkString_def\<close>)

lemma decode_agrees:
  "scratch_ok sc \<longrightarrow> agrees (decode sc r) (decode None r)"
  "scratch_ok sc \<longrightarrow> agrees (readArray sc r) (readArray None r)"
  "scratch_ok sc \<longrightarrow> agrees (readElems n i sc r) (readElems n i None r)"
proof (induction sc r and sc r and n i sc r rule: decode_readArray_readElems.induct)
  case (1 sc r)
  show ?case
  proof (intro impI, cases r)
    fix c r0
    assume ok: "scratch_ok sc" and r: "r = c # r0"
    note simps = decode.simps agrees_iff readSimpleString_def readError_def
    consider "c \<in> {CHR ''+'', CHR ''-''}" | "c = CHR '':''" | "c = CHR ''$''" | "c = CHR ''*''"
      | "c \<notin> {CHR ''+'', CHR ''-'', CHR '':'', CHR ''$'', CHR ''*''}" by blast
    then show "agrees (decode sc r) (decode None r)"
    proof cases
      case 1
      with ok r show ?thesis by (cases "readLine r0") (auto simp: simps)
    next
      case 2
      with ok r show ?thesis by (cases "readInteger r0") (auto simp: simps)
    next
      case 3
      with readBulkString_agrees [OF ok, of r0] r show ?thesis
        by (cases "readBulkString sc r0") (auto simp: simps)
    next
      case 4
      with 1 r ok have "agrees (readArray sc r0) (readArray None r0)" by simp
      with 4 r show ?thesis by (cases "readArray sc r0") (auto simp: simps)
    next
      case 5
      with r show ?thesis by (simp add: simps)
    qed
  qed (simp add: decode.simps)
next
  case (2 sc r)
  then show ?case
    by (auto simp: readArray.simps split: reading.splits option.splits)
next
  case (3 n i sc r)
  show ?case
  proof (intro impI)
    assume ok: "scratch_ok sc"
    show "agrees (readElems n i sc r) (readElems n i None r)"
    proof (cases "i < n")
      case True
      with 3(1) ok have d: "agrees (decode sc r) (decode None r)" by simp
      show ?thesis
      proof (cases "decode sc r")
        case (Got p)
        obtain v r1 sc1 where p: "p = (v, r1, sc1)" by (cases p) auto
        with d Got have "decode None r = Got (v, r1, None)" "scratch_ok sc1"
          by (auto simp: agrees_iff)
        moreover from this have "agrees (readElems n (Suc i) sc1 r1) (readElems n (Suc i) None r1)"
          using 3(2) [OF True Got p [symmetric] refl] by simp
        ultimately show ?thesis using True Got p
          by (auto simp: readElems.simps [of n i] agrees_iff split: reading.splits)
      qed (use d True in \<open>auto simp: readElems.simps [of n i] agrees_iff\<close>)
    next
      case False
      with ok show ?thesis by (simp add: readElems.simps [of n i])
    qed
  qed
qed

subsection \<open>Replies and their encodings\<close>

text \<open>
  The replies a handler can build with the encoders, as one type; \<open>reply_ok\<close> says what
  the encoders' comments ask of their arguments, \<open>any_view\<close> what the decoder makes of them.
\<close>

datatype reply =
    SimpleR string
  | ErrorR string
  | IntR int
  | BulkR string
  | NullR
  | ArrayR "reply list"

fun encode_reply :: "reply \<Rightarrow> string" where
  "encode_reply (SimpleR s) = EncodeSimpleString s"
| "encode_reply (ErrorR s) = EncodeError s"
| "encode_reply (IntR n) = EncodeInteger n"
| "encode_reply (BulkR s) = EncodeBulkString s"
| "encode_reply NullR = EncodeNullBulkString"
| "encode_reply (ArrayR rs) = EncodeRawArray (map encode_reply rs)"

definition bulk_ok :: "string \<Rightarrow> bool" where
  "bulk_ok s \<longleftrightarrow> int (length s) + 2 \<le> 2 ^ 48"

fun reply_ok :: "reply \<Rightarrow> bool" where
  "reply_ok (SimpleR s) \<longleftrightarrow> LF \<notin> set s"
| "reply_ok (ErrorR s) \<longleftrightarrow> LF \<notin> set s"
| "reply_ok (IntR n) \<longleftrightarrow> in_int64 n"
| "reply_ok (BulkR s) \<longleftrightarrow> bulk_ok s"
| "reply_ok NullR \<longleftrightarrow> True"
| "reply_ok (ArrayR rs) \<longleftrightarrow> int (length rs) * 16 \<le> 2 ^ 48 \<and> list_all reply_ok rs"

fun any_view :: "reply \<Rightarrow> any" where
  "any_view (SimpleR s) = StrV s"
| "any_view (ErrorR s) = StrV s"
| "any_view (IntR n) = IntV n"
| "any_view (BulkR s) = StrV s"
| "any_view NullR = StrV []"
| "any_view (ArrayR rs) = ArrV (map any_view rs)"

lemma foldl_append_concat: "foldl (\<lambda>out x. out @ f x) acc xs = acc @ concat (map f xs)"
  by (induction xs arbitrary: acc) auto

lemma EncodeRawArray_eq:
  "EncodeRawArray items = CHR ''*'' # FormatInt (int (length items)) @ CR # LF # concat items"
  by (simp add: EncodeRawArray_def foldl_append_concat [where f = "\<lambda>x. x", simplified])

lemma EncodeArray_eq: "EncodeArray args = EncodeRawArray (map EncodeBulkString args)"
  by (simp add: EncodeArray_def EncodeRawArray_eq foldl_append_concat)

lemma FormatInt_no_LF [simp]: "LF \<notin> set (FormatInt n)"
  using FormatInt_no_eol by blast

lemma readBulkString_Encode:
  assumes "bulk_ok s"
  shows "\<exists>sc'. readBulkString sc (FormatInt (int (length s)) @ CR # LF # s @ CR # LF # r) = Got (s, r, sc')"
proof -
  let ?n = "int (length s)"
  from assms have n: "in_int64 ?n" "make_ok (?n + 2) 1" "wrap64 (?n + 2) = ?n + 2"
    by (auto simp: bulk_ok_def in_int64_def make_ok_def intro: wrap64_id)
  then have "\<not> bulk_panics sc ?n"
    by (auto simp: bulk_panics_def bulk_buffer_def split: option.splits)
  with n show ?thesis
    using readBulkString_body [of "FormatInt ?n @ CR # LF # s @ CR # LF # r" "FormatInt ?n"
        "s @ CR # LF # r" ?n sc]
    by (simp add: nth_append)
qed

lemma decode_bulk:
  "bulk_ok s \<Longrightarrow> \<exists>sc'. decode sc (EncodeBulkString s @ r) = Got (StrV s, r, sc')"
  using readBulkString_Encode [of s sc r] by (auto simp: decode.simps EncodeBulkString_def)

lemma readElems_items:
  assumes "\<And>x sc r. x \<in> set xs \<Longrightarrow> \<exists>sc'. decode sc (enc x @ r) = Got (v x, r, sc')"
  shows "\<exists>sc'. readElems (i + length xs) i sc (concat (map enc xs) @ r) = Got (map v xs, r, sc')"
  using assms
proof (induction xs arbitrary: i sc)
  case Nil
  then show ?case by (simp add: readElems.simps)
next
  case (Cons x xs)
  then obtain sc1 where "decode sc (enc x @ concat (map enc xs) @ r) =
      Got (v x, concat (map enc xs) @ r, sc1)" by fastforce
  moreover obtain sc2 where "readElems (Suc i + length xs) (Suc i) sc1 (concat (map enc xs) @ r) =
      Got (map v xs, r, sc2)" using Cons.IH [of "Suc i" sc1] Cons.prems by auto
  ultimately show ?case by (simp add: readElems.simps [of "Suc (i + length xs)" i])
qed

lemma decode_items:
  assumes "\<And>x sc r. x \<in> set xs \<Longrightarrow> \<exists>sc'. decode sc (enc x @ r) = Got (v x, r, sc')"
    and "int (length xs) * 16 \<le> 2 ^ 48"
  shows "\<exists>sc'. decode sc (EncodeRawArray (map enc xs) @ r) = Got (ArrV (map v xs), r, sc')"
proof -
  have "in_int64 (int (length xs))" "make_ok (int (length xs)) 16"
    using assms(2) by (auto simp: in_int64_def make_ok_def)
  moreover obtain sc' where "readElems (0 + length xs) 0 sc (concat (map enc xs) @ r) =
      Got (map v xs, r, sc')" using readElems_items assms(1) by blast
  ultimately show ?thesis
    by (auto simp: EncodeRawArray_eq decode.simps readArray.simps)
qed

lemma decode_encode_reply:
  "reply_ok v \<Longrightarrow> \<exists>sc'. decode sc (encode_reply v @ r) = Got (any_view v, r, sc')"
proof (induction v arbitrary: sc r)
  case (IntR n)
  then show ?case
    by (auto simp: EncodeInteger_def decode.simps readInteger_def)
next
  case (BulkR s)
  then show ?case by (simp add: decode_bulk)
next
  case NullR
  have "readLine (''-1'' @ CR # LF # r) = Got (''-1'', r)" by (intro readLine_line) simp
  moreover have "Atoi ''-1'' = Some (-1)"
    by (simp add: ParseInt_def is_digit_def digit_val_def)
  ultimately have "readBulkString sc (''-1'' @ CR # LF # r) = Got ([], r, sc)"
    by (rule readBulkString_null)
  then show ?case by (simp add: EncodeNullBulkString_def decode.simps)
next
  case (ArrayR rs)
  then show ?case
    using decode_items [of rs encode_reply any_view sc r] by (auto simp: list_all_iff)
qed (simp_all add: EncodeSimpleString_def EncodeError_def decode.simps readSimpleString_def readError_def)

definition args_ok :: "string list \<Rightarrow> bool" where
  "args_ok args \<longleftrightarrow> int (length args) * 16 \<le> 2 ^ 48 \<and> list_all bulk_ok args"

definition args_view :: "string list \<Rightarrow> any" where
  "args_view args = ArrV (map StrV args)"

lemma decode_EncodeArray:
  "args_ok args \<Longrightarrow> \<exists>sc'. decode sc (EncodeArray args @ r) = Got (args_view args, r, sc')"
  unfolding EncodeArray_eq args_view_def
  by (rule decode_items) (auto simp: args_ok_def list_all_iff intro: decode_bulk)

subsection \<open>Framing\<close>

text \<open>
  What a client of a self-delimiting wire format relies on: an encoded item is read back
  whatever follows it, and a reading does not change when more bytes arrive. Both the
  commands of a client (and of the append-only file) and the replies of the server are
  such formats.
\<close>

locale framed =
  fixes enc :: "'a \<Rightarrow> string"
    and dec :: "string \<Rightarrow> ('b \<times> string) reading"
    and valid :: "'a \<Rightarrow> bool"
    and item :: "'a \<Rightarrow> 'b"
  assumes dec_enc: "valid x \<Longrightarrow> dec (enc x @ r) = Got (item x, r)"
    and dec_Nil: "dec [] = Fail EOF"
    and dec_more: "dec r = Got (v, r') \<Longrightarrow> dec (r @ later) = Got (v, r' @ later)"
    and dec_Crash: "dec r = Crash \<Longrightarrow> dec (r @ later) = Crash"
begin

lemma enc_not_Nil: "valid x \<Longrightarrow> enc x \<noteq> []"
  using dec_enc [of x "[]"] dec_Nil by auto

text \<open>A proper prefix of an encoded item is recognised as incomplete.\<close>

lemma torn_fails:
  assumes "valid x" "enc x = p @ q" "q \<noteq> []"
  shows "\<exists>e. dec p = Fail e"
proof (cases "dec p")
  case (Got w)
  then obtain v r where "dec p = Got (v, r)" by (cases w) auto
  then have "dec (p @ q) = Got (v, r @ q)" by (rule dec_more)
  with dec_enc [OF assms(1), of "[]"] assms(2,3) show ?thesis by simp
next
  case Crash
  then have "dec (p @ q) = Crash" by (rule dec_Crash)
  with dec_enc [OF assms(1), of "[]"] assms(2) show ?thesis by simp
qed auto

text \<open>A stream has at most one reading: items cannot be confused with their neighbours.\<close>

lemma stream_unique:
  assumes "list_all valid xs" "list_all valid ys" "concat (map enc xs) = concat (map enc ys)"
  shows "map item xs = map item ys"
  using assms
proof (induction xs arbitrary: ys)
  case Nil
  then show ?case using enc_not_Nil by (cases ys) auto
next
  case (Cons x xs)
  then obtain y ys' where ys: "ys = y # ys'" using enc_not_Nil by (cases ys) auto
  with Cons.prems have "Got (item x, concat (map enc xs)) = Got (item y, concat (map enc ys'))"
    using dec_enc [of x "concat (map enc xs)"] dec_enc [of y "concat (map enc ys')"] by simp
  with Cons ys show ?case by auto
qed

end

lemma Decode_more: "Decode r = Got (v, r') \<Longrightarrow> Decode (r @ x) = Got (v, r' @ x)"
  using decode_extend(1) [of None r] by (fastforce simp: Decode_def split: reading.splits)

lemma Decode_Crash: "Decode r = Crash \<Longrightarrow> Decode (r @ x) = Crash"
  using decode_extend(1) [of None r] by (auto simp: Decode_def split: reading.splits)

lemma Decode_Nil [simp]: "Decode [] = Fail EOF"
  by (simp add: Decode_def decode.simps)

lemma Decode_of_decode: "\<exists>sc'. decode None r = Got (v, r', sc') \<Longrightarrow> Decode r = Got (v, r')"
  by (auto simp: Decode_def)

interpretation rep: framed encode_reply Decode reply_ok any_view
  by unfold_locales
    (auto intro: Decode_of_decode decode_encode_reply Decode_more Decode_Crash)

interpretation cmd: framed EncodeArray Decode args_ok args_view
  by unfold_locales
    (auto intro: Decode_of_decode decode_EncodeArray Decode_more Decode_Crash)

subsection \<open>Properties\<close>



text \<open>
  A command encoded as an array of bulk strings, its arguments holding any bytes,
  is decoded to exactly its arguments, and the rest of the stream is untouched.
\<close>

lemma command_roundtrip:
  assumes "args_ok args"
  shows "Decode (EncodeArray args @ rest) = Got (ArrV (map StrV args), rest)"
  using cmd.dec_enc [OF assms] by (simp add: args_view_def)

text \<open>
  C24: a \<^verbatim>\<open>Decoder\<close>, which reuses its scratch buffer across calls, returns what
  \<^verbatim>\<open>Decode\<close> returns with a fresh buffer: the same value and rest, the same error, the
  same crash; and the buffer it keeps stays within what \<^verbatim>\<open>make\<close> can allocate, so the
  next call is covered too (a new decoder starts with an empty buffer).
\<close>

theorem Decoder_simulates_Decode:
  assumes "int (length (dec_scratch d)) \<le> 2 ^ 48"
  shows "case Decoder_Decode d of
      Got (v, d') \<Rightarrow> Decode (dec_r d) = Got (v, dec_r d') \<and> int (length (dec_scratch d')) \<le> 2 ^ 48
    | Fail e \<Rightarrow> Decode (dec_r d) = Fail e
    | Crash \<Rightarrow> Decode (dec_r d) = Crash"
proof -
  have "scratch_ok (Some (dec_scratch d))" using assms by (simp add: scratch_ok_def)
  then have "agrees (decode (Some (dec_scratch d)) (dec_r d)) (decode None (dec_r d))"
    using decode_agrees(1) by blast
  then show ?thesis
    by (cases "decode (Some (dec_scratch d)) (dec_r d)")
      (auto simp: Decoder_Decode_def Decode_def agrees_iff scratch_ok_def split: option.splits)
qed

theorem Decoder_simulates_Decode_witness:
  "Decoder_Decode (NewDecoder (EncodeArray [''GET'', ''k''])) \<noteq> Crash"
proof -
  have s: "int (length (dec_scratch (NewDecoder (EncodeArray [''GET'', ''k''])))) \<le> 2 ^ 48"
    by (simp add: NewDecoder_def)
  have "args_ok [''GET'', ''k'']" by (simp add: args_ok_def bulk_ok_def)
  then have "Decode (EncodeArray [''GET'', ''k'']) \<noteq> Crash"
    using cmd.dec_enc [of "[''GET'', ''k'']" "[]"] by simp
  with Decoder_simulates_Decode [OF s] show ?thesis
    by (auto simp: NewDecoder_def split: reading.splits)
qed

text \<open>
  An announced length below -1, of an array or of a bulk string, makes the decoder panic
  (\<^verbatim>\<open>make\<close> with a negative length, or an index below zero) instead of returning an error.
  No goroutine recovers, so five bytes from any client end the process.
\<close>

lemma negative_length_panics:
  assumes "in_int64 n" and "n < -1"
  shows "Decode (''*'' @ FormatInt n @ CRLF @ rest) = Crash \<and>
    Decode (''$'' @ FormatInt n @ CRLF @ rest) = Crash"
  using assms readBulkString_body [of "FormatInt n @ CR # LF # rest" "FormatInt n" rest n None]
  by (simp add: Decode_def decode.simps readArray.simps make_ok_def bulk_panics_def)

end
