(* ===== verification/Aof.thy ===== *)
theory Aof
  imports Resp "HOL-Library.Sublist"
begin

text \<open>
  The append-only file of \<^verbatim>\<open>core/aof.go\<close>: its contents are the bytes written so far
  (\<^verbatim>\<open>O_APPEND\<close>), \<^verbatim>\<open>Write\<close> adds one encoded command, \<^verbatim>\<open>Recover\<close> decodes the file
  from the start. \<^verbatim>\<open>Sync\<close> is in the theory of durability; \<^verbatim>\<open>Close\<close> changes no data.
\<close>

record AOF =
  contents :: string

text \<open>
  \<^verbatim>\<open>NewAOF\<close>: opening fails, or gives the file with what it already holds (\<open>existing\<close>
  is empty for a file just created). Nothing is truncated.
\<close>

definition NewAOF :: "string option \<Rightarrow> string + AOF" where
  "NewAOF existing =
     (case existing of None \<Rightarrow> Inl ''Error while reading AOF file'' | Some b \<Rightarrow> Inr \<lparr>contents = b\<rparr>)"

text \<open>
  \<^verbatim>\<open>Write\<close>: the operating system accepts \<open>n\<close> bytes of the encoded command; the call
  returns an error (\<open>True\<close>) exactly when that is fewer than it was given.
\<close>

definition AOF_Write :: "nat \<Rightarrow> string list \<Rightarrow> AOF \<Rightarrow> bool \<times> AOF" where
  "AOF_Write n args a =
     (let b = EncodeArray args in (n < length b, a\<lparr>contents := contents a @ take n b\<rparr>))"

text \<open>\<open>arg_of\<close>: an element that is no string leaves \<^verbatim>\<open>args[i]\<close> the empty string.\<close>

fun arg_of :: "any \<Rightarrow> string" where
  "arg_of (StrV s) = s"
| "arg_of _ = []"

text \<open>
  The loop of \<^verbatim>\<open>Recover\<close> over the bytes still unread: the argument lists handed to
  \<^verbatim>\<open>fn\<close>, in order.
\<close>

function replay_calls :: "string \<Rightarrow> string list list outcome" where
  "replay_calls r =
     (case Decode r of
        Fail e \<Rightarrow> Ret []
      | Crash \<Rightarrow> Panic
      | Got (v, r') \<Rightarrow>
          (case v of
             ArrV arr \<Rightarrow> obind (replay_calls r') (\<lambda>cs. Ret (map arg_of arr # cs))
           | _ \<Rightarrow> replay_calls r'))"
  by pat_completeness auto
termination
  by (relation "measure length") (auto dest: Decode_length)

declare replay_calls.simps [simp del]

definition AOF_Recover :: "bool \<Rightarrow> AOF \<Rightarrow> (string + string list list) outcome" where
  "AOF_Recover seek_ok a =
     (if \<not> seek_ok then Ret (Inl ''AOF seek'')
      else obind (replay_calls (contents a)) (\<lambda>cs. Ret (Inr cs)))"

text \<open>A log: the bytes of commands written one after the other, all of them accepted.\<close>

definition log :: "string list list \<Rightarrow> string" where
  "log cmds = concat (map EncodeArray cmds)"

lemma log_simps [simp]:
  "log [] = []" "log (c # cs) = EncodeArray c @ log cs" "log (cs @ ds) = log cs @ log ds"
  by (simp_all add: log_def)

lemma AOF_Write_log:
  "contents a = log cmds \<Longrightarrow> length (EncodeArray args) \<le> n \<Longrightarrow>
     AOF_Write n args a = (False, a\<lparr>contents := log (cmds @ [args])\<rparr>)"
  by (simp add: AOF_Write_def Let_def)

lemma replay_command:
  "args_ok args \<Longrightarrow>
     replay_calls (EncodeArray args @ r) = obind (replay_calls r) (\<lambda>cs. Ret (args # cs))"
proof -
  assume "args_ok args"
  then have "Decode (EncodeArray args @ r) = Got (ArrV (map StrV args), r)"
    using cmd.dec_enc by (simp add: args_view_def)
  moreover have "map arg_of (map StrV args) = args" by (induction args) auto
  ultimately show ?thesis by (simp add: replay_calls.simps [of "EncodeArray args @ r"])
qed

lemma replay_log:
  "list_all args_ok cmds \<Longrightarrow>
     replay_calls (log cmds @ r) = obind (replay_calls r) (\<lambda>cs. Ret (cmds @ cs))"
proof (induction cmds)
  case Nil
  then show ?case by (cases "replay_calls r") simp_all
next
  case (Cons c cs)
  then show ?case by (cases "replay_calls r") (simp_all add: replay_command)
qed

lemma replay_fail: "Decode r = Fail e \<Longrightarrow> replay_calls r = Ret []"
  by (simp add: replay_calls.simps)

lemma replay_torn_command:
  assumes "args_ok c" "strict_prefix p (EncodeArray c)"
  shows "replay_calls p = Ret []"
proof -
  from assms(2) obtain q where "EncodeArray c = p @ q" "q \<noteq> []"
    by (auto elim: strict_prefixE')
  with cmd.torn_fails [OF assms(1)] replay_fail show ?thesis by blast
qed

text \<open>Where a prefix of a log ends: after \<open>k\<close> whole commands, inside the next one.\<close>

lemma log_prefix_cases:
  assumes "prefix p (log cmds)"
  obtains k t where "k \<le> length cmds" "p = log (take k cmds) @ t"
    "t = [] \<and> k = length cmds \<or> k < length cmds \<and> strict_prefix t (EncodeArray (cmds ! k))"
  using assms
proof (induction cmds arbitrary: p thesis)
  case Nil
  then show ?case by (metis append_Nil2 le_refl list.size(3) log_simps(1) prefix_Nil take_Nil)
next
  case (Cons c cs)
  show ?case
  proof (cases "prefix (EncodeArray c) p")
    case True
    then obtain p' where p: "p = EncodeArray c @ p'" by (auto elim: prefixE)
    with Cons.prems(2) have "prefix p' (log cs)" by simp
    then obtain k t where "k \<le> length cs" "p' = log (take k cs) @ t"
      "t = [] \<and> k = length cs \<or> k < length cs \<and> strict_prefix t (EncodeArray (cs ! k))"
      using Cons.IH by blast
    with p show ?thesis by (intro Cons.prems(1) [of "Suc k" t]) auto
  next
    case False
    with Cons.prems(2) have "strict_prefix p (EncodeArray c)"
      using prefix_same_cases [of p "EncodeArray c @ log cs" "EncodeArray c"]
      by (auto simp: strict_prefix_def)
    then show ?thesis by (intro Cons.prems(1) [of 0 p]) auto
  qed
qed

subsection \<open>Properties\<close>

text \<open>
  Replaying a file to which the commands \<open>cmds\<close> were written hands exactly those
  commands, in order and with every byte of their arguments, to the executor.
\<close>

lemma recover_all:
  assumes "list_all args_ok cmds" "contents a = log cmds"
  shows "AOF_Recover True a = Ret (Inr cmds)"
  using replay_log [OF assms(1), of "[]"] assms(2) by (simp add: AOF_Recover_def replay_fail)

text \<open>
  C23: a file cut short at any byte by a crash still loads every command that is complete
  in it, in order, and nothing else: the decoder neither panics on the torn tail nor
  takes it for a command.
\<close>

theorem recover_cut:
  assumes "list_all args_ok cmds" "prefix (contents a) (log cmds)"
  shows "\<exists>k \<le> length cmds. AOF_Recover True a = Ret (Inr (take k cmds)) \<and>
    prefix (log (take k cmds)) (contents a) \<and>
    (k < length cmds \<longrightarrow> length (contents a) < length (log (take (Suc k) cmds)))"
proof -
  from assms(2) obtain k t where k: "k \<le> length cmds" "contents a = log (take k cmds) @ t"
    "t = [] \<and> k = length cmds \<or> k < length cmds \<and> strict_prefix t (EncodeArray (cmds ! k))"
    by (rule log_prefix_cases)
  have ok: "list_all args_ok (take k cmds)"
    using assms(1) by (auto simp: list_all_iff dest: in_set_takeD)
  have "replay_calls t = Ret []"
    using k(3) assms(1) replay_torn_command [of "cmds ! k" t] by (auto simp: replay_fail list_all_length)
  then have "AOF_Recover True a = Ret (Inr (take k cmds))"
    using replay_log [OF ok, of t] k(2) by (simp add: AOF_Recover_def)
  moreover have "k < length cmds \<Longrightarrow> length (contents a) < length (log (take (Suc k) cmds))"
    using k(2,3) by (auto simp: take_Suc_conv_app_nth dest: prefix_length_less)
  ultimately show ?thesis using k(1,2) by auto
qed

theorem recover_cut_witness:
  "\<exists>k \<le> 1. AOF_Recover True \<lparr>contents = ''*1''\<rparr> = Ret (Inr (take k [[''PING'']]))"
proof -
  have "list_all args_ok [[''PING'']]" by (simp add: args_ok_def bulk_ok_def)
  moreover have "prefix (contents \<lparr>contents = ''*1''\<rparr>) (log [[''PING'']])"
    by (simp add: EncodeArray_def FormatInt_def show_nat.simps digit_char_def)
  ultimately show ?thesis using recover_cut [of "[[''PING'']]" "\<lparr>contents = ''*1''\<rparr>"] by auto
qed



end
