(* ===== verification/Commands.thy ===== *)
theory Commands
  imports Evict Layout Aof
begin

text \<open>
  The command handlers of \<^verbatim>\<open>commands/\<close>: one definition per handler, on the argument list
  and the store, giving the new store and the encoded reply; the CLUSTER replies.
\<close>

text \<open>
  Settings of \<^verbatim>\<open>config\<close> and the layout of \<^verbatim>\<open>cluster\<close>, fixed after startup; \<open>sort_Entries\<close> is
  \<^verbatim>\<open>sort.Slice\<close> as \<^verbatim>\<open>clusterSlots\<close> calls it.
\<close>

record ctx =
  MaxMemory :: int
  MaxMemoryPolicy :: string
  MaxMemorySamples :: int
  ClusterEnabled :: bool
  Current :: "Layout option"
  sort_Entries :: "(SlotRange \<times> nat) list \<Rightarrow> (SlotRange \<times> nat) list"

text \<open>A string between single quotes.\<close>

definition quoted :: "string \<Rightarrow> string" where
  "quoted s = CHR 0x27 # s @ [CHR 0x27]"

type_synonym handler = "env \<Rightarrow> ctx \<Rightarrow> string list \<Rightarrow> Store \<Rightarrow> (Store \<times> string) outcome"

subsection \<open>Strings and numbers\<close>

definition handlePing :: handler where
  "handlePing E C args s =
     Ret (s, if length args = 0 then EncodeSimpleString ''PONG''
             else if length args = 1 then EncodeBulkString (args ! 0)
             else EncodeError ''ERR wrong number of arguments for 'ping' command'')"

definition handleGet :: handler where
  "handleGet E C args s =
     (if length args \<noteq> 1 then Ret (s, EncodeError ''ERR wrong number of arguments for 'get' command'')
      else obind (Get E (args ! 0) s) (\<lambda>(s', r).
        Ret (s', case r of None \<Rightarrow> EncodeNullBulkString | Some value \<Rightarrow> EncodeBulkString value)))"

text \<open>\<^verbatim>\<open>time.Duration\<close> is a 64-bit number of nanoseconds and wraps.\<close>

definition handleSet :: handler where
  "handleSet E C args s =
     (if length args \<noteq> 2 \<and> length args \<noteq> 4
      then Ret (s, EncodeError ''ERR wrong number of arguments for 'set' command'')
      else if length args = 4
      then let opt = ToUpper (uniUpper E) (args ! 2)
           in (case Atoi (args ! 3) of
                 None \<Rightarrow> Ret (s, EncodeError ''ERR invalid expire time in 'set' command'')
               | Some n \<Rightarrow>
                   if n \<le> 0 then Ret (s, EncodeError ''ERR invalid expire time in 'set' command'')
                   else if opt = ''EX''
                   then Ret (Set (args ! 0) (args ! 1) (wrap64 (n * 10 ^ 9)) s, EncodeSimpleString ''OK'')
                   else if opt = ''PX''
                   then Ret (Set (args ! 0) (args ! 1) (wrap64 (n * 10 ^ 6)) s, EncodeSimpleString ''OK'')
                   else Ret (s, EncodeError ''ERR syntax error''))
      else Ret (Set (args ! 0) (args ! 1) 0 s, EncodeSimpleString ''OK''))"

definition handleAppend :: handler where
  "handleAppend E C args s =
     (if length args \<noteq> 2 then Ret (s, EncodeError ''ERR wrong number of arguments for 'append' command'')
      else obind (Append E (args ! 0) (args ! 1) s) (\<lambda>(s', newLen). Ret (s', EncodeInteger newLen)))"

text \<open>\<^verbatim>\<open>time.Until\<close> reads the wall clock, not the store's.\<close>

definition handleIncr :: handler where
  "handleIncr E C args s =
     (if length args \<noteq> 1 then Ret (s, EncodeError ''ERR incorrect arguments for INCR'')
      else let key = args ! 0
           in obind (GetInt E key s) (\<lambda>(s1, n, exists, err, expiry).
              if err then Ret (s1, EncodeError ''ERR while incrementing'')
              else let n0 = (if \<not> exists then 0 else n);
                       ttl = (case expiry of None \<Rightarrow> 0 | Some t \<Rightarrow> clamp64 (t - wall E));
                       n1 = wrap64 (n0 + 1)
                   in Ret (Set key (FormatInt n1) ttl s1, EncodeInteger n1)))"

definition handleExpire :: handler where
  "handleExpire E C args s =
     (if length args \<noteq> 2 then Ret (s, EncodeError ''ERR wrong number of arguments for EXPIRE command'')
      else (case Atoi (args ! 1) of
              None \<Rightarrow> Ret (s, EncodeError ''ERR invalid expire time for EXPIRE command'')
            | Some n \<Rightarrow>
                obind (Get E (args ! 0) s) (\<lambda>(s1, r).
                  (case r of
                     None \<Rightarrow> Ret (s1, EncodeError ''Cannot find key in the hashmap'')
                   | Some value \<Rightarrow> Ret (Set (args ! 0) value (wrap64 (n * 10 ^ 9)) s1, EncodeInteger 1)))))"

definition handleTTL :: handler where
  "handleTTL E C args s =
     (if length args \<noteq> 1 then Ret (s, EncodeError ''ERR wrong number of arguments for 'ttl' command'')
      else let (s', seconds) = TTL (args ! 0) s in Ret (s', EncodeInteger seconds))"

definition handleDel :: handler where
  "handleDel E C args s =
     (if length args < 1 then Ret (s, EncodeError ''ERR wrong number of arguments for 'del' command'')
      else let (s', n) = Delete args s in Ret (s', EncodeInteger n))"

definition handleObject :: handler where
  "handleObject E C args s =
     (if length args < 2 then Ret (s, EncodeError ''ERR wrong number of arguments for 'object' command'')
      else let subcommand = ToUpper (uniUpper E) (args ! 0); key = args ! 1
      in if subcommand = ''ENCODING''
         then let (s', enc) = GetEncoding key s
              in Ret (s', case enc of
                            None \<Rightarrow> EncodeError ''ERR no such key''
                          | Some EncodingINT \<Rightarrow> EncodeBulkString ''int''
                          | Some EncodingEMBSTR \<Rightarrow> EncodeBulkString ''embstr''
                          | Some EncodingRAW \<Rightarrow> EncodeBulkString ''str''
                          | Some EncodingHLL \<Rightarrow> EncodeError ''ERR unknown encoding'')
         else if subcommand = ''FREQ''
         then let (s', freq) = GetFreq key s
              in Ret (s', case freq of
                            None \<Rightarrow> EncodeError (''ERR An LFU maxmemory policy is not selected, access frequency not tracked. '' @
                              ''Please note that when switching between maxmemory policies at runtime LFU and LRU data will take some time to adjust.'')
                          | Some None \<Rightarrow> EncodeError ''ERR no such key''
                          | Some (Some c) \<Rightarrow> EncodeInteger (uint c))
         else Ret (s, EncodeError (''ERR unknown subcommand for '' @ quoted ''object'')))"

subsection \<open>HyperLogLog\<close>

definition ErrNotHLL :: string where
  "ErrNotHLL = ''WRONGTYPE Key is not a valid HyperLogLog string value.''"

definition handlePFAdd :: handler where
  "handlePFAdd E C args s =
     (if length args < 1 then Ret (s, EncodeError ''Incorrect number of arguments for pfadd'')
      else obind (PFAdd E (args ! 0) (drop 1 args) s) (\<lambda>(s', r).
        Ret (s', case r of
                   None \<Rightarrow> EncodeError ErrNotHLL
                 | Some changed \<Rightarrow> if changed then EncodeInteger 1 else EncodeInteger 0)))"

definition handlePFCount :: handler where
  "handlePFCount E C args s =
     (if length args \<noteq> 1 then Ret (s, EncodeError ''Incorrect number of arguments for PFCount'')
      else obind (PFCount E (args ! 0) s) (\<lambda>(s', n). Ret (s', EncodeInteger n)))"

definition handlePFMerge :: handler where
  "handlePFMerge E C args s =
     (if length args < 1 then Ret (s, EncodeError ''Incorrect number of arguments for PFMerge'')
      else obind (PFMerge (args ! 0) (drop 1 args) s) (\<lambda>s'. Ret (s', EncodeSimpleString ''OK'')))"

subsection \<open>Introspection\<close>

definition handleDebug :: handler where
  "handleDebug E C args s =
     Ret (s, if length args = 0 then EncodeError ''ERR DEBUG subcommand required''
             else if ToUpper (uniUpper E) (args ! 0) = ''MEMORY'' then EncodeInteger (UsedMemory s)
             else if ToUpper (uniUpper E) (args ! 0) = ''KEYS'' then EncodeInteger (KeyCount s)
             else EncodeError (''ERR unknown DEBUG subcommand '' @ quoted (args ! 0)))"

definition infoCluster :: "ctx \<Rightarrow> string" where
  "infoCluster C = ''# Cluster'' @ CRLF @ ''cluster_enabled:'' @ FormatInt (if ClusterEnabled C then 1 else 0) @ CRLF"

definition infoKeyspace :: "Store \<Rightarrow> string" where
  "infoKeyspace s =
     ''# Keyspace'' @ CRLF @ ''db0:keys='' @ FormatInt (KeyspaceStat s 0 ''keys'') @
     '',expires='' @ FormatInt (KeyspaceStat s 0 ''expires'') @
     '',avg_ttl='' @ FormatInt (KeyspaceStat s 0 ''avg_ttl'') @ CRLF"

definition handleInfo :: handler where
  "handleInfo E C args s =
     (let sect = (if length args > 0 then ToLower (uniLower E) (args ! 0) else ''all'')
      in Ret (s, if sect = ''cluster'' then EncodeBulkString (infoCluster C)
                 else if sect = ''keyspace'' then EncodeBulkString (infoKeyspace s)
                 else if sect = ''all'' then EncodeBulkString (infoCluster C @ CRLF @ infoKeyspace s)
                 else EncodeBulkString []))"

definition handleExpiry :: handler where
  "handleExpiry E C args s =
     (let (s', deleted) = DeleteExpired E s in Ret (s', EncodeInteger (int deleted)))"

subsection \<open>CLUSTER\<close>

text \<open>
  \<^verbatim>\<open>splitAddr\<close>: without a colon the slice expression panics. The layout's addresses end
  in a number.
\<close>

definition splitAddr :: "string \<Rightarrow> (string \<times> int) outcome" where
  "splitAddr addr =
     (case last_index addr (CHR '':'') of
        None \<Rightarrow> Panic
      | Some i \<Rightarrow> Ret (take i addr, case Atoi (drop (i + 1) addr) of None \<Rightarrow> 0 | Some port \<Rightarrow> port))"

fun omap :: "('a \<Rightarrow> 'b outcome) \<Rightarrow> 'a list \<Rightarrow> 'b list outcome" where
  "omap f [] = Ret []"
| "omap f (x # xs) = obind (f x) (\<lambda>y. obind (omap f xs) (\<lambda>ys. Ret (y # ys)))"

definition slot_entry :: "Layout \<Rightarrow> SlotRange \<times> nat \<Rightarrow> string outcome" where
  "slot_entry l e =
     obind (splitAddr (Addr (Nodes l ! snd e))) (\<lambda>(host, port).
       Ret (EncodeRawArray
         [EncodeInteger (Start (fst e)), EncodeInteger (End (fst e)),
          EncodeRawArray
            [EncodeBulkString host, EncodeInteger port, EncodeBulkString (ID (Nodes l ! snd e)), EncodeRawArray []]]))"

definition clusterSlots :: "ctx \<Rightarrow> Layout \<Rightarrow> string outcome" where
  "clusterSlots C l =
     (let entries = concat (map (\<lambda>i. map (\<lambda>r. (r, i)) (Slots (Nodes l ! i))) [0..<length (Nodes l)])
      in obind (omap (slot_entry l) (sort_Entries C entries)) (\<lambda>out. Ret (EncodeRawArray out)))"

definition range_text :: "SlotRange \<Rightarrow> string" where
  "range_text r =
     (if Start r = End r then '' '' @ FormatInt (Start r)
      else '' '' @ FormatInt (Start r) @ ''-'' @ FormatInt (End r))"

definition node_line :: "Layout \<Rightarrow> nat \<Rightarrow> string outcome" where
  "node_line l i =
     (let n = Nodes l ! i
      in obind (splitAddr (Addr n)) (\<lambda>(host, port).
         let flags = (if Self l = Some i then ''myself,master'' else ''master'')
         in Ret (ID n @ '' '' @ host @ '':'' @ FormatInt port @ ''@'' @ FormatInt (wrap64 (port + 10000)) @ '' '' @
                 flags @ '' - 0 0 '' @ FormatInt (int i + 1) @ '' connected'' @
                 concat (map range_text (Slots n)) @ [LF])))"

definition clusterNodes :: "Layout \<Rightarrow> string outcome" where
  "clusterNodes l = obind (omap (node_line l) [0..<length (Nodes l)]) (\<lambda>ls. Ret (concat ls))"

definition slots_assigned :: "Layout \<Rightarrow> int" where
  "slots_assigned l = (\<Sum>n \<leftarrow> Nodes l. \<Sum>r \<leftarrow> Slots n. End r - Start r + 1)"

text \<open>The lines are joined with CRLF, and one more ends the text.\<close>

definition clusterInfo :: "Layout \<Rightarrow> string" where
  "clusterInfo l =
     (let assigned = slots_assigned l;
          size = int (length (filter (\<lambda>n. Slots n \<noteq> []) (Nodes l)));
          myEpoch = (case Self l of None \<Rightarrow> 0 | Some i \<Rightarrow> int i + 1);
          state = (if assigned < int NumSlots then ''fail'' else ''ok'')
      in concat (map (\<lambda>line. line @ CRLF)
           [''cluster_state:'' @ state,
            ''cluster_slots_assigned:'' @ FormatInt assigned,
            ''cluster_slots_ok:'' @ FormatInt assigned,
            ''cluster_slots_pfail:0'',
            ''cluster_slots_fail:0'',
            ''cluster_known_nodes:'' @ FormatInt (int (length (Nodes l))),
            ''cluster_size:'' @ FormatInt size,
            ''cluster_current_epoch:'' @ FormatInt (int (length (Nodes l))),
            ''cluster_my_epoch:'' @ FormatInt myEpoch]))"

text \<open>With no layout loaded the subcommands that read it dereference a nil pointer.\<close>

definition handleCluster :: handler where
  "handleCluster E C args s =
     (if \<not> ClusterEnabled C then Ret (s, EncodeError ''ERR This instance has cluster support disabled'')
      else if length args = 0 then Ret (s, EncodeError ''ERR wrong number of arguments for 'cluster' command'')
      else let sub = ToUpper (uniUpper E) (args ! 0)
      in if sub \<noteq> ''KEYSLOT'' \<and> length args \<noteq> 1
         then Ret (s, EncodeError (''ERR wrong number of arguments for '' @ quoted (''cluster|'' @ ToLower (uniLower E) sub) @ '' command''))
         else if sub = ''KEYSLOT''
         then Ret (s, if length args \<noteq> 2 then EncodeError ''ERR wrong number of arguments for 'cluster|keyslot' command''
                      else EncodeInteger (int (KeyHashSlot (args ! 1))))
         else if sub = ''MYID''
         then (case Current C of
                 None \<Rightarrow> Panic
               | Some l \<Rightarrow> (case Self l of None \<Rightarrow> Panic | Some i \<Rightarrow> Ret (s, EncodeBulkString (ID (Nodes l ! i)))))
         else if sub = ''SLOTS''
         then (case Current C of None \<Rightarrow> Panic | Some l \<Rightarrow> obind (clusterSlots C l) (\<lambda>r. Ret (s, r)))
         else if sub = ''NODES''
         then (case Current C of None \<Rightarrow> Panic | Some l \<Rightarrow> obind (clusterNodes l) (\<lambda>r. Ret (s, EncodeBulkString r)))
         else if sub = ''INFO''
         then (case Current C of None \<Rightarrow> Panic | Some l \<Rightarrow> Ret (s, EncodeBulkString (clusterInfo l)))
         else Ret (s, EncodeError (''ERR unknown subcommand '' @ quoted (args ! 0) @ ''. Try CLUSTER HELP.'')))"

end
