(* ===== verification/Registry.thy ===== *)
theory Registry
  imports Commands
begin

text \<open>
  Parsing, routing and running a command: \<^verbatim>\<open>commands/command.go\<close>, \<^verbatim>\<open>keyspecs.go\<close>,
  \<^verbatim>\<open>route.go\<close> and \<^verbatim>\<open>registry.go\<close>. The state is the one store and the log, if one is set.
\<close>

subsection \<open>Commands\<close>

record Command =
  Cname :: string
  Args :: "string list"

text \<open>\<^verbatim>\<open>%T\<close> of a decoded value.\<close>

fun type_name :: "any \<Rightarrow> string" where
  "type_name (StrV _) = ''string''"
| "type_name (IntV _) = ''int64''"
| "type_name (ArrV _) = ''[]interface {}''"

fun parse_parts :: "nat \<Rightarrow> any list \<Rightarrow> string + string list" where
  "parse_parts i [] = Inr []"
| "parse_parts i (StrV s # vs) =
     (case parse_parts (Suc i) vs of Inl e \<Rightarrow> Inl e | Inr parts \<Rightarrow> Inr (s # parts))"
| "parse_parts i (v # vs) =
     Inl (''expected bulk string at index '' @ FormatInt (int i) @ '', got '' @ type_name v)"

definition ParseCommand :: "(string \<Rightarrow> string) \<Rightarrow> any \<Rightarrow> string + Command" where
  "ParseCommand uni decoded =
     (case decoded of
        ArrV arr \<Rightarrow>
          (if length arr = 0 then Inl ''empty command''
           else (case parse_parts 0 arr of
                   Inl e \<Rightarrow> Inl e
                 | Inr parts \<Rightarrow> Inr \<lparr>Cname = ToUpper uni (parts ! 0), Args = drop 1 parts\<rparr>))
      | _ \<Rightarrow> Inl (''expected array, got '' @ type_name decoded))"

subsection \<open>Keys\<close>

record KeySpec =
  First :: int
  Last :: int
  Step :: int

definition noKeys :: KeySpec where
  "noKeys = \<lparr>First = 0, Last = 0, Step = 0\<rparr>"

definition keySpecs :: "string \<Rightarrow> KeySpec option" where
  "keySpecs = map_of
     [(''GET'', \<lparr>First = 1, Last = 1, Step = 1\<rparr>), (''SET'', \<lparr>First = 1, Last = 1, Step = 1\<rparr>),
      (''EXPIRE'', \<lparr>First = 1, Last = 1, Step = 1\<rparr>), (''TTL'', \<lparr>First = 1, Last = 1, Step = 1\<rparr>),
      (''INCR'', \<lparr>First = 1, Last = 1, Step = 1\<rparr>), (''APPEND'', \<lparr>First = 1, Last = 1, Step = 1\<rparr>),
      (''PFADD'', \<lparr>First = 1, Last = 1, Step = 1\<rparr>), (''PFCOUNT'', \<lparr>First = 1, Last = -1, Step = 1\<rparr>),
      (''PFMERGE'', \<lparr>First = 1, Last = -1, Step = 1\<rparr>), (''DEL'', \<lparr>First = 1, Last = -1, Step = 1\<rparr>),
      (''OBJECT'', \<lparr>First = 2, Last = 2, Step = 1\<rparr>), (''PING'', noKeys), (''INFO'', noKeys),
      (''DEBUG'', noKeys), (''CLUSTER'', noKeys), (''_EXPIRY'', noKeys)]"

text \<open>
  The loop over the positions. Every step in the table is positive where the loop runs;
  a step that is not would never end, and the guard stands for that.
\<close>

function key_args :: "int \<Rightarrow> int \<Rightarrow> int \<Rightarrow> string list \<Rightarrow> string list" where
  "key_args pos stop step args =
     (if pos \<le> stop \<and> pos < int (length args) + 1 \<and> 0 < step
      then args ! nat (pos - 1) # key_args (pos + step) stop step args
      else [])"
  by pat_completeness auto
termination
  by (relation "measure (\<lambda>(pos, stop, step, args). nat (int (length args) + 1 - pos))") auto

declare key_args.simps [simp del]

definition KeysOf :: "Command \<Rightarrow> string list option" where
  "KeysOf cmd =
     (case keySpecs (Cname cmd) of
        None \<Rightarrow> None
      | Some spec \<Rightarrow>
          if First spec = 0 then Some []
          else let argc = int (length (Args cmd)) + 1;
                   stop = (if Last spec < 0 then argc + Last spec else Last spec)
               in Some (key_args (First spec) stop (Step spec) (Args cmd)))"

subsection \<open>Routing\<close>

text \<open>\<open>None\<close> is the nil reply: the keys can be served here.\<close>

definition checkKeys :: "ctx \<Rightarrow> string list \<Rightarrow> string option" where
  "checkKeys C keys =
     (case Current C of
        None \<Rightarrow> None
      | Some l \<Rightarrow>
          if length keys = 0 then None
          else let slot = KeyHashSlot (keys ! 0)
          in if list_ex (\<lambda>k. KeyHashSlot k \<noteq> slot) (drop 1 keys)
             then Some (EncodeError ''CROSSSLOT Keys in request don't hash to the same slot'')
             else (case Owner l (int slot) of
                     None \<Rightarrow> Some (EncodeError ''CLUSTERDOWN Hash slot not served'')
                   | Some n \<Rightarrow>
                       if Some n \<noteq> Self l
                       then Some (EncodeError (''MOVED '' @ FormatInt (int slot) @ '' '' @ Addr (Nodes l ! n)))
                       else None))"

definition keys_of :: "Command \<Rightarrow> string list" where
  "keys_of cmd = (case KeysOf cmd of None \<Rightarrow> [] | Some keys \<Rightarrow> keys)"

definition checkCluster :: "ctx \<Rightarrow> Command \<Rightarrow> string option" where
  "checkCluster C cmd = checkKeys C (keys_of cmd)"

definition CheckCluster :: "ctx \<Rightarrow> Command \<Rightarrow> string option" where
  "CheckCluster C cmd = checkCluster C cmd"

definition checkClusterBatch :: "ctx \<Rightarrow> Command list \<Rightarrow> string option" where
  "checkClusterBatch C cmds = checkKeys C (concat (map keys_of cmds))"

subsection \<open>Running\<close>

record state =
  db :: Store
  aof :: "AOF option"

definition SetAOF :: "AOF option \<Rightarrow> state \<Rightarrow> state" where
  "SetAOF a st = st\<lparr>aof := a\<rparr>"

definition commands :: "string \<Rightarrow> handler option" where
  "commands = map_of
     [(''GET'', handleGet), (''SET'', handleSet), (''EXPIRE'', handleExpire), (''TTL'', handleTTL),
      (''INCR'', handleIncr), (''APPEND'', handleAppend), (''PFADD'', handlePFAdd),
      (''PFCOUNT'', handlePFCount), (''PFMERGE'', handlePFMerge), (''DEL'', handleDel),
      (''OBJECT'', handleObject), (''PING'', handlePing), (''INFO'', handleInfo), (''DEBUG'', handleDebug),
      (''CLUSTER'', handleCluster), (''_EXPIRY'', handleExpiry)]"

definition writeCommands :: "string list" where
  "writeCommands = [''SET'', ''EXPIRE'', ''INCR'', ''APPEND'', ''PFADD'', ''PFMERGE'', ''DEL'']"

definition denyOOMCommands :: "string list" where
  "denyOOMCommands = [''SET'', ''INCR'', ''APPEND'', ''PFADD'', ''PFMERGE'']"

definition IsKnownCommand :: "string \<Rightarrow> bool" where
  "IsKnownCommand name = (commands name \<noteq> None)"

definition isErrorReply :: "string \<Rightarrow> bool" where
  "isErrorReply reply \<longleftrightarrow> length reply > 0 \<and> reply ! 0 = CHR ''-''"

definition unknown_command :: "string \<Rightarrow> string" where
  "unknown_command name = EncodeError (''ERR unknown command '' @ quoted name)"

text \<open>
  The memory check before a command that can grow memory: \<open>None\<close> when it may run, on
  the store left by the eviction.
\<close>

definition maxBytes :: "ctx \<Rightarrow> int" where
  "maxBytes C = wrap64 (MaxMemory C * 2 ^ 20)"

definition make_room :: "ctx \<Rightarrow> env \<Rightarrow> Command \<Rightarrow> Store \<Rightarrow> (Store \<times> bool) outcome" where
  "make_room C E cmd s =
     (if Cname cmd \<in> set denyOOMCommands \<and> MaxMemory C > 0
      then obind (if MaxMemoryPolicy C \<in> {''allkeys-lru'', ''allkeys-lfu'', ''volatile-lfu''}
                  then PerformEvictions E (MaxMemorySamples C) (maxBytes C) s else Ret s)
             (\<lambda>s1. Ret (s1, OverMemory (maxBytes C) s1))
      else Ret (s, False))"

definition oom_error :: string where
  "oom_error = EncodeError ''OOM command not allowed when used memory > 'maxmemory'.''"

text \<open>An error of the log is printed and otherwise ignored.\<close>

definition log_command :: "env \<Rightarrow> Command \<Rightarrow> string \<Rightarrow> state \<Rightarrow> state" where
  "log_command E cmd reply st =
     (case aof st of
        None \<Rightarrow> st
      | Some a \<Rightarrow>
          if Cname cmd \<in> set writeCommands \<and> \<not> isErrorReply reply
          then st\<lparr>aof := Some (snd (AOF_Write (accepts E) (Cname cmd # Args cmd) a))\<rparr>
          else st)"

definition tick :: "env \<Rightarrow> state \<Rightarrow> state" where
  "tick E st = st\<lparr>db := (db st)\<lparr>now := instant E\<rparr>\<rparr>"

text \<open>The store's clock shows one instant while a command runs.\<close>

definition Dispatch :: "ctx \<Rightarrow> env \<Rightarrow> Command \<Rightarrow> state \<Rightarrow> (state \<times> string) outcome" where
  "Dispatch C E cmd st0 =
     (let st = tick E st0
      in case commands (Cname cmd) of
           None \<Rightarrow> Ret (st, unknown_command (Cname cmd))
         | Some handle \<Rightarrow>
             (case checkCluster C cmd of
                Some errReply \<Rightarrow> Ret (st, errReply)
              | None \<Rightarrow>
                  obind (make_room C E cmd (db st)) (\<lambda>(s1, over).
                    if over then Ret (st\<lparr>db := s1\<rparr>, oom_error)
                    else obind (handle E C (Args cmd) s1) (\<lambda>(s2, reply).
                      Ret (log_command E cmd reply (st\<lparr>db := s2\<rparr>), reply)))))"

definition Replay :: "ctx \<Rightarrow> env \<Rightarrow> Command \<Rightarrow> state \<Rightarrow> state outcome" where
  "Replay C E cmd st0 =
     (let st = tick E st0
      in case commands (Cname cmd) of
           None \<Rightarrow> Ret st
         | Some handle \<Rightarrow> obind (handle E C (Args cmd) (db st)) (\<lambda>(s1, _). Ret (st\<lparr>db := s1\<rparr>)))"

text \<open>The commands of a sequence meet the environments \<open>E i\<close>, \<open>E (i + 1)\<close>, ...\<close>

fun dispatch_all :: "ctx \<Rightarrow> (nat \<Rightarrow> env) \<Rightarrow> nat \<Rightarrow> Command list \<Rightarrow> state \<Rightarrow> (state \<times> string list) outcome" where
  "dispatch_all C E i [] st = Ret (st, [])"
| "dispatch_all C E i (c # cs) st =
     obind (Dispatch C (E i) c st) (\<lambda>(st1, reply).
       obind (dispatch_all C E (Suc i) cs st1) (\<lambda>(st2, replies). Ret (st2, reply # replies)))"

definition DispatchBatch :: "ctx \<Rightarrow> (nat \<Rightarrow> env) \<Rightarrow> nat \<Rightarrow> Command list \<Rightarrow> state \<Rightarrow> (state \<times> string) outcome" where
  "DispatchBatch C E i cmds st =
     (case checkClusterBatch C cmds of
        Some errReply \<Rightarrow> Ret (st, errReply)
      | None \<Rightarrow> obind (dispatch_all C E i cmds st) (\<lambda>(st', replies). Ret (st', EncodeRawArray replies)))"

definition DispatchPipeline :: "ctx \<Rightarrow> (nat \<Rightarrow> env) \<Rightarrow> nat \<Rightarrow> Command list \<Rightarrow> state \<Rightarrow> (state \<times> string) outcome" where
  "DispatchPipeline C E i cmds st =
     obind (dispatch_all C E i cmds st) (\<lambda>(st', replies). Ret (st', concat replies))"

end
