(* ===== verification/Effects.thy ===== *)
theory Effects
  imports Registry
begin

text \<open>
  What running a command does to the store and the log: every handler against the visible
  state (\<open>view\<close>), then \<^verbatim>\<open>Dispatch\<close> with its checks: it returns, it touches the keys of the
  command only, the log misses nothing, the memory limit holds, batches are routed whole.
\<close>

subsection \<open>What a handler may do\<close>

text \<open>
  A handler returns, keeps the store consistent, changes what clients can see of the given
  keys only, and changes nothing when it replies with an error.
\<close>

definition effect :: "env \<Rightarrow> string list \<Rightarrow> Store \<Rightarrow> (Store \<times> string) outcome \<Rightarrow> bool" where
  "effect E keys s out \<longleftrightarrow>
     (\<exists>s' r. out = Ret (s', r) \<and> store_ok (fpu E) s' \<and> (\<forall>k. k \<notin> set keys \<longrightarrow> view s' k = view s k) \<and>
        (isErrorReply r \<longrightarrow> view s' = view s))"

lemma effect_read: "store_ok (fpu E) s' \<Longrightarrow> view s' = view s \<Longrightarrow> effect E keys s (Ret (s', r))"
  by (auto simp: effect_def)

lemma effect_write:
  "store_ok (fpu E) s' \<Longrightarrow> (\<And>k. k \<notin> set keys \<Longrightarrow> view s' k = view s k) \<Longrightarrow> \<not> isErrorReply r \<Longrightarrow>
   effect E keys s (Ret (s', r))"
  by (auto simp: effect_def)

lemma effect_if: "effect E keys s x \<Longrightarrow> effect E keys s y \<Longrightarrow> effect E keys s (if b then x else y)"
  by simp

lemma effect_more: "effect E keys s out \<Longrightarrow> set keys \<subseteq> set keys' \<Longrightarrow> effect E keys' s out"
  by (fastforce simp: effect_def)

lemma isErrorReply_simps [simp]:
  "isErrorReply (EncodeError m)" "\<not> isErrorReply (EncodeInteger n)" "\<not> isErrorReply (EncodeSimpleString m)"
  "\<not> isErrorReply (EncodeBulkString m)" "\<not> isErrorReply EncodeNullBulkString" "\<not> isErrorReply (EncodeRawArray rs)"
  by (simp_all add: isErrorReply_def EncodeError_def EncodeInteger_def EncodeSimpleString_def EncodeBulkString_def
      EncodeNullBulkString_def EncodeRawArray_eq)

subsection \<open>Readers\<close>

lemma handlePing_effect: "store_ok (fpu E) s \<Longrightarrow> effect E [] s (handlePing E C args s)"
  unfolding handlePing_def by (rule effect_read) simp_all

lemma handleGet_effect:
  assumes "store_ok (fpu E) s"
  shows "effect E [] s (handleGet E C args s)"
  using Get_view [OF assms, of E "args ! 0"] assms by (auto simp: handleGet_def intro: effect_read)

lemma handleTTL_effect: "store_ok (fpu E) s \<Longrightarrow> effect E [] s (handleTTL E C args s)"
  using meta_read(3) [of "fpu E" s "args ! 0"] by (auto simp: handleTTL_def split: prod.splits intro: effect_read)

lemma handleObject_effect: "store_ok (fpu E) s \<Longrightarrow> effect E [] s (handleObject E C args s)"
  using meta_read(1,2) [of "fpu E" s "args ! 1"]
  by (auto simp: handleObject_def Let_def split: prod.splits intro: effect_read)

lemma handlePFCount_effect:
  assumes "store_ok (fpu E) s"
  shows "effect E [] s (handlePFCount E C args s)"
  using PFCount_view [OF assms, of "args ! 0"] assms by (auto simp: handlePFCount_def intro: effect_read)

lemma handleDebug_effect: "store_ok (fpu E) s \<Longrightarrow> effect E [] s (handleDebug E C args s)"
  unfolding handleDebug_def by (rule effect_read) simp_all

lemma handleInfo_effect: "store_ok (fpu E) s \<Longrightarrow> effect E [] s (handleInfo E C args s)"
  unfolding handleInfo_def Let_def by (rule effect_read) simp_all

lemma expire_loop_view: "expire_loop keys c d s = (s', n) \<Longrightarrow> view s' = view s"
proof (induction keys arbitrary: c d s)
  case (Cons key keys)
  show ?case
  proof (cases "look s key")
    case None
    then show ?thesis using Cons.prems by (auto dest: Cons.IH split: if_splits)
  next
    case (Some e)
    then show ?thesis using Cons.prems view_remove_expired [OF Some]
      by (auto dest: Cons.IH split: if_splits)
  qed
qed simp

lemma handleExpiry_effect:
  assumes "store_ok (fpu E) s"
  shows "effect E [] s (handleExpiry E C args s)"
  using expire_loop_ok [OF assms] expire_loop_view
  by (auto simp: handleExpiry_def DeleteExpired_def split: prod.splits intro!: effect_read)

subsection \<open>CLUSTER\<close>

definition ctx_ok :: "ctx \<Rightarrow> bool" where
  "ctx_ok C \<longleftrightarrow> MaxMemorySamples C \<le> 2 ^ 44 \<and> (\<forall>es. mset (sort_Entries C es) = mset es) \<and>
     (ClusterEnabled C \<longrightarrow> (\<exists>l p. Current C = Some l \<and> layout_ok p l \<and> Self l \<noteq> None))"

lemma splitAddr_Ret: "CHR '':'' \<in> set a \<Longrightarrow> \<exists>r. splitAddr a = Ret r"
  by (simp add: splitAddr_def last_index_def)

lemma omap_Ret: "\<forall>x \<in> set xs. \<exists>y. f x = Ret y \<Longrightarrow> \<exists>ys. omap f xs = Ret ys"
  by (induction xs) fastforce+

lemma slot_entry_Ret: "splitAddr (Addr (Nodes l ! snd e)) = Ret hp \<Longrightarrow> \<exists>y. slot_entry l e = Ret y"
  by (cases hp) (simp add: slot_entry_def)

lemma node_line_Ret: "splitAddr (Addr (Nodes l ! i)) = Ret hp \<Longrightarrow> \<exists>y. node_line l i = Ret y"
  by (cases hp) (simp add: node_line_def Let_def)

lemma cluster_texts:
  assumes "ctx_ok C" "layout_ok p l"
  shows "\<exists>r. clusterSlots C l = Ret r" "\<exists>r. clusterNodes l = Ret r"
proof -
  have addr: "\<exists>hp. splitAddr (Addr (Nodes l ! i)) = Ret hp" if "i < length (Nodes l)" for i
    using assms(2) that nth_mem [OF that] by (intro splitAddr_Ret) (simp add: layout_ok_def)
  define es where "es = concat (map (\<lambda>i. map (\<lambda>r. (r, i)) (Slots (Nodes l ! i))) [0..<length (Nodes l)])"
  have mem: "set (sort_Entries C es) = set es" using assms(1) unfolding ctx_ok_def by (metis mset_eq_setD)
  have "\<forall>e \<in> set es. snd e < length (Nodes l)" by (auto simp: es_def)
  with mem have "\<forall>e \<in> set (sort_Entries C es). \<exists>y. slot_entry l e = Ret y"
    using addr slot_entry_Ret by metis
  from omap_Ret [OF this] obtain out where "omap (slot_entry l) (sort_Entries C es) = Ret out" ..
  then show "\<exists>r. clusterSlots C l = Ret r" unfolding clusterSlots_def Let_def es_def [symmetric] by simp
  have "\<forall>i \<in> set [0..<length (Nodes l)]. \<exists>y. node_line l i = Ret y"
    using addr node_line_Ret by (metis atLeastLessThan_iff atLeastLessThan_upt)
  from omap_Ret [OF this] obtain ls where "omap (node_line l) [0..<length (Nodes l)] = Ret ls" ..
  then show "\<exists>r. clusterNodes l = Ret r" unfolding clusterNodes_def by simp
qed

lemma handleCluster_effect:
  assumes "store_ok (fpu E) s" "ctx_ok C"
  shows "effect E [] s (handleCluster E C args s)"
proof (cases "ClusterEnabled C")
  case True
  then obtain l p i where l: "Current C = Some l" "layout_ok p l" "Self l = Some i"
    using assms(2) by (auto simp: ctx_ok_def)
  obtain a b where "clusterSlots C l = Ret a" "clusterNodes l = Ret b" using cluster_texts [OF assms(2) l(2)] by blast
  then show ?thesis
    unfolding handleCluster_def Let_def using assms(1) l True
    by (simp only: option.case obind.simps) (intro effect_if effect_read; simp)
qed (use assms(1) in \<open>simp add: handleCluster_def effect_read\<close>)

subsection \<open>Writers\<close>

lemma take1: "args \<noteq> [] \<Longrightarrow> set (take 1 args) = {args ! 0}"
  by (cases args) auto

lemma Set_effect:
  "store_ok (fpu E) s \<Longrightarrow> view s = view s0 \<Longrightarrow> k \<in> set keys \<Longrightarrow> \<not> isErrorReply r \<Longrightarrow> effect E keys s0 (Ret (Set k v ttl s, r))"
  by (rule effect_write) (auto simp: Set_view Set_ok)

lemma handleSet_effect:
  assumes "store_ok (fpu E) s"
  shows "effect E (take 1 args) s (handleSet E C args s)"
proof (cases args)
  case Nil
  then show ?thesis using assms by (simp add: handleSet_def effect_read)
next
  case (Cons k rest)
  then show ?thesis using assms unfolding handleSet_def Let_def
    by (cases "Atoi (args ! 3)") (simp_all add: effect_read Set_effect)
qed

lemma handleExpire_effect:
  assumes "store_ok (fpu E) s"
  shows "effect E (take 1 args) s (handleExpire E C args s)"
proof (cases "length args = 2 \<and> Atoi (args ! 1) \<noteq> None")
  case True
  then obtain n where n: "Atoi (args ! 1) = Some n" by auto
  have k: "args ! 0 \<in> set (take 1 args)" using True by (cases args) auto
  obtain s1 r where "Get E (args ! 0) s = Ret (s1, r)" "store_ok (fpu E) s1" "view s1 = view s"
    using Get_view [OF assms, of E "args ! 0"] by blast
  then show ?thesis using True n k
    by (cases r) (simp_all add: handleExpire_def effect_read Set_effect)
qed (use assms in \<open>auto simp: handleExpire_def effect_read split: option.splits\<close>)

lemma handleIncr_effect:
  assumes "store_ok (fpu E) s"
  shows "effect E (take 1 args) s (handleIncr E C args s)"
proof (cases "length args = 1")
  case True
  then have k: "args ! 0 \<in> set (take 1 args)" by (cases args) auto
  obtain s1 n ex err x where "GetInt E (args ! 0) s = Ret (s1, n, ex, err, x)" "store_ok (fpu E) s1" "view s1 = view s"
    using GetInt_view [OF assms, of E "args ! 0"] by (metis prod.exhaust)
  then show ?thesis using True k
    by (cases err) (simp_all add: handleIncr_def Let_def effect_read Set_effect)
qed (use assms in \<open>simp add: handleIncr_def effect_read\<close>)

lemma handleDel_effect:
  assumes "store_ok (fpu E) s"
  shows "effect E args s (handleDel E C args s)"
proof (cases "args = []")
  case False
  obtain s' n where d: "Delete args s = (s', n)" by fastforce
  from Delete_view [OF assms, of args] d have "store_ok (fpu E) s'" "view s' = (view s) |` (- set args)" by simp_all
  then show ?thesis using False d by (simp add: handleDel_def effect_write Suc_le_eq)
qed (use assms in \<open>simp add: handleDel_def effect_read\<close>)

lemma handlePFMerge_effect:
  assumes "store_ok (fpu E) s" "env_ok E"
  shows "effect E args s (handlePFMerge E C args s)"
proof (cases args)
  case (Cons d srcs)
  have "fp_ok (fpu E)" using assms(2) by (simp add: env_ok_def)
  from PFMerge_view [OF assms(1) this, of d srcs] obtain s' where s': "PFMerge d srcs s = Ret s'" "store_ok (fpu E) s'"
    "\<And>k. k \<noteq> d \<Longrightarrow> view s' k = view s k" by auto
  then show ?thesis using Cons by (simp add: handlePFMerge_def) (rule effect_write; force)
qed (use assms in \<open>simp add: handlePFMerge_def effect_read\<close>)

lemma PFAdd_result:
  assumes "store_ok f s" "fp_ok f"
  shows "\<exists>s' r. PFAdd E k vs s = Ret (s', r) \<and> store_ok f s' \<and> (\<forall>k'. k' \<noteq> k \<longrightarrow> view s' k' = view s k') \<and>
    (r = None \<longrightarrow> view s' = view s)"
proof (cases "view s k")
  case None
  from PFAdd_create [OF assms None, of E vs] obtain s' where
    "PFAdd E k vs s = Ret (s', Some True)" "store_ok f s'" "\<And>k'. k' \<noteq> k \<Longrightarrow> view s' k' = view s k'" by auto
  then show ?thesis by (intro exI [of _ s'] exI [of _ "Some True"]) simp
next
  case (Some p)
  obtain v x where v: "view s k = Some (v, x)" using Some by (cases p) auto
  show ?thesis
  proof (cases v)
    case (RSketch rs)
    from PFAdd_update [OF assms(1) v [unfolded RSketch], of E vs] obtain s' ch where
      "PFAdd E k vs s = Ret (s', Some ch)" "store_ok f s'" "\<And>k'. k' \<noteq> k \<Longrightarrow> view s' k' = view s k'" by auto
    then show ?thesis by (intro exI [of _ s'] exI [of _ "Some ch"]) simp
  qed (use PFAdd_wrongtype [OF v _ assms(1), of E vs] assms(1) in simp_all)
qed

lemma handlePFAdd_effect:
  assumes "store_ok (fpu E) s" "env_ok E"
  shows "effect E (take 1 args) s (handlePFAdd E C args s)"
proof (cases args)
  case (Cons k vs)
  have f: "fp_ok (fpu E)" using assms(2) by (simp add: env_ok_def)
  from PFAdd_result [OF assms(1) f] obtain s' r where "PFAdd E k vs s = Ret (s', r)" "store_ok (fpu E) s'" "\<forall>k'. k' \<noteq> k \<longrightarrow> view s' k' = view s k'"
    "r = None \<longrightarrow> view s' = view s" by blast
  moreover from this have "effect E [k] s (Ret (s', EncodeInteger n))" for n by (intro effect_write) simp_all
  ultimately show ?thesis using Cons by (cases r) (simp_all add: handlePFAdd_def effect_read)
qed (use assms in \<open>simp add: handlePFAdd_def effect_read\<close>)

text \<open>APPEND on a key that holds a sketch is the one write that panics.\<close>

definition append_safe :: "string list \<Rightarrow> Store \<Rightarrow> bool" where
  "append_safe args s \<longleftrightarrow>
     (length args = 2 \<longrightarrow> (case look s (args ! 0) of None \<Rightarrow> True | Some e \<Rightarrow> encoding e \<noteq> EncodingHLL))"

lemma not_sketch_text: "entry_ok f e \<Longrightarrow> encoding e \<noteq> EncodingHLL \<Longrightarrow> \<exists>t. text_of (value_of e) = Some t"
  by (erule entry_ok_cases) auto

lemma handleAppend_effect:
  assumes "store_ok (fpu E) s" "env_ok E" "append_safe args s"
  shows "effect E (take 1 args) s (handleAppend E C args s)"
proof (cases "length args = 2")
  case True
  then have k: "args ! 0 \<in> set (take 1 args)" by (cases args) auto
  show ?thesis
  proof (cases "look s (args ! 0)")
    case None
    then show ?thesis using True assms(1) k by (simp add: handleAppend_def Append_def Set_effect)
  next
    case (Some e)
    have "encoding e \<noteq> EncodingHLL" using assms(3) True Some by (simp add: append_safe_def)
    then obtain t where t: "text_of (value_of e) = Some t" using not_sketch_text ks.get_good [OF assms(1) Some] by blast
    from Append_view [OF assms(1,2) Some t, of "args ! 1"] obtain s' x where
      s': "Append E (args ! 0) (args ! 1) s = Ret (s', int (length t + length (args ! 1)))" "store_ok (fpu E) s'"
        "view s' = (view s)(args ! 0 := x)" by blast
    have "effect E (take 1 args) s (Ret (s', EncodeInteger n))" for n
      using s'(2,3) k by (intro effect_write) auto
    then show ?thesis using True s'(1) by (simp add: handleAppend_def)
  qed
qed (use assms in \<open>simp add: handleAppend_def effect_read\<close>)

subsection \<open>Every command\<close>

lemma key_args_one:
  "0 < p \<Longrightarrow> key_args p p 1 args = (if nat p \<le> length args then [args ! (nat p - 1)] else [])"
  by (subst key_args.simps, subst key_args.simps) (auto simp: nat_diff_distrib nat_le_iff)

lemma key_args_drop:
  "key_args (int i + 1) (int (length args)) 1 args = drop i args"
proof (induction "length args - i" arbitrary: i)
  case 0
  then show ?case by (subst key_args.simps) simp
next
  case (Suc n)
  then have i: "i < length args" by simp
  have "key_args (int (Suc i) + 1) (int (length args)) 1 args = drop (Suc i) args"
    by (rule Suc.hyps(1)) (use Suc.hyps(2) in simp)
  moreover have "int i + 1 + 1 = int (Suc i) + 1" by simp
  ultimately show ?case using i by (subst key_args.simps) (simp only: Cons_nth_drop_Suc, simp add: Cons_nth_drop_Suc)
qed

lemma key_args_all: "key_args 1 (int (length args)) 1 args = args"
  using key_args_drop [of 0 args] by simp

definition one_key :: "string list" where
  "one_key = [''GET'', ''SET'', ''EXPIRE'', ''TTL'', ''INCR'', ''APPEND'', ''PFADD'']"

definition all_keys :: "string list" where
  "all_keys = [''PFCOUNT'', ''PFMERGE'', ''DEL'']"

lemma keySpecs_one: "name \<in> set one_key \<Longrightarrow> keySpecs name = Some \<lparr>First = 1, Last = 1, Step = 1\<rparr>"
  unfolding one_key_def by (simp only: list.set insert_iff empty_iff HOL.simp_thms, elim disjE) (simp_all add: keySpecs_def)

lemma keySpecs_all: "name \<in> set all_keys \<Longrightarrow> keySpecs name = Some \<lparr>First = 1, Last = -1, Step = 1\<rparr>"
  unfolding all_keys_def by (simp only: list.set insert_iff empty_iff HOL.simp_thms, elim disjE) (simp_all add: keySpecs_def)

lemma keys_of_one: "Cname cmd \<in> set one_key \<Longrightarrow> keys_of cmd = take 1 (Args cmd)"
  using keySpecs_one [of "Cname cmd"] by (cases "Args cmd") (simp_all add: keys_of_def KeysOf_def key_args_one)

lemma keys_of_all: "Cname cmd \<in> set all_keys \<Longrightarrow> keys_of cmd = Args cmd"
  using keySpecs_all [of "Cname cmd"] by (simp add: keys_of_def KeysOf_def key_args_all)

lemma commands_cases:
  assumes "commands name = Some h"
  obtains "name = ''GET''" "h = handleGet" | "name = ''SET''" "h = handleSet" | "name = ''EXPIRE''" "h = handleExpire"
  | "name = ''TTL''" "h = handleTTL" | "name = ''INCR''" "h = handleIncr" | "name = ''APPEND''" "h = handleAppend"
  | "name = ''PFADD''" "h = handlePFAdd" | "name = ''PFCOUNT''" "h = handlePFCount"
  | "name = ''PFMERGE''" "h = handlePFMerge" | "name = ''DEL''" "h = handleDel" | "name = ''OBJECT''" "h = handleObject"
  | "name = ''PING''" "h = handlePing" | "name = ''INFO''" "h = handleInfo" | "name = ''DEBUG''" "h = handleDebug"
  | "name = ''CLUSTER''" "h = handleCluster" | "name = ''_EXPIRY''" "h = handleExpiry"
  using map_of_SomeD [OF assms [unfolded commands_def]]
  by (simp only: list.set insert_iff empty_iff prod.inject HOL.simp_thms) (elim disjE conjE; (rule that, assumption, assumption))

lemmas reader_effects = handleGet_effect handleTTL_effect handlePFCount_effect handleObject_effect handlePing_effect
  handleInfo_effect handleDebug_effect handleExpiry_effect

lemmas writer_effects = handleSet_effect handleExpire_effect handleIncr_effect handleDel_effect handlePFAdd_effect
  handlePFMerge_effect handleAppend_effect

lemmas writer_effects1 = writer_effects [unfolded One_nat_def]

lemma reader_effect:
  assumes "commands name = Some h" "name \<notin> set writeCommands" "store_ok (fpu E) s" "ctx_ok C"
  shows "effect E [] s (h E C args s)"
  using assms(1)
  by (cases rule: commands_cases)
    (use assms(2-4) in \<open>simp_all add: reader_effects handleCluster_effect writeCommands_def\<close>)

lemma writer_effect:
  assumes "commands (Cname cmd) = Some h" "Cname cmd \<in> set writeCommands" "store_ok (fpu E) s" "env_ok E"
    "Cname cmd = ''APPEND'' \<longrightarrow> append_safe (Args cmd) s"
  shows "effect E (keys_of cmd) s (h E C (Args cmd) s)"
  using assms(1)
  by (cases rule: commands_cases)
    (use assms(2-5) in \<open>simp_all add: keys_of_one keys_of_all one_key_def all_keys_def writer_effects1 writeCommands_def\<close>)

lemma command_effect:
  assumes "commands (Cname cmd) = Some h" "store_ok (fpu E) s" "env_ok E" "ctx_ok C"
    "Cname cmd = ''APPEND'' \<longrightarrow> append_safe (Args cmd) s"
  shows "effect E (if Cname cmd \<in> set writeCommands then keys_of cmd else []) s (h E C (Args cmd) s)"
proof (cases "Cname cmd \<in> set writeCommands")
  case True
  show ?thesis unfolding if_P [OF True] by (rule writer_effect [OF assms(1) True assms(2,3,5)])
next
  case False
  show ?thesis unfolding if_not_P [OF False] by (rule reader_effect [OF assms(1) False assms(2,4)])
qed

subsection \<open>Dispatch\<close>

lemma tick_simps [simp]:
  "now (db (tick E st)) = instant E" "look (db (tick E st)) = look (db st)" "aof (tick E st) = aof st"
  "store_ok f (db (tick E st)) = store_ok f (db st)"
  by (simp_all add: tick_def store_ok_def)

lemma log_command_db [simp]: "db (log_command E cmd r st) = db st"
  by (simp add: log_command_def split: option.splits)

lemma make_room_result:
  assumes "store_ok (fpu E) s" "env_ok E" "ctx_ok C"
  shows "\<exists>s1 over. make_room C E cmd s = Ret (s1, over) \<and> store_ok (fpu E) s1 \<and> look s1 \<subseteq>\<^sub>m look s \<and> now s1 = now s \<and>
    (MaxMemory C \<le> 0 \<or> Cname cmd \<notin> set denyOOMCommands \<longrightarrow> s1 = s \<and> \<not> over) \<and>
    (Cname cmd \<in> set denyOOMCommands \<and> 0 < MaxMemory C \<longrightarrow> over = OverMemory (maxBytes C) s1)"
proof (cases "Cname cmd \<in> set denyOOMCommands \<and> 0 < MaxMemory C")
  case True
  obtain s1 where s1: "PerformEvictions E (MaxMemorySamples C) (maxBytes C) s = Ret s1" "store_ok (fpu E) s1"
    "look s1 \<subseteq>\<^sub>m look s" "now s1 = now s"
    using PerformEvictions_ends [OF assms(2,1), of "MaxMemorySamples C" "maxBytes C"] assms(3) unfolding ctx_ok_def by blast
  define s2 where "s2 = (if MaxMemoryPolicy C \<in> {''allkeys-lru'', ''allkeys-lfu'', ''volatile-lfu''} then s1 else s)"
  have "make_room C E cmd s = Ret (s2, OverMemory (maxBytes C) s2)"
    unfolding make_room_def if_P [OF True] s2_def s1(1)
    by (cases "MaxMemoryPolicy C \<in> {''allkeys-lru'', ''allkeys-lfu'', ''volatile-lfu''}") (simp_all only: if_True if_False obind.simps)
  moreover have "store_ok (fpu E) s2" "look s2 \<subseteq>\<^sub>m look s" "now s2 = now s"
    using s1(2-4) assms(1) by (simp_all add: s2_def map_le_def)
  ultimately show ?thesis using True by (intro exI [of _ s2] exI [of _ "OverMemory (maxBytes C) s2"]) simp
next
  case False
  then have "make_room C E cmd s = Ret (s, False)" unfolding make_room_def by (rule if_not_P)
  then show ?thesis using assms(1) False by (intro exI [of _ s] exI [of _ False]) (auto simp: map_le_def)
qed

lemma append_safe_le: "append_safe args s \<Longrightarrow> look s1 \<subseteq>\<^sub>m look s \<Longrightarrow> append_safe args s1"
  by (auto simp: append_safe_def map_le_def dom_def split: option.splits)

text \<open>
  The ways a command can end: unknown, refused by the cluster check, refused for memory,
  or run by its handler.
\<close>

lemma Dispatch_outcome [consumes 4, case_names unknown refused oom ran]:
  assumes "store_ok (fpu E) (db st)" "env_ok E" "ctx_ok C"
    "Cname cmd = ''APPEND'' \<longrightarrow> append_safe (Args cmd) (db st)"
  obtains (unknown) "commands (Cname cmd) = None" "Dispatch C E cmd st = Ret (tick E st, unknown_command (Cname cmd))"
  | (refused) h e where "commands (Cname cmd) = Some h" "checkCluster C cmd = Some e"
      "Dispatch C E cmd st = Ret (tick E st, e)"
  | (oom) h s1 where "commands (Cname cmd) = Some h" "checkCluster C cmd = None"
      "make_room C E cmd (db (tick E st)) = Ret (s1, True)" "store_ok (fpu E) s1" "look s1 \<subseteq>\<^sub>m look (db st)"
      "Dispatch C E cmd st = Ret ((tick E st)\<lparr>db := s1\<rparr>, oom_error)"
  | (ran) h s1 s2 r where "commands (Cname cmd) = Some h" "checkCluster C cmd = None"
      "make_room C E cmd (db (tick E st)) = Ret (s1, False)" "store_ok (fpu E) s1" "look s1 \<subseteq>\<^sub>m look (db st)"
      "h E C (Args cmd) s1 = Ret (s2, r)" "store_ok (fpu E) s2"
      "\<forall>k. k \<notin> set (if Cname cmd \<in> set writeCommands then keys_of cmd else []) \<longrightarrow> view s2 k = view s1 k"
      "isErrorReply r \<longrightarrow> view s2 = view s1"
      "Dispatch C E cmd st = Ret (log_command E cmd r ((tick E st)\<lparr>db := s2\<rparr>), r)"
proof (cases "commands (Cname cmd)")
  case None
  then show thesis using unknown by (simp add: Dispatch_def)
next
  case h: (Some h)
  show thesis
  proof (cases "checkCluster C cmd")
    case (Some e)
    then show thesis using refused h by (simp add: Dispatch_def)
  next
    case None
    obtain s1 over where room: "make_room C E cmd (db (tick E st)) = Ret (s1, over)" "store_ok (fpu E) s1"
      "look s1 \<subseteq>\<^sub>m look (db st)"
      using make_room_result [of E "db (tick E st)" C cmd] assms(1-3) by auto
    have safe: "Cname cmd = ''APPEND'' \<longrightarrow> append_safe (Args cmd) s1"
      using append_safe_le [OF _ room(3)] assms(4) by blast
    show thesis
    proof (cases over)
      case True
      then have room1: "make_room C E cmd (db (tick E st)) = Ret (s1, True)" using room(1) by simp
      then have "Dispatch C E cmd st = Ret ((tick E st)\<lparr>db := s1\<rparr>, oom_error)" using h None by (simp add: Dispatch_def)
      then show thesis by (rule oom [OF h None room1 room(2,3)])
    next
      case False
      then have room1: "make_room C E cmd (db (tick E st)) = Ret (s1, False)" using room(1) by simp
      from command_effect [OF h room(2) assms(2,3) safe] obtain s2 r where
        r: "h E C (Args cmd) s1 = Ret (s2, r)" "store_ok (fpu E) s2"
        "\<forall>k. k \<notin> set (if Cname cmd \<in> set writeCommands then keys_of cmd else []) \<longrightarrow> view s2 k = view s1 k"
        "isErrorReply r \<longrightarrow> view s2 = view s1" unfolding effect_def by blast
      have "Dispatch C E cmd st = Ret (log_command E cmd r ((tick E st)\<lparr>db := s2\<rparr>), r)"
        using h None room1 r(1) by (simp add: Dispatch_def)
      then show thesis by (rule ran [OF h None room1 room(2,3) r])
    qed
  qed
qed

subsection \<open>Safety of dispatch\<close>

lemma checkKeys_served:
  assumes "checkKeys C keys = None" "Current C = Some l" "k \<in> set keys"
  shows "Owner l (int (KeyHashSlot k)) = Self l \<and> Self l \<noteq> None"
proof -
  have slots: "KeyHashSlot k = KeyHashSlot (keys ! 0)"
    using assms by (cases keys) (auto simp: checkKeys_def list_ex_iff Let_def split: if_splits)
  have "Owner l (int (KeyHashSlot (keys ! 0))) = Self l \<and> Self l \<noteq> None"
    using assms by (cases "Self l") (auto simp: checkKeys_def Let_def split: if_splits option.splits)
  then show ?thesis by (simp add: slots)
qed

lemma checkKeys_None_subset:
  assumes "checkKeys C keys = None" "set keys' \<subseteq> set keys"
  shows "checkKeys C keys' = None"
proof (cases "Current C")
  case (Some l)
  have served: "Owner l (int (KeyHashSlot k)) = Self l \<and> Self l \<noteq> None" if "k \<in> set keys'" for k
    using checkKeys_served [OF assms(1) Some] assms(2) that by blast
  have one: "KeyHashSlot k = KeyHashSlot (keys ! 0)" if "k \<in> set keys'" for k
    using assms that Some by (cases keys) (auto simp: checkKeys_def list_ex_iff Let_def split: if_splits)
  show ?thesis
  proof (cases keys')
    case (Cons k ks)
    then have "\<not> list_ex (\<lambda>x. KeyHashSlot x \<noteq> KeyHashSlot k) ks" using one by (simp add: list_ex_iff)
    then show ?thesis using Cons Some served [of k] by (auto simp: checkKeys_def)
  qed (simp add: checkKeys_def Some)
qed (simp add: checkKeys_def)

lemma view_cong: "look s = look t \<Longrightarrow> now s = now t \<Longrightarrow> view s = view t"
  by (rule ext) (simp add: view_def isExpired_def split: option.splits)

lemma no_limit_room: "MaxMemory C \<le> 0 \<Longrightarrow> make_room C E cmd s = Ret (s, False)"
  by (simp add: make_room_def)

lemma Dispatch_change:
  assumes "store_ok (fpu E) (db st)" "env_ok E" "ctx_ok C" "MaxMemory C \<le> 0"
    "Cname cmd = ''APPEND'' \<longrightarrow> append_safe (Args cmd) (db st)"
    "Dispatch C E cmd st = Ret (st', r)" "view (db st') k \<noteq> view (db (tick E st)) k"
  shows "Cname cmd \<in> set writeCommands \<and> k \<in> set (keys_of cmd) \<and> \<not> isErrorReply r \<and> checkCluster C cmd = None \<and>
    aof st' = aof (log_command E cmd r st)"
  using assms(1-3,5)
proof (cases rule: Dispatch_outcome)
  case (ran h s1 s2 r2)
  have s1: "s1 = db (tick E st)" using ran(3) no_limit_room [OF assms(4)] by simp
  have st': "st' = log_command E cmd r2 ((tick E st)\<lparr>db := s2\<rparr>)" "r = r2" using ran(10) assms(6) by simp_all
  then have "view s2 k \<noteq> view s1 k" using assms(7) s1 by simp
  then have "k \<in> set (if Cname cmd \<in> set writeCommands then keys_of cmd else [])" "\<not> isErrorReply r2"
    using ran(8,9) by auto
  moreover have "aof st' = aof (log_command E cmd r st)" by (cases "aof st") (simp_all add: st' log_command_def)
  ultimately show ?thesis using ran(2) st'(2) by (cases "Cname cmd \<in> set writeCommands") simp_all
next
  case (oom h s1)
  then show ?thesis using no_limit_room [OF assms(4)] by simp
qed (use assms(6,7) in simp_all)

text \<open>
  C8: dispatching a command returns and leaves a consistent store, whatever the command
  and its arguments, in cluster mode or not and with any memory policy. The exception is
  an APPEND to a key that holds a sketch.
\<close>

theorem Dispatch_returns:
  assumes "store_ok (fpu E) (db st)" "env_ok E" "ctx_ok C"
    "Cname cmd = ''APPEND'' \<longrightarrow> append_safe (Args cmd) (db st)"
  shows "\<exists>st' r. Dispatch C E cmd st = Ret (st', r) \<and> store_ok (fpu E) (db st')"
  using assms by (cases rule: Dispatch_outcome) (auto simp: assms(1))

definition ctx0 :: ctx where
  "ctx0 = \<lparr>MaxMemory = 0, MaxMemoryPolicy = ''noeviction'', MaxMemorySamples = 5, ClusterEnabled = False,
     Current = None, sort_Entries = (\<lambda>es. es)\<rparr>"

definition start :: state where
  "start = \<lparr>db = store_New 0, aof = Some \<lparr>contents = []\<rparr>\<rparr>"

lemma ctx0_ok [simp]: "ctx_ok ctx0" "MaxMemory ctx0 = 0" "Current ctx0 = None"
  by (simp_all add: ctx_ok_def ctx0_def)

lemma start_ok [simp]: "store_ok f (db start)"
  by (simp add: start_def)

theorem Dispatch_returns_witness:
  "\<exists>st' r. Dispatch ctx0 env0 \<lparr>Cname = ''APPEND'', Args = [''k'', ''v'']\<rparr> start = Ret (st', r) \<and>
    store_ok (fpu env0) (db st')"
  by (rule Dispatch_returns) (simp, simp, simp, simp add: append_safe_def start_def store_New_def)


lemma set_example:
  "Dispatch ctx0 env0 \<lparr>Cname = ''SET'', Args = [''k'', ''v'']\<rparr> start =
     Ret (log_command env0 \<lparr>Cname = ''SET'', Args = [''k'', ''v'']\<rparr> (EncodeSimpleString ''OK'')
       ((tick env0 start)\<lparr>db := Set ''k'' ''v'' 0 (db (tick env0 start))\<rparr>), EncodeSimpleString ''OK'')"
proof -
  have "checkCluster ctx0 c = None" for c by (simp add: checkCluster_def checkKeys_def)
  then show ?thesis by (simp add: Dispatch_def commands_def no_limit_room handleSet_def Let_def)
qed




text \<open>
  C19: the memory limit. Under an evicting policy a command that can grow memory always
  finds the store within the limit, at the cost of keys only; under any other policy it is
  refused while the store is over the limit, with nothing changed.
\<close>

theorem memory_limit:
  assumes "store_ok (fpu E) (db st)" "env_ok E" "ctx_ok C" "Cname cmd \<in> set denyOOMCommands"
    "0 < MaxMemory C" "MaxMemory C < 2 ^ 43" "commands (Cname cmd) = Some h" "checkCluster C cmd = None"
  shows "(MaxMemoryPolicy C \<in> {''allkeys-lru'', ''allkeys-lfu'', ''volatile-lfu''} \<longrightarrow>
      (\<exists>s1. make_room C E cmd (db (tick E st)) = Ret (s1, False) \<and> usedMemory s1 \<le> MaxMemory C * 2 ^ 20 \<and>
         look s1 \<subseteq>\<^sub>m look (db st))) \<and>
    (MaxMemoryPolicy C \<notin> {''allkeys-lru'', ''allkeys-lfu'', ''volatile-lfu''} \<and>
       usedMemory (db st) > MaxMemory C * 2 ^ 20 \<longrightarrow> Dispatch C E cmd st = Ret (tick E st, oom_error))"
proof -
  have max: "maxBytes C = MaxMemory C * 2 ^ 20" "0 < maxBytes C"
    using assms(5,6) by (simp_all add: maxBytes_def in_int64_def)
  let ?s = "db (tick E st)" and ?evict = "MaxMemoryPolicy C \<in> {''allkeys-lru'', ''allkeys-lfu'', ''volatile-lfu''}"
  have grow: "Cname cmd \<in> set denyOOMCommands \<and> 0 < MaxMemory C" using assms(4,5) by simp
  obtain s1 where s1: "PerformEvictions E (MaxMemorySamples C) (maxBytes C) ?s = Ret s1"
    "usedMemory s1 \<le> maxBytes C" "look s1 \<subseteq>\<^sub>m look (db st)"
    using PerformEvictions_ends [of E "fpu E" ?s "MaxMemorySamples C" "maxBytes C"] assms(1-3) max(2)
    by (auto simp: ctx_ok_def)
  have "make_room C E cmd ?s = Ret (s1, False)" if ?evict
    unfolding make_room_def if_P [OF grow] if_P [OF that] s1(1) using s1(2) by (simp add: OverMemory_def)
  moreover have "Dispatch C E cmd st = Ret (tick E st, oom_error)" if "\<not> ?evict" "usedMemory (db st) > maxBytes C"
  proof -
    have "make_room C E cmd ?s = Ret (?s, True)"
      unfolding make_room_def if_P [OF grow] if_not_P [OF that(1)] using that(2) max(2) by (simp add: OverMemory_def tick_def)
    then show ?thesis using assms(7,8) by (simp add: Dispatch_def)
  qed
  ultimately show ?thesis using s1(2,3) unfolding max(1) by blast
qed

theorem memory_limit_witness:
  "\<exists>s1. make_room (ctx0\<lparr>MaxMemory := 1, MaxMemoryPolicy := ''allkeys-lru''\<rparr>) env0 \<lparr>Cname = ''SET'', Args = [''k'', ''v'']\<rparr>
     (db (tick env0 start)) = Ret (s1, False) \<and> usedMemory s1 \<le> 2 ^ 20"
proof -
  let ?C = "ctx0\<lparr>MaxMemory := 1, MaxMemoryPolicy := ''allkeys-lru''\<rparr>" and ?c = "\<lparr>Cname = ''SET'', Args = [''k'', ''v'']\<rparr>"
  have "ctx_ok ?C" "MaxMemoryPolicy ?C = ''allkeys-lru''" "MaxMemory ?C = 1" by (simp_all add: ctx_ok_def ctx0_def)
  moreover have "commands (Cname ?c) = Some handleSet" "checkCluster ?C ?c = None" "Cname ?c \<in> set denyOOMCommands"
    by (simp_all add: commands_def checkCluster_def checkKeys_def denyOOMCommands_def)
  ultimately show ?thesis using memory_limit [OF start_ok env0_ok, of ?C ?c handleSet] by auto
qed

text \<open>
  C20: a transaction never runs halfway for reasons of routing. When the keys of all its
  commands together are refused nothing changes and the one error is the reply; otherwise
  no command of it is refused on its own.
\<close>

theorem DispatchBatch_routing:
  shows "(\<forall>e. checkClusterBatch C cmds = Some e \<longrightarrow> DispatchBatch C E i cmds st = Ret (st, e) \<and> isErrorReply e) \<and>
    (checkClusterBatch C cmds = None \<longrightarrow> (\<forall>c \<in> set cmds. checkCluster C c = None))"
proof (intro conjI allI impI ballI)
  fix e assume e: "checkClusterBatch C cmds = Some e"
  then show "DispatchBatch C E i cmds st = Ret (st, e)" by (simp add: DispatchBatch_def)
  from e show "isErrorReply e"
    by (auto simp: checkClusterBatch_def checkKeys_def Let_def split: option.splits if_splits)
next
  fix c assume n: "checkClusterBatch C cmds = None" and c: "c \<in> set cmds"
  show "checkCluster C c = None"
  proof (rule checkKeys_None_subset [of C "concat (map keys_of cmds)" "keys_of c", folded checkCluster_def checkClusterBatch_def])
    show "checkClusterBatch C cmds = None" by (rule n)
    show "set (keys_of c) \<subseteq> set (concat (map keys_of cmds))" using c by auto
  qed
qed

theorem DispatchBatch_routing_witness:
  "\<exists>e. checkClusterBatch (ctx0\<lparr>Current := Some empty_layout\<rparr>) [\<lparr>Cname = ''GET'', Args = [''k'']\<rparr>] = Some e \<and>
    DispatchBatch (ctx0\<lparr>Current := Some empty_layout\<rparr>) (\<lambda>_. env0) 0 [\<lparr>Cname = ''GET'', Args = [''k'']\<rparr>] start = Ret (start, e)"
proof -
  let ?C = "ctx0\<lparr>Current := Some empty_layout\<rparr>" and ?b = "[\<lparr>Cname = ''GET'', Args = [''k'']\<rparr>]"
  have "Owner empty_layout n = None" for n by (simp add: Owner_def empty_layout_def)
  then have e: "checkClusterBatch ?C ?b = Some (EncodeError ''CLUSTERDOWN Hash slot not served'')"
    by (simp add: checkClusterBatch_def checkKeys_def keys_of_one one_key_def)
  from DispatchBatch_routing [THEN conjunct1, rule_format, OF e] e show ?thesis by blast
qed

end
