(* ===== verification/Transaction.thy ===== *)
theory Transaction
  imports Effects
begin

text \<open>
  MULTI, EXEC and DISCARD on one connection, \<^verbatim>\<open>server/transaction.go\<close>: the state, the
  decision for each command, and runs of the state machine.
\<close>

text \<open>
  The nil slice and the empty list coincide: \<^verbatim>\<open>queued\<close> is nil until the first command is
  appended, and nil again after \<^verbatim>\<open>reset\<close>.
\<close>

record txState =
  isMulti :: bool
  queued :: "Command list"
  tx_dirty :: bool

datatype txAction = actionPassthrough | actionReply | actionExec

definition newTxState :: txState where
  "newTxState = \<lparr>isMulti = False, queued = [], tx_dirty = False\<rparr>"

definition reset :: "txState \<Rightarrow> txState" where
  "reset t = t\<lparr>isMulti := False, queued := [], tx_dirty := False\<rparr>"

definition handle :: "ctx \<Rightarrow> Command \<Rightarrow> txState \<Rightarrow> txState \<times> txAction \<times> string \<times> Command list" where
  "handle C cmd t =
     (if Cname cmd = ''MULTI'' then
        (if isMulti t then (t, actionReply, EncodeError ''ERR MULTI calls can not be nested'', [])
         else (t\<lparr>isMulti := True\<rparr>, actionReply, EncodeSimpleString ''OK'', []))
      else if Cname cmd = ''DISCARD'' then
        (if \<not> isMulti t then (t, actionReply, EncodeError ''ERR DISCARD without MULTI'', [])
         else (reset t, actionReply, EncodeSimpleString ''OK'', []))
      else if Cname cmd = ''EXEC'' then
        (if \<not> isMulti t then (t, actionReply, EncodeError ''ERR EXEC without MULTI'', [])
         else if tx_dirty t
         then (reset t, actionReply, EncodeError ''EXECABORT Transaction discarded because of previous errors.'', [])
         else (reset t, actionExec, [], queued t))
      else if \<not> isMulti t then (t, actionPassthrough, [], [])
      else if \<not> IsKnownCommand (Cname cmd) then (t\<lparr>tx_dirty := True\<rparr>, actionReply, unknown_command (Cname cmd), [])
      else (case CheckCluster C cmd of
              Some errReply \<Rightarrow> (t\<lparr>tx_dirty := True\<rparr>, actionReply, errReply, [])
            | None \<Rightarrow> (t\<lparr>queued := queued t @ [cmd]\<rparr>, actionReply, EncodeSimpleString ''QUEUED'', [])))"

subsection \<open>Runs of the state machine\<close>

fun tx_run :: "ctx \<Rightarrow> Command list \<Rightarrow> txState \<Rightarrow> txState \<times> (txAction \<times> string \<times> Command list) list" where
  "tx_run C [] t = (t, [])"
| "tx_run C (c # cs) t =
     (let (t1, r) = handle C c t; (t2, rs) = tx_run C cs t1 in (t2, r # rs))"

text \<open>
  The invariant of a connection: outside a transaction nothing is queued or remembered,
  and what is queued is known and can be served here.
\<close>

definition acceptable :: "ctx \<Rightarrow> Command \<Rightarrow> bool" where
  "acceptable C c \<longleftrightarrow> IsKnownCommand (Cname c) \<and> CheckCluster C c = None"

definition control :: "string list" where
  "control = [''MULTI'', ''EXEC'', ''DISCARD'']"

definition tx_ok :: "ctx \<Rightarrow> txState \<Rightarrow> bool" where
  "tx_ok C t \<longleftrightarrow> (\<not> isMulti t \<longrightarrow> t = newTxState) \<and> list_all (acceptable C) (queued t) \<and>
     list_all (\<lambda>c. Cname c \<notin> set control) (queued t)"

lemma newTxState_simps [simp]:
  "isMulti newTxState = False" "queued newTxState = []" "tx_dirty newTxState = False" "reset t = newTxState"
  by (simp_all add: newTxState_def reset_def)

lemma tx_ok_new [simp]: "tx_ok C newTxState"
  by (simp add: tx_ok_def)

definition queue_reply :: "ctx \<Rightarrow> Command \<Rightarrow> string" where
  "queue_reply C c =
     (if \<not> IsKnownCommand (Cname c) then unknown_command (Cname c)
      else case CheckCluster C c of Some e \<Rightarrow> e | None \<Rightarrow> EncodeSimpleString ''QUEUED'')"

lemma checkKeys_error: "checkKeys C keys = Some e \<Longrightarrow> isErrorReply e"
  by (auto simp: checkKeys_def Let_def split: option.splits if_splits)

lemma queue_reply_error: "isErrorReply (queue_reply C c) \<longleftrightarrow> \<not> acceptable C c"
  by (auto simp: queue_reply_def acceptable_def unknown_command_def CheckCluster_def checkCluster_def
      dest: checkKeys_error split: option.splits)

lemma handle_queue:
  assumes "Cname c \<notin> set control" "isMulti t"
  shows "handle C c t =
    (if acceptable C c then t\<lparr>queued := queued t @ [c]\<rparr> else t\<lparr>tx_dirty := True\<rparr>, actionReply, queue_reply C c, [])"
  using assms by (auto simp: handle_def acceptable_def queue_reply_def control_def split: option.splits)

lemma handle_plain: "Cname c \<notin> set control \<Longrightarrow> \<not> isMulti t \<Longrightarrow> handle C c t = (t, actionPassthrough, [], [])"
  by (simp add: handle_def control_def)

lemma handle_ok:
  assumes "tx_ok C t" "handle C c t = (t', a, r, b)"
  shows "tx_ok C t' \<and> list_all (acceptable C) b \<and> (a = actionPassthrough \<longrightarrow> t' = newTxState \<and> t = newTxState) \<and>
    (a \<noteq> actionExec \<longrightarrow> b = [])"
proof (cases "Cname c \<in> set control \<or> \<not> isMulti t")
  case True
  then show ?thesis using assms
    by (auto simp: handle_def control_def tx_ok_def newTxState_def split: if_splits)
next
  case False
  then show ?thesis using assms handle_queue [of c t C] by (auto simp: tx_ok_def split: if_splits)
qed

lemma tx_run_append:
  "tx_run C (cs @ ds) t = (let (t1, rs) = tx_run C cs t; (t2, qs) = tx_run C ds t1 in (t2, rs @ qs))"
  by (induction cs arbitrary: t) (simp_all add: Let_def split: prod.splits)

lemma tx_run_body:
  "list_all (\<lambda>c. Cname c \<notin> set control) body \<Longrightarrow> isMulti t \<Longrightarrow>
     tx_run C body t =
       (t\<lparr>queued := queued t @ filter (acceptable C) body, tx_dirty := tx_dirty t \<or> \<not> list_all (acceptable C) body\<rparr>,
        map (\<lambda>c. (actionReply, queue_reply C c, [])) body)"
proof (induction body arbitrary: t)
  case (Cons c body)
  then show ?case by (cases "acceptable C c") (simp_all add: handle_queue)
qed simp

definition execabort :: string where
  "execabort = EncodeError ''EXECABORT Transaction discarded because of previous errors.''"

text \<open>
  C11: a transaction is all or nothing. Between MULTI and EXEC nothing is executed; every
  command is answered with QUEUED, or with an error if it is unknown or cannot be served
  here. EXEC hands over exactly the commands sent, in their order, if all of them were
  queued, and aborts otherwise; either way the connection is as new.
\<close>

theorem transaction_all_or_nothing:
  assumes "list_all (\<lambda>c. Cname c \<notin> set control) body"
  shows "tx_run C ([\<lparr>Cname = ''MULTI'', Args = as\<rparr>] @ body @ [\<lparr>Cname = ''EXEC'', Args = bs\<rparr>]) newTxState =
    (newTxState,
     (actionReply, EncodeSimpleString ''OK'', []) #
     map (\<lambda>c. (actionReply, queue_reply C c, [])) body @
     [if \<exists>c \<in> set body. isErrorReply (queue_reply C c) then (actionReply, execabort, []) else (actionExec, [], body)])"
proof -
  let ?t = "newTxState\<lparr>isMulti := True\<rparr>"
  have multi: "handle C \<lparr>Cname = ''MULTI'', Args = as\<rparr> newTxState = (?t, actionReply, EncodeSimpleString ''OK'', [])"
    by (simp add: handle_def)
  have errors: "(\<exists>c \<in> set body. isErrorReply (queue_reply C c)) \<longleftrightarrow> \<not> list_all (acceptable C) body"
    by (auto simp: queue_reply_error list_all_iff)
  have "list_all (acceptable C) body \<Longrightarrow> filter (acceptable C) body = body" by (simp add: list_all_iff)
  then show ?thesis unfolding errors
    by (simp add: multi tx_run_append tx_run_body [OF assms] handle_def execabort_def)
qed

theorem transaction_all_or_nothing_witness:
  "tx_run ctx0 ([\<lparr>Cname = ''MULTI'', Args = []\<rparr>] @ [\<lparr>Cname = ''NOPE'', Args = []\<rparr>] @ [\<lparr>Cname = ''EXEC'', Args = []\<rparr>]) newTxState =
    (newTxState,
     [(actionReply, EncodeSimpleString ''OK'', []), (actionReply, unknown_command ''NOPE'', []), (actionReply, execabort, [])])"
proof -
  have "commands ''NOPE'' = None" by (simp add: commands_def)
  then show ?thesis
    using transaction_all_or_nothing [of "[\<lparr>Cname = ''NOPE'', Args = []\<rparr>]" ctx0 "[]" "[]"]
    by (simp add: control_def queue_reply_def IsKnownCommand_def unknown_command_def)
qed

end
