(* ===== verification/Server.thy ===== *)
theory Server
  imports Transaction
begin

text \<open>
  The network side, \<^verbatim>\<open>server/tcp_server.go\<close>: requests and the dispatch worker, and the loop
  that serves one connection, with its decoder, its buffered writer and the pipelining of
  commands that have already arrived. Channels are calls, since the sender waits for the
  reply.
\<close>

subsection \<open>The dispatch worker\<close>

record CommandRequest =
  req_cmd :: Command
  req_batch :: "Command list"
  req_pipeline :: "Command list"

definition no_command :: Command where
  "no_command = \<lparr>Cname = [], Args = []\<rparr>"

definition single :: "Command \<Rightarrow> CommandRequest" where
  "single cmd = \<lparr>req_cmd = cmd, req_batch = [], req_pipeline = []\<rparr>"

definition batch_of :: "Command list \<Rightarrow> CommandRequest" where
  "batch_of cmds = \<lparr>req_cmd = no_command, req_batch = cmds, req_pipeline = []\<rparr>"

definition pipeline_of :: "Command list \<Rightarrow> CommandRequest" where
  "pipeline_of cmds = \<lparr>req_cmd = no_command, req_batch = [], req_pipeline = cmds\<rparr>"

text \<open>
  What the worker owns: the state, and the number of commands run so far, which picks the
  environment of the next one.
\<close>

record worker =
  turn :: nat
  st :: state

definition run_request :: "ctx \<Rightarrow> (nat \<Rightarrow> env) \<Rightarrow> CommandRequest \<Rightarrow> worker \<Rightarrow> (worker \<times> string) outcome" where
  "run_request C E req w =
     (if req_batch req \<noteq> []
      then obind (DispatchBatch C E (turn w) (req_batch req) (st w)) (\<lambda>(s', reply).
             Ret (\<lparr>turn = turn w + length (req_batch req), st = s'\<rparr>, reply))
      else if req_pipeline req \<noteq> []
      then obind (DispatchPipeline C E (turn w) (req_pipeline req) (st w)) (\<lambda>(s', reply).
             Ret (\<lparr>turn = turn w + length (req_pipeline req), st = s'\<rparr>, reply))
      else obind (Dispatch C (E (turn w)) (req_cmd req) (st w)) (\<lambda>(s', reply).
             Ret (\<lparr>turn = turn w + 1, st = s'\<rparr>, reply)))"

text \<open>The worker takes the requests of all clients from one channel, in the channel's order.\<close>

fun dispatchWorker :: "ctx \<Rightarrow> (nat \<Rightarrow> env) \<Rightarrow> CommandRequest list \<Rightarrow> worker \<Rightarrow> (worker \<times> string list) outcome" where
  "dispatchWorker C E [] w = Ret (w, [])"
| "dispatchWorker C E (req # reqs) w =
     obind (run_request C E req w) (\<lambda>(w1, reply).
       obind (dispatchWorker C E reqs w1) (\<lambda>(w2, replies). Ret (w2, reply # replies)))"

subsection \<open>A connection\<close>

text \<open>
  \<^verbatim>\<open>bufio.Writer\<close> with its buffer of 4096 bytes: what is buffered and what has been sent.
  Sending succeeds.
\<close>

function bufio_write :: "string \<Rightarrow> string \<Rightarrow> string \<Rightarrow> string \<times> string" where
  "bufio_write p b sent =
     (if length p > 4096 - length b
      then if b = [] then bufio_write [] [] (sent @ p)
           else let n = 4096 - length b in bufio_write (drop n p) [] (sent @ b @ take n p)
      else (b @ p, sent))"
  by pat_completeness auto
termination
  by (relation "measure (\<lambda>(p, b, sent). 2 * length p + (if b = [] then 0 else 1))") auto

declare bufio_write.simps [simp del]

record conn =
  decoder :: Decoder
  frames :: nat
  tx :: txState
  wbuf :: string
  sent :: string
  wk :: worker

definition writer_Write :: "string \<Rightarrow> conn \<Rightarrow> conn" where
  "writer_Write p c = (let (b, o1) = bufio_write p (wbuf c) (sent c) in c\<lparr>wbuf := b, sent := o1\<rparr>)"

definition writer_Flush :: "conn \<Rightarrow> conn" where
  "writer_Flush c = c\<lparr>wbuf := [], sent := sent c @ wbuf c\<rparr>"

definition conn_Write :: "string \<Rightarrow> conn \<Rightarrow> conn" where
  "conn_Write p c = c\<lparr>sent := sent c @ p\<rparr>"

definition submit :: "ctx \<Rightarrow> (nat \<Rightarrow> env) \<Rightarrow> CommandRequest \<Rightarrow> conn \<Rightarrow> conn outcome" where
  "submit C E req c =
     obind (run_request C E req (wk c)) (\<lambda>(w', reply). Ret (writer_Write reply (c\<lparr>wk := w'\<rparr>)))"

definition dispatchSingle :: "ctx \<Rightarrow> (nat \<Rightarrow> env) \<Rightarrow> Command \<Rightarrow> conn \<Rightarrow> conn outcome" where
  "dispatchSingle C E cmd c = submit C E (single cmd) c"

definition dispatchPipeline :: "ctx \<Rightarrow> (nat \<Rightarrow> env) \<Rightarrow> Command list \<Rightarrow> conn \<Rightarrow> conn outcome" where
  "dispatchPipeline C E pipeline c =
     (if length pipeline = 1 then dispatchSingle C E (pipeline ! 0) c
      else submit C E (pipeline_of pipeline) c)"

definition handleAction ::
  "ctx \<Rightarrow> (nat \<Rightarrow> env) \<Rightarrow> txAction \<Rightarrow> string \<Rightarrow> Command list \<Rightarrow> conn \<Rightarrow> conn outcome" where
  "handleAction C E action txReply batch c =
     (case action of
        actionReply \<Rightarrow> Ret (writer_Write txReply c)
      | actionExec \<Rightarrow> submit C E (batch_of batch) c
      | actionPassthrough \<Rightarrow> Ret c)"

text \<open>
  \<open>buffered n\<close> says whether \<^verbatim>\<open>reader.Buffered() > 0\<close> when \<open>n\<close> values have been decoded:
  it depends on how the bytes arrive. A closed connection loses what is still in its
  writer.
\<close>

datatype status = Open conn | Closed conn

definition decoded :: "Decoder \<Rightarrow> conn \<Rightarrow> conn" where
  "decoded d c = c\<lparr>decoder := d, frames := frames c + 1\<rparr>"

lemma Decoder_Decode_length: "Decoder_Decode d = Got (v, d') \<Longrightarrow> length (dec_r d') < length (dec_r d)"
  by (auto simp: Decoder_Decode_def split: reading.splits dest: decode_length)

function pipelineLoop ::
  "(string \<Rightarrow> string) \<Rightarrow> ctx \<Rightarrow> (nat \<Rightarrow> env) \<Rightarrow> (nat \<Rightarrow> bool) \<Rightarrow> Command list \<Rightarrow> conn \<Rightarrow> status outcome" where
  "pipelineLoop uni C E buffered pipeline c =
     (if \<not> buffered (frames c) then obind (dispatchPipeline C E pipeline c) (\<lambda>c1. Ret (Open c1))
      else case Decoder_Decode (decoder c) of
        Crash \<Rightarrow> Panic
      | Fail e \<Rightarrow> obind (dispatchPipeline C E pipeline c) (\<lambda>c1. Ret (Closed (writer_Flush c1)))
      | Got (v, d) \<Rightarrow>
          (let c1 = decoded d c
           in case ParseCommand uni v of
                Inl perr \<Rightarrow>
                  obind (dispatchPipeline C E pipeline c1) (\<lambda>c2.
                    Ret (Open (conn_Write (EncodeError (''ERR '' @ perr)) c2)))
              | Inr nextCmd \<Rightarrow>
                  (let (t, action, txReply, batch) = handle C nextCmd (tx c1); c2 = c1\<lparr>tx := t\<rparr>
                   in if action \<noteq> actionPassthrough
                      then obind (dispatchPipeline C E pipeline c2) (\<lambda>c3.
                             obind (handleAction C E action txReply batch c3) (\<lambda>c4. Ret (Open c4)))
                      else pipelineLoop uni C E buffered (pipeline @ [nextCmd]) c2)))"
  by pat_completeness auto
termination
  by (relation "measure (\<lambda>(uni, C, E, buffered, pipeline, c). length (dec_r (decoder c)))")
    (auto simp: decoded_def dest: Decoder_Decode_length)

declare pipelineLoop.simps [simp del]

text \<open>One turn of the outer loop. The early \<^verbatim>\<open>continue\<close> after a parse error skips the flush.\<close>

definition flush_if_idle :: "(nat \<Rightarrow> bool) \<Rightarrow> conn \<Rightarrow> conn" where
  "flush_if_idle buffered c = (if \<not> buffered (frames c) then writer_Flush c else c)"

definition connection_turn ::
  "(string \<Rightarrow> string) \<Rightarrow> ctx \<Rightarrow> (nat \<Rightarrow> env) \<Rightarrow> (nat \<Rightarrow> bool) \<Rightarrow> conn \<Rightarrow> status outcome" where
  "connection_turn uni C E buffered c =
     (case Decoder_Decode (decoder c) of
        Crash \<Rightarrow> Panic
      | Fail e \<Rightarrow> Ret (Closed c)
      | Got (v, d) \<Rightarrow>
          (let c1 = decoded d c
           in case ParseCommand uni v of
                Inl err \<Rightarrow> Ret (Open (conn_Write (EncodeError (''ERR '' @ err)) c1))
              | Inr command \<Rightarrow>
                  (let (t, action, txReply, batch) = handle C command (tx c1); c2 = c1\<lparr>tx := t\<rparr>
                   in if action \<noteq> actionPassthrough
                      then obind (handleAction C E action txReply batch c2) (\<lambda>c3.
                             Ret (Open (flush_if_idle buffered c3)))
                      else obind (pipelineLoop uni C E buffered [command] c2) (\<lambda>s.
                             Ret (case s of Open c3 \<Rightarrow> Open (flush_if_idle buffered c3) | Closed c3 \<Rightarrow> Closed c3)))))"

subsection \<open>The loop ends with the input\<close>

lemma bufio_write_stream: "bufio_write p b s = (b', s') \<Longrightarrow> s' @ b' = s @ b @ p"
proof (induction p b s rule: bufio_write.induct)
  case (1 p b s)
  show ?case
  proof (cases "length p > 4096 - length b")
    case True
    then show ?thesis using 1 by (cases "b = []") (simp_all add: bufio_write.simps [of p] Let_def)
  next
    case False
    then show ?thesis using 1(3) by (simp add: bufio_write.simps [of p])
  qed
qed

lemma writes [simp]:
  "decoder (writer_Write p c) = decoder c" "frames (writer_Write p c) = frames c" "tx (writer_Write p c) = tx c"
  "wk (writer_Write p c) = wk c" "sent (writer_Write p c) @ wbuf (writer_Write p c) = sent c @ wbuf c @ p"
  "decoder (writer_Flush c) = decoder c" "frames (writer_Flush c) = frames c" "tx (writer_Flush c) = tx c"
  "wk (writer_Flush c) = wk c" "sent (writer_Flush c) = sent c @ wbuf c" "wbuf (writer_Flush c) = []"
  "decoder (conn_Write p c) = decoder c" "frames (conn_Write p c) = frames c"
  by (simp_all add: writer_Write_def writer_Flush_def conn_Write_def split: prod.splits) (metis bufio_write_stream)

lemma submit_frame:
  "submit C E req c = Ret c' \<Longrightarrow> decoder c' = decoder c \<and> frames c' = frames c \<and> tx c' = tx c"
  by (auto simp: submit_def)

lemma dispatchPipeline_frame:
  "dispatchPipeline C E p c = Ret c' \<Longrightarrow> decoder c' = decoder c \<and> frames c' = frames c \<and> tx c' = tx c"
  by (auto simp: dispatchPipeline_def dispatchSingle_def dest: submit_frame split: if_splits)

lemma handleAction_frame:
  "handleAction C E a r b c = Ret c' \<Longrightarrow> decoder c' = decoder c \<and> frames c' = frames c \<and> tx c' = tx c"
  by (auto simp: handleAction_def dest: submit_frame split: txAction.splits)

lemma decoded_simps [simp]:
  "decoder (decoded d c) = d" "frames (decoded d c) = Suc (frames c)" "tx (decoded d c) = tx c" "wk (decoded d c) = wk c"
  "sent (decoded d c) = sent c" "wbuf (decoded d c) = wbuf c"
  by (simp_all add: decoded_def)

lemma flush_if_idle_simps [simp]:
  "decoder (flush_if_idle B c) = decoder c" "frames (flush_if_idle B c) = frames c" "tx (flush_if_idle B c) = tx c"
  "wk (flush_if_idle B c) = wk c" "sent (flush_if_idle B c) @ wbuf (flush_if_idle B c) = sent c @ wbuf c"
  by (simp_all add: flush_if_idle_def)

lemma pipelineLoop_length:
  "pipelineLoop uni C E B p c = Ret (Open c') \<Longrightarrow> length (dec_r (decoder c')) \<le> length (dec_r (decoder c))"
proof (induction "length (dec_r (decoder c))" arbitrary: p c rule: less_induct)
  case 1: less
  note step = pipelineLoop.simps [of uni C E B p c]
  show ?case
  proof (cases "B (frames c)")
    case False
    then show ?thesis using 1(2) by (auto simp: step dest: dispatchPipeline_frame)
  next
    case B: True
    then obtain v d where d: "Decoder_Decode (decoder c) = Got (v, d)"
      using 1(2) by (cases "Decoder_Decode (decoder c)") (auto simp: step)
    note less = Decoder_Decode_length [OF d]
    show ?thesis
    proof (cases "ParseCommand uni v")
      case (Inl e)
      then show ?thesis using 1(2) B d less by (auto simp: step dest!: dispatchPipeline_frame)
    next
      case (Inr cmd)
      obtain t a r b where h: "handle C cmd (tx c) = (t, a, r, b)" by (cases "handle C cmd (tx c)")
      show ?thesis
      proof (cases "a = actionPassthrough")
        case True
        have "pipelineLoop uni C E B (p @ [cmd]) ((decoded d c)\<lparr>tx := t\<rparr>) = Ret (Open c')"
          using 1(2) B d Inr h True by (simp add: step)
        then show ?thesis
          using 1(1) [of "(decoded d c)\<lparr>tx := t\<rparr>" "p @ [cmd]"] less
          by simp
      next
        case False
        then show ?thesis using 1(2) B d Inr h less
          by (auto simp: step dest!: dispatchPipeline_frame handleAction_frame)
      qed
    qed
  qed
qed

lemma connection_turn_length:
  assumes "connection_turn uni C E B c = Ret (Open c')"
  shows "length (dec_r (decoder c')) < length (dec_r (decoder c))"
proof -
  obtain v d where d: "Decoder_Decode (decoder c) = Got (v, d)"
    using assms by (cases "Decoder_Decode (decoder c)") (auto simp: connection_turn_def)
  note less = Decoder_Decode_length [OF d]
  show ?thesis
  proof (cases "ParseCommand uni v")
    case (Inl e)
    then show ?thesis using assms d less by (auto simp: connection_turn_def)
  next
    case (Inr cmd)
    obtain t a r b where h: "handle C cmd (tx c) = (t, a, r, b)" by (cases "handle C cmd (tx c)")
    show ?thesis
    proof (cases "a = actionPassthrough")
      case True
      then obtain s where s: "pipelineLoop uni C E B [cmd] ((decoded d c)\<lparr>tx := t\<rparr>) = Ret s"
        "Open c' = (case s of Open c3 \<Rightarrow> Open (flush_if_idle B c3) | Closed c3 \<Rightarrow> Closed c3)"
        using assms d Inr h by (auto simp: connection_turn_def)
      then show ?thesis using less by (cases s) (auto dest!: pipelineLoop_length)
    next
      case False
      then show ?thesis using assms d Inr h less
        by (auto simp: connection_turn_def dest!: handleAction_frame)
    qed
  qed
qed

function handleConnection ::
  "(string \<Rightarrow> string) \<Rightarrow> ctx \<Rightarrow> (nat \<Rightarrow> env) \<Rightarrow> (nat \<Rightarrow> bool) \<Rightarrow> conn \<Rightarrow> conn outcome" where
  "handleConnection uni C E buffered c =
     (case connection_turn uni C E buffered c of
        Panic \<Rightarrow> Panic
      | Ret (Closed c1) \<Rightarrow> Ret c1
      | Ret (Open c1) \<Rightarrow> handleConnection uni C E buffered c1)"
  by pat_completeness auto
termination
  by (relation "measure (\<lambda>(uni, C, E, buffered, c). length (dec_r (decoder c)))") (auto dest: connection_turn_length)

declare handleConnection.simps [simp del]

definition new_conn :: "string \<Rightarrow> worker \<Rightarrow> conn" where
  "new_conn r w = \<lparr>decoder = NewDecoder r, frames = 0, tx = newTxState, wbuf = [], sent = [], wk = w\<rparr>"

end
