(* ===== verification/Pipelining.thy ===== *)
theory Pipelining
  imports Server
begin

text \<open>
  A connection against a reference that serves one command at a time: the same replies and
  the same state, for every way the bytes can arrive; and the inputs on which replies come
  out of order or are lost.
\<close>

subsection \<open>The same commands, one at a time\<close>

text \<open>
  The reference for a connection: every command is decided on, run and answered before the
  next one is looked at.
\<close>

fun serve :: "ctx \<Rightarrow> (nat \<Rightarrow> env) \<Rightarrow> Command list \<Rightarrow> txState \<Rightarrow> worker \<Rightarrow> (worker \<times> string) outcome" where
  "serve C E [] t w = Ret (w, [])"
| "serve C E (c # cs) t w =
     (let (t1, action, txReply, batch) = handle C c t
      in obind (case action of
                  actionReply \<Rightarrow> Ret (w, txReply)
                | actionExec \<Rightarrow> run_request C E (batch_of batch) w
                | actionPassthrough \<Rightarrow> run_request C E (single c) w) (\<lambda>(w1, reply).
         obind (serve C E cs t1 w1) (\<lambda>(w2, replies). Ret (w2, reply @ replies))))"

definition command_of :: "(string \<Rightarrow> string) \<Rightarrow> string list \<Rightarrow> Command" where
  "command_of uni args = \<lparr>Cname = ToUpper uni (hd args), Args = tl args\<rparr>"

lemma obind_cong: "m = m' \<Longrightarrow> (\<And>x. m' = Ret x \<Longrightarrow> f x = g x) \<Longrightarrow> obind m f = obind m' g"
  by (cases m') simp_all

lemma parse_parts_StrV: "parse_parts i (map StrV args) = Inr args"
  by (induction args arbitrary: i) simp_all

lemma ParseCommand_args: "args \<noteq> [] \<Longrightarrow> ParseCommand uni (args_view args) = Inr (command_of uni args)"
  by (simp add: ParseCommand_def args_view_def parse_parts_StrV command_of_def hd_conv_nth drop_Suc)

lemma Decoder_Decode_args:
  assumes "args_ok args" "dec_r d = EncodeArray args @ r"
  obtains d' where "Decoder_Decode d = Got (args_view args, d')" "dec_r d' = r"
  using decode_EncodeArray [OF assms(1), of "Some (dec_scratch d)" r] assms(2)
  by (auto simp: Decoder_Decode_def)

lemma Decoder_Decode_EOF: "dec_r d = [] \<Longrightarrow> \<exists>e. Decoder_Decode d = Fail e"
  by (simp add: Decoder_Decode_def decode.simps)

lemma run_single: "run_request C E (single c) w = run_request C E (pipeline_of [c]) w"
  by (simp add: run_request_def single_def pipeline_of_def DispatchPipeline_def obind_assoc case_prod_beta')

lemma dispatchPipeline_submit: "p \<noteq> [] \<Longrightarrow> dispatchPipeline C E p c = submit C E (pipeline_of p) c"
  by (cases p) (auto simp: dispatchPipeline_def dispatchSingle_def submit_def run_single)

lemma run_pipeline_Cons:
  assumes "p \<noteq> []"
  shows "run_request C E (pipeline_of (c # p)) w =
    obind (run_request C E (single c) w) (\<lambda>(w1, r). obind (run_request C E (pipeline_of p) w1) (\<lambda>(w2, rs). Ret (w2, r @ rs)))"
  using assms
  by (simp add: run_request_def single_def pipeline_of_def DispatchPipeline_def obind_assoc case_prod_beta')

definition plain :: "ctx \<Rightarrow> txState \<Rightarrow> Command \<Rightarrow> bool" where
  "plain C t c \<longleftrightarrow> handle C c t = (t, actionPassthrough, [], [])"

lemma passthrough_plain: "handle C c t = (t', actionPassthrough, r, b) \<Longrightarrow> plain C t c \<and> t' = t"
  by (auto simp: plain_def handle_def split: if_splits option.splits)

lemma serve_plain:
  assumes "p \<noteq> []" "list_all (plain C t) p"
  shows "serve C E (p @ cs) t w =
    obind (run_request C E (pipeline_of p) w) (\<lambda>(w1, r). obind (serve C E cs t w1) (\<lambda>(w2, rs). Ret (w2, r @ rs)))"
  using assms
proof (induction p arbitrary: w)
  case (Cons c p)
  show ?case
  proof (cases "p = []")
    case True
    then show ?thesis using Cons.prems by (simp add: plain_def run_single)
  next
    case False
    have "serve C E (p @ cs) t w1 =
      obind (run_request C E (pipeline_of p) w1) (\<lambda>(w1, r). obind (serve C E cs t w1) (\<lambda>(w2, rs). Ret (w2, r @ rs)))" for w1
      using Cons.IH [OF False] Cons.prems by simp
    then show ?thesis using Cons.prems False
      by (simp add: plain_def run_pipeline_Cons obind_assoc case_prod_beta')
  qed
qed simp

definition obs :: "conn outcome \<Rightarrow> (worker \<times> string \<times> string) outcome" where
  "obs m = obind m (\<lambda>c. Ret (wk c, sent c, wbuf c))"

text \<open>The connection is about to read \<open>argss\<close>, and bytes are buffered only while some are left.\<close>

definition reading_args :: "(nat \<Rightarrow> bool) \<Rightarrow> string list list \<Rightarrow> conn \<Rightarrow> bool" where
  "reading_args B argss c \<longleftrightarrow> dec_r (decoder c) = Aof.log argss \<and> list_all (\<lambda>a. args_ok a \<and> a \<noteq> []) argss \<and>
     (\<forall>n. B n \<longrightarrow> n < frames c + length argss)"

definition served :: "ctx \<Rightarrow> (nat \<Rightarrow> env) \<Rightarrow> Command list \<Rightarrow> conn \<Rightarrow> (worker \<times> string \<times> string) outcome" where
  "served C E cmds c = obind (serve C E cmds (tx c) (wk c)) (\<lambda>(w, r). Ret (w, (sent c @ wbuf c) @ r, []))"

lemma obs_handleConnection:
  "obs (handleConnection uni C E B c) =
     obind (connection_turn uni C E B c) (\<lambda>s. case s of Open c1 \<Rightarrow> obs (handleConnection uni C E B c1) | Closed c1 \<Rightarrow> obs (Ret c1))"
  by (subst handleConnection.simps) (auto simp: obs_def split: outcome.splits status.splits)

lemma handleAction_ans:
  assumes "a \<noteq> actionPassthrough"
  shows "handleAction C E a r b c =
    obind (case a of actionReply \<Rightarrow> Ret (wk c, r) | actionExec \<Rightarrow> run_request C E (batch_of b) (wk c)
           | actionPassthrough \<Rightarrow> run_request C E (single x) (wk c))
      (\<lambda>(w, reply). Ret (writer_Write reply (c\<lparr>wk := w\<rparr>)))"
  using assms by (cases a) (simp_all add: handleAction_def submit_def writer_Write_def split: prod.splits)

lemma reading_args_cong:
  "reading_args B argss c \<Longrightarrow> decoder c' = decoder c \<Longrightarrow> frames c' = frames c \<Longrightarrow> reading_args B argss c'"
  by (simp add: reading_args_def)

lemma reading_args_step:
  assumes "reading_args B (args # argss) c"
  obtains d where "Decoder_Decode (decoder c) = Got (args_view args, d)" "reading_args B argss (decoded d c)"
    "ParseCommand uni (args_view args) = Inr (command_of uni args)"
proof -
  have a: "args_ok args" "args \<noteq> []" "dec_r (decoder c) = EncodeArray args @ Aof.log argss"
    using assms by (simp_all add: reading_args_def)
  obtain d where "Decoder_Decode (decoder c) = Got (args_view args, d)" "dec_r d = Aof.log argss"
    by (rule Decoder_Decode_args [OF a(1,3)])
  then show thesis using that assms ParseCommand_args [OF a(2)] by (simp add: reading_args_def)
qed

text \<open>What the induction carries: a connection between two turns, and one with a pipeline in hand.\<close>

definition turn_ok :: "(string \<Rightarrow> string) \<Rightarrow> ctx \<Rightarrow> (nat \<Rightarrow> env) \<Rightarrow> (nat \<Rightarrow> bool) \<Rightarrow> string list list \<Rightarrow> bool" where
  "turn_ok uni C E B argss \<longleftrightarrow>
     (\<forall>c. reading_args B argss c \<and> (B (frames c) \<or> wbuf c = []) \<longrightarrow>
        obs (handleConnection uni C E B c) = served C E (map (command_of uni) argss) c)"

lemma wk_self: "c\<lparr>wk := wk c\<rparr> = c"
  by simp

lemma turn_ok_written:
  assumes "turn_ok uni C E B argss" "reading_args B argss c"
  shows "obs (handleConnection uni C E B (flush_if_idle B (writer_Write reply (c\<lparr>wk := w\<rparr>)))) =
    obind (serve C E (map (command_of uni) argss) (tx c) w) (\<lambda>(w2, rs). Ret (w2, sent c @ wbuf c @ reply @ rs, []))"
proof -
  let ?c = "flush_if_idle B (writer_Write reply (c\<lparr>wk := w\<rparr>))"
  have "reading_args B argss ?c" by (rule reading_args_cong [OF assms(2)]) simp_all
  moreover have "B (frames ?c) \<or> wbuf ?c = []" by (simp add: flush_if_idle_def)
  ultimately have "obs (handleConnection uni C E B ?c) = served C E (map (command_of uni) argss) ?c"
    using assms(1) unfolding turn_ok_def by blast
  also have "\<dots> = obind (serve C E (map (command_of uni) argss) (tx c) w)
      (\<lambda>(w2, rs). Ret (w2, (sent ?c @ wbuf ?c) @ rs, []))"
    unfolding served_def by simp
  also have "sent ?c @ wbuf ?c = sent c @ wbuf c @ reply" by simp
  finally show ?thesis by simp
qed

lemma turn_ok_after_action:
  assumes "turn_ok uni C E B argss" "reading_args B argss c" "a \<noteq> actionPassthrough"
    "handle C cmd t = (tx c, a, r, b)"
  shows "obind (handleAction C E a r b c) (\<lambda>c1. obs (handleConnection uni C E B (flush_if_idle B c1))) =
    obind (serve C E (cmd # map (command_of uni) argss) t (wk c)) (\<lambda>(w, rs). Ret (w, sent c @ wbuf c @ rs, []))"
  unfolding handleAction_ans [OF assms(3), of C E r b c cmd]
  using turn_ok_written [OF assms(1,2)] assms(3,4) turn_ok_written [OF assms(1,2), of r "wk c", unfolded wk_self]
  by (cases a) (simp_all add: obind_assoc case_prod_beta')

definition resume :: "(string \<Rightarrow> string) \<Rightarrow> ctx \<Rightarrow> (nat \<Rightarrow> env) \<Rightarrow> (nat \<Rightarrow> bool) \<Rightarrow> status \<Rightarrow> (worker \<times> string \<times> string) outcome" where
  "resume uni C E B s =
     (case s of Open c \<Rightarrow> obs (handleConnection uni C E B (flush_if_idle B c)) | Closed c \<Rightarrow> obs (Ret c))"

definition pipe_ok :: "(string \<Rightarrow> string) \<Rightarrow> ctx \<Rightarrow> (nat \<Rightarrow> env) \<Rightarrow> (nat \<Rightarrow> bool) \<Rightarrow> string list list \<Rightarrow> bool" where
  "pipe_ok uni C E B argss \<longleftrightarrow>
     (\<forall>p c. reading_args B argss c \<and> p \<noteq> [] \<and> list_all (plain C (tx c)) p \<longrightarrow>
        obind (pipelineLoop uni C E B p c) (resume uni C E B) = served C E (p @ map (command_of uni) argss) c)"

lemma pipe_ok_idle:
  assumes "turn_ok uni C E B argss" "reading_args B argss c" "p \<noteq> []" "list_all (plain C (tx c)) p" "\<not> B (frames c)"
  shows "obind (pipelineLoop uni C E B p c) (resume uni C E B) = served C E (p @ map (command_of uni) argss) c"
  using turn_ok_written [OF assms(1,2)] assms(3-5)
  by (simp add: pipelineLoop.simps [of _ _ _ _ p c] dispatchPipeline_submit submit_def resume_def obind_assoc case_prod_beta'
      served_def serve_plain)

lemma pipe_ok_more:
  assumes "turn_ok uni C E B argss" "pipe_ok uni C E B argss" "reading_args B (args # argss) c" "p \<noteq> []"
    "list_all (plain C (tx c)) p" "B (frames c)"
  shows "obind (pipelineLoop uni C E B p c) (resume uni C E B) = served C E (p @ map (command_of uni) (args # argss)) c"
proof -
  obtain d where d: "Decoder_Decode (decoder c) = Got (args_view args, d)" "reading_args B argss (decoded d c)"
    "ParseCommand uni (args_view args) = Inr (command_of uni args)"
    by (rule reading_args_step [OF assms(3)])
  let ?cmd = "command_of uni args"
  obtain t a r b where h: "handle C ?cmd (tx c) = (t, a, r, b)" by (cases "handle C ?cmd (tx c)")
  let ?c = "(decoded d c)\<lparr>tx := t\<rparr>"
  have rd: "reading_args B argss (?c\<lparr>wk := w\<rparr>)" for w by (rule reading_args_cong [OF d(2)]) simp_all
  have rd0: "reading_args B argss ?c" by (rule reading_args_cong [OF d(2)]) simp_all
  note step = pipelineLoop.simps [of uni C E B p c]
  show ?thesis
  proof (cases "a = actionPassthrough")
    case True
    then have pl: "plain C (tx c) ?cmd" "t = tx c" using passthrough_plain h by blast+
    have "pipelineLoop uni C E B p c = pipelineLoop uni C E B (p @ [?cmd]) ?c"
      using assms(6) d(1,3) h True by (simp add: step)
    moreover have "obind (pipelineLoop uni C E B (p @ [?cmd]) ?c) (resume uni C E B) =
        served C E ((p @ [?cmd]) @ map (command_of uni) argss) ?c"
      using assms(2,5) pl rd0 unfolding pipe_ok_def by simp
    ultimately show ?thesis by (simp add: served_def pl(2))
  next
    case False
    have "obind (handleAction C E a r b c3) (\<lambda>c1. obs (handleConnection uni C E B (flush_if_idle B c1))) =
        obind (serve C E (?cmd # map (command_of uni) argss) (tx c) w) (\<lambda>(w2, rs). Ret (w2, sent c @ wbuf c @ reply @ rs, []))"
      if "c3 = writer_Write reply (?c\<lparr>wk := w\<rparr>)" for c3 reply w
    proof -
      have rd3: "reading_args B argss c3" unfolding that by (rule reading_args_cong [OF rd]) simp_all
      have h3: "handle C ?cmd (tx c) = (tx c3, a, r, b)" using h that by simp
      have s3: "sent c3 @ wbuf c3 @ rs = sent c @ wbuf c @ reply @ rs" for rs
        using writes(5) [of reply "?c\<lparr>wk := w\<rparr>"] that by (simp flip: append_assoc)
      have w3: "wk c3 = w" using that by simp
      show ?thesis using turn_ok_after_action [OF assms(1) rd3 False h3] unfolding s3 w3 .
    qed
    then show ?thesis using assms(4-6) d(1,3) h False
      by (simp add: step dispatchPipeline_submit submit_def resume_def obind_assoc case_prod_beta' served_def serve_plain
          del: serve.simps)
  qed
qed

lemma turn_ok_step:
  assumes "\<And>args rest. argss = args # rest \<Longrightarrow> turn_ok uni C E B rest \<and> pipe_ok uni C E B rest"
  shows "turn_ok uni C E B argss"
  unfolding turn_ok_def
proof (intro allI impI, elim conjE)
  fix c
  assume rd: "reading_args B argss c" and wb: "B (frames c) \<or> wbuf c = []"
  show "obs (handleConnection uni C E B c) = served C E (map (command_of uni) argss) c"
  proof (cases argss)
    case Nil
    then have "wbuf c = []" "\<exists>e. Decoder_Decode (decoder c) = Fail e"
      using rd wb Decoder_Decode_EOF by (auto simp: reading_args_def)
    then show ?thesis using Nil unfolding obs_handleConnection [of uni C E B c]
      by (auto simp: connection_turn_def served_def obs_def)
  next
    case (Cons args rest)
    then have ok: "turn_ok uni C E B rest" "pipe_ok uni C E B rest" using assms by blast+
    obtain d where d: "Decoder_Decode (decoder c) = Got (args_view args, d)" "reading_args B rest (decoded d c)"
      "ParseCommand uni (args_view args) = Inr (command_of uni args)"
      by (rule reading_args_step [OF rd [unfolded Cons]])
    let ?cmd = "command_of uni args"
    obtain t a r b where h: "handle C ?cmd (tx c) = (t, a, r, b)" by (cases "handle C ?cmd (tx c)")
    let ?c = "(decoded d c)\<lparr>tx := t\<rparr>"
    have rd2: "reading_args B rest ?c" by (rule reading_args_cong [OF d(2)]) simp_all
    show ?thesis
    proof (cases "a = actionPassthrough")
      case True
      then have pl: "plain C (tx c) ?cmd" "t = tx c" using passthrough_plain h by blast+
      have "obs (handleConnection uni C E B c) = obind (pipelineLoop uni C E B [?cmd] ?c) (resume uni C E B)"
        using d(1,3) h True
        by (simp add: obs_handleConnection [of _ _ _ _ c] connection_turn_def obind_assoc resume_def)
          (rule obind_cong, auto simp: resume_def split: status.splits)
      also have "\<dots> = served C E ([?cmd] @ map (command_of uni) rest) ?c"
        using ok(2) rd2 pl unfolding pipe_ok_def by simp
      finally show ?thesis using Cons pl(2) by (simp add: served_def)
    next
      case False
      have "obs (handleConnection uni C E B c) =
          obind (handleAction C E a r b ?c) (\<lambda>c1. obs (handleConnection uni C E B (flush_if_idle B c1)))"
        using d(1,3) h False
        by (simp add: obs_handleConnection [of _ _ _ _ c] connection_turn_def obind_assoc)
      also have "\<dots> = obind (serve C E (?cmd # map (command_of uni) rest) (tx c) (wk ?c))
          (\<lambda>(w, rs). Ret (w, sent ?c @ wbuf ?c @ rs, []))"
        using h by (intro turn_ok_after_action [OF ok(1) rd2 False]) simp
      finally show ?thesis using Cons by (simp add: served_def)
    qed
  qed
qed

lemma both_ok: "turn_ok uni C E B argss \<and> pipe_ok uni C E B argss"
proof (induction argss)
  case Nil
  have t: "turn_ok uni C E B []" by (rule turn_ok_step) simp
  moreover have "\<not> B (frames c)" if "reading_args B [] c" for c using that by (auto simp: reading_args_def)
  ultimately show ?case unfolding pipe_ok_def using pipe_ok_idle [OF t] by blast
next
  case (Cons args rest)
  have t: "turn_ok uni C E B (args # rest)" by (rule turn_ok_step) (use Cons in simp)
  then show ?case unfolding pipe_ok_def using pipe_ok_idle [OF t] pipe_ok_more Cons by blast
qed

subsection \<open>Pipelining\<close>

lemma reading_args_new:
  "list_all (\<lambda>a. args_ok a \<and> a \<noteq> []) argss \<Longrightarrow> (\<And>n. B n \<Longrightarrow> n < length argss) \<Longrightarrow>
   reading_args B argss (new_conn (Aof.log argss) w)"
  by (simp add: reading_args_def new_conn_def NewDecoder_def)

text \<open>
  C6: pipelining cannot be told from sending the commands one at a time. However the
  bytes of the commands arrive, and whatever the server folds into one request, the client
  gets exactly the replies the commands would get one after the other, in that order and
  all of them, and the worker ends in the same state.
\<close>

theorem pipelining_transparent:
  assumes "list_all (\<lambda>a. args_ok a \<and> a \<noteq> []) argss" "\<And>n. buffered n \<Longrightarrow> n < length argss"
  shows "obind (handleConnection uni C E buffered (new_conn (Aof.log argss) w)) (\<lambda>c. Ret (wk c, sent c)) =
    serve C E (map (command_of uni) argss) newTxState w"
proof -
  let ?c = "new_conn (Aof.log argss) w"
  have "wbuf ?c = []" "sent ?c = []" "tx ?c = newTxState" "wk ?c = w" by (simp_all add: new_conn_def)
  then have "obs (handleConnection uni C E buffered ?c) =
      obind (serve C E (map (command_of uni) argss) newTxState w) (\<lambda>(w, r). Ret (w, r, []))"
    using both_ok [of uni C E buffered argss] reading_args_new [OF assms] unfolding turn_ok_def served_def by simp
  then show ?thesis
    by (cases "handleConnection uni C E buffered ?c"; cases "serve C E (map (command_of uni) argss) newTxState w")
      (auto simp: obs_def)
qed

theorem pipelining_transparent_witness:
  "obind (handleConnection (\<lambda>s. s) ctx0 (\<lambda>_. env0) (\<lambda>n. n < 2)
      (new_conn (Aof.log [[''MULTI''], [''GET'', ''k'']]) \<lparr>turn = 0, st = start\<rparr>)) (\<lambda>c. Ret (wk c, sent c)) =
    serve ctx0 (\<lambda>_. env0) [\<lparr>Cname = ''MULTI'', Args = []\<rparr>, \<lparr>Cname = ''GET'', Args = [''k'']\<rparr>] newTxState \<lparr>turn = 0, st = start\<rparr>"
  using pipelining_transparent [of "[[''MULTI''], [''GET'', ''k'']]" "\<lambda>n. n < 2" "\<lambda>s. s" ctx0 "\<lambda>_. env0" "\<lparr>turn = 0, st = start\<rparr>"]
  by (simp add: args_ok_def bulk_ok_def command_of_def ToUpper_def is_ascii_def upper_char_def)

subsection \<open>Replies out of order, and lost\<close>

lemma bufio_write_small: "length p \<le> 4096 \<Longrightarrow> bufio_write p [] s = (p, s)"
  by (simp add: bufio_write.simps)

lemma writer_Write_small: "wbuf c = [] \<Longrightarrow> length p \<le> 4096 \<Longrightarrow> writer_Write p c = c\<lparr>wbuf := p\<rparr>"
  by (simp add: writer_Write_def bufio_write_small)

lemma plain_new: "Cname c \<notin> set control \<Longrightarrow> handle C c newTxState = (newTxState, actionPassthrough, [], [])"
  by (simp add: handle_plain)


lemma ping_example: "run_request ctx0 (\<lambda>_. env0) (single \<lparr>Cname = ''PING'', Args = []\<rparr>) \<lparr>turn = 0, st = start\<rparr> =
    Ret (\<lparr>turn = 1, st = tick env0 start\<rparr>, EncodeSimpleString ''PONG'')"
proof -
  have "checkCluster ctx0 c = None" for c by (simp add: checkCluster_def checkKeys_def)
  then show ?thesis
    by (simp add: run_request_def single_def Dispatch_def commands_def no_limit_room handlePing_def log_command_def
        writeCommands_def Let_def split: option.splits)
qed


text \<open>
  A reply still in the writer when the next value cannot be decoded is never sent: here the
  OK of MULTI, when bytes that are no RESP value came with it.
\<close>

lemma reply_lost:
  "\<exists>c. handleConnection (\<lambda>s. s) C E (\<lambda>n. n = 1) (new_conn (EncodeArray [''MULTI''] @ ''x'') w) = Ret c \<and>
    sent c = [] \<and> wbuf c = EncodeSimpleString ''OK''"
proof -
  let ?c = "new_conn (EncodeArray [''MULTI''] @ ''x'') w"
  have cmd: "command_of (\<lambda>s. s) [''MULTI''] = \<lparr>Cname = ''MULTI'', Args = []\<rparr>"
    by (simp add: command_of_def ToUpper_def is_ascii_def upper_char_def)
  have "args_ok [''MULTI'']" "dec_r (decoder ?c) = EncodeArray [''MULTI''] @ ''x''"
    by (simp_all add: args_ok_def bulk_ok_def new_conn_def NewDecoder_def)
  then obtain d where d: "Decoder_Decode (decoder ?c) = Got (args_view [''MULTI''], d)" "dec_r d = ''x''"
    by (rule Decoder_Decode_args)
  have bad: "\<exists>e. Decoder_Decode d = Fail e" using d(2) by (simp add: Decoder_Decode_def decode.simps)
  let ?c1 = "(decoded d ?c)\<lparr>tx := newTxState\<lparr>isMulti := True\<rparr>, wbuf := EncodeSimpleString ''OK''\<rparr>"
  have "handle C \<lparr>Cname = ''MULTI'', Args = []\<rparr> newTxState =
      (newTxState\<lparr>isMulti := True\<rparr>, actionReply, EncodeSimpleString ''OK'', [])" by (simp add: handle_def)
  then have "connection_turn (\<lambda>s. s) C E (\<lambda>n. n = 1) ?c = Ret (Open ?c1)"
    using d(1) ParseCommand_args [of "[''MULTI'']" "\<lambda>s. s"] cmd
    by (simp add: connection_turn_def handleAction_def writer_Write_small flush_if_idle_def new_conn_def decoded_def
        EncodeSimpleString_def)
  moreover have "connection_turn (\<lambda>s. s) C E (\<lambda>n. n = 1) ?c1 = Ret (Closed ?c1)"
    using bad by (auto simp: connection_turn_def)
  ultimately have "handleConnection (\<lambda>s. s) C E (\<lambda>n. n = 1) ?c = Ret ?c1"
    by (subst handleConnection.simps, simp, subst handleConnection.simps) simp
  then show ?thesis by (simp add: new_conn_def decoded_def)
qed

text \<open>
  An empty transaction: \<^verbatim>\<open>batch\<close> is nil, so the worker takes the request for a single
  command, and its name is empty.
\<close>

lemma empty_exec:
  "serve C E [\<lparr>Cname = ''MULTI'', Args = []\<rparr>, \<lparr>Cname = ''EXEC'', Args = []\<rparr>] newTxState w =
     Ret (\<lparr>turn = turn w + 1, st = tick (E (turn w)) (st w)\<rparr>, EncodeSimpleString ''OK'' @ unknown_command [])"
proof -
  have "commands [] = None" by (simp add: commands_def)
  then show ?thesis by (simp add: handle_def run_request_def batch_of_def no_command_def Dispatch_def)
qed

end
