(* ===== verification/Script.thy ===== *)
theory Script
  imports Pipelining
begin

text \<open>
  A connection of \<^verbatim>\<open>server/tcp_server.go\<close> seen from the outside: the requests it sends to the worker and
  what it writes, as a script computed from the bytes it reads. The lemma at the end says that
  \<^verbatim>\<open>handleConnection\<close> carries out its script, whatever the worker answers.
\<close>

subsection \<open>A connection as a script\<close>

text \<open>
  What a connection does besides reading: ask the worker for something, write to its
  buffered writer, write past it, flush, or die of a value the decoder cannot handle.
\<close>

datatype act = Submit CommandRequest | Buffer string | Direct string | Flush | Die

definition pipeline_req :: "Command list \<Rightarrow> CommandRequest" where
  "pipeline_req p = (if length p = 1 then single (p ! 0) else pipeline_of p)"

definition action_script :: "txAction \<Rightarrow> string \<Rightarrow> Command list \<Rightarrow> act list" where
  "action_script action txReply batch =
     (case action of actionReply \<Rightarrow> [Buffer txReply] | actionExec \<Rightarrow> [Submit (batch_of batch)] | actionPassthrough \<Rightarrow> [])"

definition idle_script :: "(nat \<Rightarrow> bool) \<Rightarrow> nat \<Rightarrow> act list" where
  "idle_script buffered n = (if \<not> buffered n then [Flush] else [])"

text \<open>What is left of a connection between two acts: its decoder, the values decoded, its transaction.\<close>

type_synonym reader = "Decoder \<times> nat \<times> txState"

function pipe_script ::
  "(string \<Rightarrow> string) \<Rightarrow> ctx \<Rightarrow> (nat \<Rightarrow> bool) \<Rightarrow> Command list \<Rightarrow> Decoder \<Rightarrow> nat \<Rightarrow> txState \<Rightarrow> act list \<times> reader option" where
  "pipe_script uni C buffered p d n t =
     (if \<not> buffered n then ([Submit (pipeline_req p)], Some (d, n, t))
      else case Decoder_Decode d of
        Crash \<Rightarrow> ([Die], None)
      | Fail e \<Rightarrow> ([Submit (pipeline_req p), Flush], None)
      | Got (v, d1) \<Rightarrow>
          (case ParseCommand uni v of
             Inl perr \<Rightarrow> ([Submit (pipeline_req p), Direct (EncodeError (''ERR '' @ perr))], Some (d1, n + 1, t))
           | Inr cmd \<Rightarrow>
               (let (t1, action, txReply, batch) = handle C cmd t
                in if action \<noteq> actionPassthrough
                   then (Submit (pipeline_req p) # action_script action txReply batch, Some (d1, n + 1, t1))
                   else pipe_script uni C buffered (p @ [cmd]) d1 (n + 1) t1)))"
  by pat_completeness auto
termination
  by (relation "measure (\<lambda>(uni, C, buffered, p, d, n, t). length (dec_r d))") (auto dest: Decoder_Decode_length)

declare pipe_script.simps [simp del]

definition turn_script ::
  "(string \<Rightarrow> string) \<Rightarrow> ctx \<Rightarrow> (nat \<Rightarrow> bool) \<Rightarrow> Decoder \<Rightarrow> nat \<Rightarrow> txState \<Rightarrow> act list \<times> reader option" where
  "turn_script uni C buffered d n t =
     (case Decoder_Decode d of
        Crash \<Rightarrow> ([Die], None)
      | Fail e \<Rightarrow> ([], None)
      | Got (v, d1) \<Rightarrow>
          (case ParseCommand uni v of
             Inl err \<Rightarrow> ([Direct (EncodeError (''ERR '' @ err))], Some (d1, n + 1, t))
           | Inr cmd \<Rightarrow>
               (let (t1, action, txReply, batch) = handle C cmd t
                in if action \<noteq> actionPassthrough
                   then (action_script action txReply batch @ idle_script buffered (n + 1), Some (d1, n + 1, t1))
                   else case pipe_script uni C buffered [cmd] d1 (n + 1) t1 of
                     (acts, None) \<Rightarrow> (acts, None)
                   | (acts, Some (d2, n2, t2)) \<Rightarrow> (acts @ idle_script buffered n2, Some (d2, n2, t2)))))"

lemma pipe_script_length:
  "pipe_script uni C B p d n t = (acts, Some (d', n', t')) \<Longrightarrow> length (dec_r d') \<le> length (dec_r d)"
proof (induction uni C B p d n t arbitrary: acts rule: pipe_script.induct)
  case (1 uni C B p d n t)
  show ?case
  proof (cases "B n")
    case B: True
    then obtain v d1 where d: "Decoder_Decode d = Got (v, d1)"
      using 1(2) by (cases "Decoder_Decode d") (auto simp: pipe_script.simps [of uni C B p d])
    note less = Decoder_Decode_length [OF d]
    show ?thesis
    proof (cases "ParseCommand uni v")
      case (Inr cmd)
      obtain t1 a r b where h: "handle C cmd t = (t1, a, r, b)" by (cases "handle C cmd t")
      show ?thesis
      proof (cases "a = actionPassthrough")
        case True
        have "pipe_script uni C B (p @ [cmd]) d1 (n + 1) t1 = (acts, Some (d', n', t'))"
          using 1(2) B d Inr h True by (simp add: pipe_script.simps [of uni C B p d])
        from 1(1) [OF _ d refl Inr h [symmetric] refl refl refl _ this] B True less show ?thesis by simp
      next
        case False
        then show ?thesis using 1(2) B d Inr h less by (auto simp: pipe_script.simps [of uni C B p d])
      qed
    next
      case (Inl e)
      then show ?thesis using 1(2) B d less by (auto simp: pipe_script.simps [of uni C B p d])
    qed
  next
    case False
    then show ?thesis using 1(2) by (simp add: pipe_script.simps [of uni C B p d])
  qed
qed

lemma turn_script_length:
  "turn_script uni C B d n t = (acts, Some (d', n', t')) \<Longrightarrow> length (dec_r d') < length (dec_r d)"
  by (auto simp: turn_script_def Let_def dest!: Decoder_Decode_length pipe_script_length
      split: reading.splits sum.splits prod.splits if_splits option.splits)

function script :: "(string \<Rightarrow> string) \<Rightarrow> ctx \<Rightarrow> (nat \<Rightarrow> bool) \<Rightarrow> Decoder \<Rightarrow> nat \<Rightarrow> txState \<Rightarrow> act list" where
  "script uni C buffered d n t =
     (case turn_script uni C buffered d n t of
        (acts, None) \<Rightarrow> acts
      | (acts, Some (d1, n1, t1)) \<Rightarrow> acts @ script uni C buffered d1 n1 t1)"
  by pat_completeness auto
termination
  by (relation "measure (\<lambda>(uni, C, buffered, d, n, t). length (dec_r d))") (auto dest: turn_script_length [OF sym])

declare script.simps [simp del]

text \<open>The requests of a script, and what it writes once it has got its replies: what is buffered, and what is sent.\<close>

fun asks :: "act list \<Rightarrow> CommandRequest list" where
  "asks [] = []"
| "asks (Submit req # acts) = req # asks acts"
| "asks (_ # acts) = asks acts"

definition write_out :: "string \<Rightarrow> string \<times> string \<Rightarrow> string \<times> string" where
  "write_out p o1 = bufio_write p (fst o1) (snd o1)"

fun write_act :: "act \<Rightarrow> string \<times> string \<Rightarrow> string \<times> string" where
  "write_act (Buffer p) o1 = write_out p o1"
| "write_act (Direct p) (b, s) = (b, s @ p)"
| "write_act Flush (b, s) = ([], s @ b)"
| "write_act _ o1 = o1"

fun emit :: "act list \<Rightarrow> string list \<Rightarrow> string \<times> string \<Rightarrow> string \<times> string" where
  "emit [] rs o1 = o1"
| "emit (Submit req # acts) (r # rs) o1 = emit acts rs (write_out r o1)"
| "emit (Submit req # acts) [] o1 = o1"
| "emit (a # acts) rs o1 = emit acts rs (write_act a o1)"

lemma asks_append [simp]: "asks (xs @ ys) = asks xs @ asks ys"
  by (induction xs rule: asks.induct) simp_all

lemma emit_append: "length rs = length (asks xs) \<Longrightarrow> emit (xs @ ys) (rs @ rs') o1 = emit ys rs' (emit xs rs o1)"
  by (induction xs rs o1 rule: emit.induct) simp_all

text \<open>A script carried out against a worker no one else uses.\<close>

definition carry_out :: "ctx \<Rightarrow> (nat \<Rightarrow> env) \<Rightarrow> act list \<Rightarrow> conn \<Rightarrow> (worker \<times> string \<times> string) outcome" where
  "carry_out C E acts c =
     obind (dispatchWorker C E (asks acts) (wk c)) (\<lambda>(w, rs).
       if Die \<in> set acts then Panic
       else let (b, s) = emit acts rs (wbuf c, sent c) in Ret (w, s, b))"

lemma dispatchWorker_length: "dispatchWorker C E reqs w = Ret (w', rs) \<Longrightarrow> length rs = length reqs"
  by (induction reqs arbitrary: w rs) auto

lemma carry_out_simps:
  "carry_out C E [] c = Ret (wk c, sent c, wbuf c)"
  "carry_out C E (Submit req # acts) c = obind (submit C E req c) (carry_out C E acts)"
  "carry_out C E (Buffer p # acts) c = carry_out C E acts (writer_Write p c)"
  "carry_out C E (Direct p # acts) c = carry_out C E acts (conn_Write p c)"
  "carry_out C E (Flush # acts) c = carry_out C E acts (writer_Flush c)"
  "carry_out C E (Die # acts) c = Panic"
  by (auto simp: carry_out_def submit_def writer_Write_def conn_Write_def writer_Flush_def write_out_def obind_assoc case_prod_beta'
      Let_def intro!: obind_cong)
    (cases "dispatchWorker C E (asks acts) (wk c)"; simp)

lemma carry_out_cong: "wk c = wk c' \<Longrightarrow> sent c = sent c' \<Longrightarrow> wbuf c = wbuf c' \<Longrightarrow> carry_out C E acts c = carry_out C E acts c'"
  by (simp only: carry_out_def)

lemma carry_out_action:
  "carry_out C E (action_script a r b @ acts) c = obind (handleAction C E a r b c) (carry_out C E acts)"
  by (cases a) (simp_all add: action_script_def handleAction_def carry_out_simps)

lemma carry_out_idle: "carry_out C E (idle_script B n @ acts) c = carry_out C E acts (if \<not> B n then writer_Flush c else c)"
  by (simp add: idle_script_def carry_out_simps)

lemma dispatchPipeline_req: "dispatchPipeline C E p = submit C E (pipeline_req p)"
  by (rule ext) (simp add: dispatchPipeline_def dispatchSingle_def pipeline_req_def)

definition rest_of :: "(string \<Rightarrow> string) \<Rightarrow> ctx \<Rightarrow> (nat \<Rightarrow> bool) \<Rightarrow> reader option \<Rightarrow> act list" where
  "rest_of uni C B rd = (case rd of None \<Rightarrow> [] | Some (d, n, t) \<Rightarrow> script uni C B d n t)"

lemma script_rest: "script uni C B d n t = (let (acts, rd) = turn_script uni C B d n t in acts @ rest_of uni C B rd)"
  by (subst script.simps) (auto simp: rest_of_def split: prod.splits option.splits)

text \<open>The connection stands where the script's reader is.\<close>

fun stands :: "reader option \<Rightarrow> status \<Rightarrow> bool" where
  "stands None (Closed c) = True"
| "stands (Some (d, n, t)) (Open c) \<longleftrightarrow> decoder c = d \<and> frames c = n \<and> tx c = t"
| "stands _ _ = False"

definition conn_of :: "status \<Rightarrow> conn" where
  "conn_of s = (case s of Open c \<Rightarrow> c | Closed c \<Rightarrow> c)"

lemma tx_conn_Write: "tx (conn_Write p c) = tx c"
  by (simp add: conn_Write_def)

lemma pipe_script_sound:
  assumes "pipe_script uni C B p (decoder c) (frames c) (tx c) = (acts, rd)"
  shows "carry_out C E (acts @ after) c = obind (pipelineLoop uni C E B p c) (\<lambda>s. carry_out C E after (conn_of s)) \<and>
    (\<forall>s. pipelineLoop uni C E B p c = Ret s \<longrightarrow> stands rd s)"
  using assms
proof (induction "length (dec_r (decoder c))" arbitrary: p c rule: less_induct)
  case 1: less
  note loop = pipelineLoop.simps [of uni C E B p c]
  note scr = 1(2) [unfolded pipe_script.simps [of uni C B p "decoder c"]]
  show ?case
  proof (cases "B (frames c)")
    case False
    then show ?thesis using scr
      by (auto simp: loop dispatchPipeline_req carry_out_simps conn_of_def obind_assoc dest!: submit_frame intro!: obind_cong)
  next
    case B: True
    show ?thesis
    proof (cases "Decoder_Decode (decoder c)")
      case (Got x)
      then obtain v d where d: "Decoder_Decode (decoder c) = Got (v, d)" by (cases x) auto
      note less = Decoder_Decode_length [OF d]
      show ?thesis
      proof (cases "ParseCommand uni v")
        case (Inl e)
        have "carry_out C E as c = carry_out C E as (decoded d c)" for as by (rule carry_out_cong) simp_all
        then show ?thesis using scr B d Inl
          by (auto simp: loop dispatchPipeline_req carry_out_simps conn_of_def obind_assoc tx_conn_Write
              dest!: submit_frame intro!: obind_cong)
      next
        case (Inr cmd)
        obtain t a r b where h: "handle C cmd (tx c) = (t, a, r, b)" by (cases "handle C cmd (tx c)")
        let ?c = "(decoded d c)\<lparr>tx := t\<rparr>"
        have same: "carry_out C E as c = carry_out C E as ?c" for as by (rule carry_out_cong) simp_all
        show ?thesis
        proof (cases "a = actionPassthrough")
          case True
          have "pipe_script uni C B (p @ [cmd]) (decoder ?c) (frames ?c) (tx ?c) = (acts, rd)"
            using scr B d Inr h True by simp
          from 1(1) [OF _ this] less B d Inr h True show ?thesis by (simp add: same [of "acts @ after"] loop)
        next
          case False
          then show ?thesis using scr B d Inr h
            by (auto simp: loop same dispatchPipeline_req carry_out_simps carry_out_action conn_of_def obind_assoc
                dest!: submit_frame handleAction_frame intro!: obind_cong)
        qed
      qed
    qed (use scr B in \<open>auto simp: loop dispatchPipeline_req carry_out_simps conn_of_def obind_assoc intro!: obind_cong\<close>)
  qed
qed

lemma turn_script_sound:
  assumes "turn_script uni C B (decoder c) (frames c) (tx c) = (acts, rd)"
  shows "carry_out C E (acts @ after) c = obind (connection_turn uni C E B c) (\<lambda>s. carry_out C E after (conn_of s)) \<and>
    (\<forall>s. connection_turn uni C E B c = Ret s \<longrightarrow> stands rd s)"
proof (cases "Decoder_Decode (decoder c)")
  case (Got x)
  then obtain v d where d: "Decoder_Decode (decoder c) = Got (v, d)" by (cases x) auto
  note turn = connection_turn_def [of uni C E B c] turn_script_def [of uni C B "decoder c"]
  show ?thesis
  proof (cases "ParseCommand uni v")
    case (Inl e)
    have "carry_out C E as c = carry_out C E as (decoded d c)" for as by (rule carry_out_cong) simp_all
    then show ?thesis using assms d Inl by (auto simp: turn carry_out_simps conn_of_def tx_conn_Write)
  next
    case (Inr cmd)
    obtain t a r b where h: "handle C cmd (tx c) = (t, a, r, b)" by (cases "handle C cmd (tx c)")
    let ?c = "(decoded d c)\<lparr>tx := t\<rparr>"
    have same: "carry_out C E as c = carry_out C E as ?c" for as by (rule carry_out_cong) simp_all
    show ?thesis
    proof (cases "a = actionPassthrough")
      case False
      then have "handleAction C E a r b ?c = Ret c1 \<Longrightarrow> frames c1 = Suc (frames c)" for c1 by (auto dest: handleAction_frame)
      then show ?thesis using assms d Inr h False
        by (auto simp: turn same carry_out_action carry_out_idle conn_of_def obind_assoc flush_if_idle_def
            dest!: handleAction_frame intro!: obind_cong)
    next
      case True
      obtain as rd1 where p: "pipe_script uni C B [cmd] (decoder ?c) (frames ?c) (tx ?c) = (as, rd1)" by fastforce
      note sound = pipe_script_sound [OF p, of E]
      have idle: "stands (Some (d2, n2, t2)) s \<Longrightarrow> \<exists>c2. s = Open c2 \<and> frames c2 = n2 \<and> decoder c2 = d2 \<and> tx c2 = t2" for s d2 n2 t2
        by (cases s) auto
      show ?thesis
      proof (cases rd1)
        case None
        then have "acts = as" "rd = None" using assms d Inr h True p by (simp_all add: turn)
        moreover have "stands None s \<Longrightarrow> \<exists>c2. s = Closed c2" for s by (cases s) auto
        ultimately show ?thesis using sound [of after] None d Inr h True
          by (cases "pipelineLoop uni C E B [cmd] ?c") (force simp: turn same conn_of_def)+
      next
        case (Some rd2)
        then obtain d2 n2 t2 where rd2: "rd1 = Some (d2, n2, t2)" by (cases rd2) auto
        then have "acts = as @ idle_script B n2" "rd = rd1" using assms d Inr h True p by (simp_all add: turn)
        then show ?thesis using sound [of "idle_script B n2 @ after"] rd2 d Inr h True
          by (auto simp: turn same conn_of_def obind_assoc carry_out_idle flush_if_idle_def intro!: obind_cong dest!: idle)
      qed
    qed
  qed
qed (use assms in \<open>auto simp: connection_turn_def turn_script_def carry_out_simps conn_of_def\<close>)

lemma handleConnection_carries_out:
  "obs (handleConnection uni C E B c) = carry_out C E (script uni C B (decoder c) (frames c) (tx c)) c"
proof (induction "length (dec_r (decoder c))" arbitrary: c rule: less_induct)
  case less
  obtain acts rd where t: "turn_script uni C B (decoder c) (frames c) (tx c) = (acts, rd)" by fastforce
  have step: "carry_out C E (rest_of uni C B rd) (conn_of s) =
      (case s of Open c1 \<Rightarrow> obs (handleConnection uni C E B c1) | Closed c1 \<Rightarrow> obs (Ret c1))"
    if s: "connection_turn uni C E B c = Ret s" for s
  proof (cases s)
    case (Open c1)
    moreover have "rd = Some (decoder c1, frames c1, tx c1)"
      using turn_script_sound [OF t, of E "[]"] s Open by (cases "(rd, s)" rule: stands.cases) auto
    ultimately show ?thesis using less [of c1] connection_turn_length s by (simp add: rest_of_def conn_of_def)
  next
    case (Closed c1)
    moreover have "rd = None" using turn_script_sound [OF t, of E "[]"] s Closed by (cases "(rd, s)" rule: stands.cases) auto
    ultimately show ?thesis by (simp add: rest_of_def conn_of_def obs_def carry_out_simps)
  qed
  show ?case
    using turn_script_sound [OF t, of E "rest_of uni C B rd"] step
    by (simp add: script_rest t obs_handleConnection [of _ _ _ _ c] cong: obind_cong)
qed

text \<open>
  C16: a connection does not look at the replies it passes on, so what it asks for follows
  from what it reads alone. Serving it is running the requests of its script, one after the
  other, and writing what the script says with the replies put in their places.
\<close>

theorem connection_follows_script:
  "obs (handleConnection uni C E buffered c) =
    obind (dispatchWorker C E (asks (script uni C buffered (decoder c) (frames c) (tx c))) (wk c)) (\<lambda>(w, rs).
      if Die \<in> set (script uni C buffered (decoder c) (frames c) (tx c)) then Panic
      else let (b, s) = emit (script uni C buffered (decoder c) (frames c) (tx c)) rs (wbuf c, sent c) in Ret (w, s, b))"
  using handleConnection_carries_out [of uni C E buffered c] by (simp only: carry_out_def)

end
