(* ===== verification/Expiry.thy ===== *)
theory Expiry
  imports Pipelining
begin

text \<open>
  Active expiry, \<^verbatim>\<open>startActiveExpiry\<close> of \<^verbatim>\<open>server/tcp_server.go\<close>: the rounds of one tick.
\<close>

subsection \<open>Active expiry\<close>

definition expiry_request :: CommandRequest where
  "expiry_request = single \<lparr>Cname = ''_EXPIRY'', Args = []\<rparr>"

text \<open>
  What \<^verbatim>\<open>startActiveExpiry\<close> does at a tick of its timer, on a server with no other work:
  rounds, until one finds fewer than five keys.
\<close>

partial_function (option) expiry_tick :: "ctx \<Rightarrow> (nat \<Rightarrow> env) \<Rightarrow> worker \<Rightarrow> worker outcome option" where
  "expiry_tick C E w =
     (case run_request C E expiry_request w of
        Panic \<Rightarrow> Some Panic
      | Ret (w', reply) \<Rightarrow>
          (case DecodeInteger reply of
             None \<Rightarrow> Some (Ret w')
           | Some deletedKeys \<Rightarrow> if deletedKeys < 5 then Some (Ret w') else expiry_tick C E w'))"

lemma DecodeInteger_EncodeInteger: "in_int64 n \<Longrightarrow> DecodeInteger (EncodeInteger n) = Some n"
  by (simp add: DecodeInteger_def EncodeInteger_def TrimPrefix_def TrimSuffix_def)

lemma checkCluster_no_keys: "Cname cmd = ''_EXPIRY'' \<Longrightarrow> checkCluster C cmd = None"
  by (simp add: checkCluster_def keys_of_def KeysOf_def keySpecs_def noKeys_def checkKeys_def split: option.splits)

lemma expiry_round:
  "run_request C E expiry_request w =
     (let (s', n) = DeleteExpired (E (turn w)) (db (tick (E (turn w)) (st w)))
      in Ret (\<lparr>turn = turn w + 1, st = (st w)\<lparr>db := s'\<rparr>\<rparr>, EncodeInteger (int n)))"
proof -
  let ?c = "\<lparr>Cname = ''_EXPIRY'', Args = []\<rparr>"
  have "commands ''_EXPIRY'' = Some handleExpiry" by (simp add: commands_def)
  moreover have "make_room C E' ?c s = Ret (s, False)" for E' s by (simp add: make_room_def denyOOMCommands_def)
  moreover have "log_command E' ?c r s = s" for E' r s by (simp add: log_command_def writeCommands_def split: option.splits)
  ultimately show ?thesis
    by (simp add: run_request_def expiry_request_def single_def Dispatch_def checkCluster_no_keys handleExpiry_def tick_def
        Let_def split: prod.splits)
qed

lemma delete_shorter: "length (AList.delete k d) + (if map_of d k = None then 0 else 1) \<le> length d"
  by (induction d) (auto simp: AList.delete_eq)

text \<open>A round removes keys that are over at its instant, and the number it reports is theirs.\<close>

lemma expire_loop_removes:
  "expire_loop keys c d s = (s', n) \<Longrightarrow>
     length (data s') + n \<le> length (data s) + d \<and> (c \<le> 20 \<longrightarrow> n + c \<le> d + 20) \<and>
     (\<forall>k. look s' k = look s k \<or> look s' k = None \<and> expired_key s k)"
proof (induction keys arbitrary: c d s)
  case (Cons key keys)
  show ?case
  proof (cases "c \<ge> 20 \<or> look s key = None")
    case True
    then show ?thesis using Cons.prems Cons.IH by (auto split: if_splits)
  next
    case False
    then obtain e where e: "look s key = Some e" "c < 20" by auto
    show ?thesis
    proof (cases "isExpired s e")
      case True
      then have "expiresAt e \<noteq> None" by (auto simp: isExpired_def split: option.splits)
      then have rest: "expire_loop keys (c + 1) (d + 1) (removeKey key s) = (s', n)" using Cons.prems e True by (auto split: if_splits)
      note ih = Cons.IH [OF rest]
      have "expired_key s key" using e(1) True by (simp add: expired_key_def)
      moreover have "look (removeKey key s) = (look s)(key := None)" by (rule ks.get_del)
      moreover have "expired_key (removeKey key s) k \<Longrightarrow> expired_key s k" for k
        using ks.get_del [of key s] by (auto simp: expired_key_def split: option.splits if_splits)
      moreover have "length (data (removeKey key s)) + 1 \<le> length (data s)" using delete_shorter [of key "data s"] e(1) by simp
      ultimately show ?thesis using ih e(2) by (auto split: if_splits)
    next
      case False
      then show ?thesis using Cons.prems e Cons.IH [of "c + 1" d s] Cons.IH [of c d s] by (auto split: if_splits)
    qed
  qed
qed simp

definition over_by :: "(nat \<Rightarrow> env) \<Rightarrow> entry \<Rightarrow> bool" where
  "over_by E e \<longleftrightarrow> (\<exists>x i. expiresAt e = Some x \<and> x \<le> instant (E i))"

text \<open>
  C17: a tick of active expiry ends, on any store and however many keys are over. It
  removes keys past their deadline only and writes nothing to the log.
\<close>

theorem expiry_tick_ends:
  "\<exists>w'. expiry_tick C E w = Some (Ret w') \<and> aof (st w') = aof (st w) \<and> turn w < turn w' \<and>
     (\<forall>k. look (db (st w')) k = look (db (st w)) k \<or>
       look (db (st w')) k = None \<and> (\<exists>e. look (db (st w)) k = Some e \<and> over_by E e))"
proof (induction "length (data (db (st w)))" arbitrary: w rule: less_induct)
  case less
  let ?E = "E (turn w)" and ?s = "db (tick (E (turn w)) (st w))"
  obtain s' n where round: "DeleteExpired ?E ?s = (s', n)" by (cases "DeleteExpired ?E ?s")
  define w1 where "w1 = \<lparr>turn = turn w + 1, st = (st w)\<lparr>db := s'\<rparr>\<rparr>"
  have run: "run_request C E expiry_request w = Ret (w1, EncodeInteger (int n))" by (simp add: expiry_round round w1_def)
  note removed = expire_loop_removes [OF round [unfolded DeleteExpired_def]]
  have len: "length (data s') + n \<le> length (data (db (st w)))" using removed by (simp add: tick_def)
  have "int n \<le> 20" using removed by simp
  then have dec: "DecodeInteger (EncodeInteger (int n)) = Some (int n)"
    by (intro DecodeInteger_EncodeInteger) (simp add: in_int64_def)
  have keys: "look (db (st w1)) k = look (db (st w)) k \<or>
      look (db (st w1)) k = None \<and> (\<exists>e. look (db (st w)) k = Some e \<and> over_by E e)" for k
  proof -
    have "expired_key ?s k \<Longrightarrow> \<exists>e. look (db (st w)) k = Some e \<and> over_by E e"
      by (cases "look (db (st w)) k") (auto simp: expired_key_def isExpired_def over_by_def not_less split: option.splits)
    then show ?thesis using removed by (auto simp: w1_def)
  qed
  have step: "expiry_tick C E w = (if int n < 5 then Some (Ret w1) else expiry_tick C E w1)"
    by (subst expiry_tick.simps) (simp add: run dec)
  show ?case
  proof (cases "int n < 5")
    case True
    then show ?thesis using step keys by (simp add: w1_def)
  next
    case False
    then have "length (data (db (st w1))) < length (data (db (st w)))" using len by (simp add: w1_def)
    from less [OF this] obtain w' where w': "expiry_tick C E w1 = Some (Ret w')" "aof (st w') = aof (st w1)" "turn w1 < turn w'"
      "\<And>k. look (db (st w')) k = look (db (st w1)) k \<or>
        look (db (st w')) k = None \<and> (\<exists>e. look (db (st w1)) k = Some e \<and> over_by E e)" by blast
    have "look (db (st w')) k = look (db (st w)) k \<or>
        look (db (st w')) k = None \<and> (\<exists>e. look (db (st w)) k = Some e \<and> over_by E e)" for k
      using w'(4) [of k] keys [of k] by auto
    then show ?thesis using step False w'(1-3) by (intro exI [of _ w']) (simp add: w1_def)
  qed
qed

end
