(* ===== verification/Lifecycle.thy ===== *)
theory Lifecycle
  imports Script Expiry
begin

text \<open>
  The running process of \<^verbatim>\<open>server/tcp_server.go\<close>: the goroutines of \<^verbatim>\<open>Run\<close>, the connections, active expiry and
  the worker, with the channels between them, as a step relation. Invariants hold in every
  reachable state by rule induction; the theorems say that requests are served in one order,
  that channels are used safely, and that a server told to stop loses nothing and can finish.
\<close>

subsection \<open>The state of the process\<close>

text \<open>
  The goroutines that produce requests: the connections, and the one of active expiry.
  Where a goroutine is: between two requests, blocked sending one on \<^verbatim>\<open>commandCh\<close>, waiting on
  its reply channel, or returned. Reply channels are numbered.
\<close>

datatype pc = Running | Sending nat CommandRequest | Awaiting nat CommandRequest | Ended

record goroutine =
  pc :: pc
  expirer :: bool
  todo :: "act list"
  out :: "string \<times> string"
  broken :: bool
  program :: "act list"
  answers :: "(CommandRequest \<times> string) list"

text \<open>
  A connection starts with the script of the bytes it is going to read. It is broken when
  its socket fails or is closed by the server; what it still does then is left open. The
  last two fields are history: the script it started with, and what it asked and was told.
\<close>

definition connection :: "act list \<Rightarrow> goroutine" where
  "connection acts =
     \<lparr>pc = Running, expirer = False, todo = acts, out = ([], []), broken = False, program = acts, answers = []\<rparr>"

definition expiry_loop :: goroutine where
  "expiry_loop = (connection [])\<lparr>expirer := True\<rparr>"

datatype main_pc = Accepting | WaitProducers | WaitWorker | Returned
datatype worker_pc = Receiving | Replying nat string | WorkerDone
datatype crash = SendOnClosed | WorkerPanic | DecoderPanic

text \<open>
  \<open>commandCh\<close> holds requests with their reply channel and, as history, the goroutine that
  sent them; \<open>replies\<close> holds the reply channels that are full, \<open>pool\<close> those of \<^verbatim>\<open>replyChPool\<close>,
  and \<open>unused\<close> bounds those made so far. The history lists the requests the worker has run.
\<close>

record process =
  cancelled :: bool
  listening :: bool
  main :: main_pc
  producers :: nat
  procs :: "goroutine list"
  commandCh :: "(nat \<times> nat \<times> CommandRequest) list"
  closed_ch :: bool
  wpc :: worker_pc
  wrk :: worker
  replies :: "(nat \<times> string) list"
  pool :: "nat list"
  unused :: nat
  synced :: bool
  crashed :: "crash option"
  history :: "(nat \<times> CommandRequest \<times> string) list"

definition started :: "worker \<Rightarrow> process" where
  "started w =
     \<lparr>cancelled = False, listening = True, main = Accepting, producers = 1, procs = [expiry_loop], commandCh = [],
      closed_ch = False, wpc = Receiving, wrk = w, replies = [], pool = [], unused = 0, synced = False, crashed = None,
      history = []\<rparr>"

definition capacity :: nat where
  "capacity = 256"

subsection \<open>Its steps\<close>

abbreviation proc :: "process \<Rightarrow> nat \<Rightarrow> goroutine \<Rightarrow> bool" where
  "proc s i g \<equiv> i < length (procs s) \<and> procs s ! i = g"

abbreviation with_proc :: "process \<Rightarrow> nat \<Rightarrow> goroutine \<Rightarrow> process" where
  "with_proc s i g \<equiv> s\<lparr>procs := (procs s)[i := g]\<rparr>"

text \<open>The steps of a connection, one operation on a channel or the socket each.\<close>

inductive conn_step :: "process \<Rightarrow> process \<Rightarrow> bool" where
  pool_Get: "proc s i g \<Longrightarrow> \<not> expirer g \<Longrightarrow> pc g = Running \<Longrightarrow> todo g = Submit req # acts \<Longrightarrow> ch \<in> set (pool s) \<Longrightarrow>
    conn_step s ((with_proc s i (g\<lparr>pc := Sending ch req, todo := acts\<rparr>))\<lparr>pool := remove1 ch (pool s)\<rparr>)"
| pool_New: "proc s i g \<Longrightarrow> \<not> expirer g \<Longrightarrow> pc g = Running \<Longrightarrow> todo g = Submit req # acts \<Longrightarrow>
    conn_step s ((with_proc s i (g\<lparr>pc := Sending (unused s) req, todo := acts\<rparr>))\<lparr>unused := Suc (unused s)\<rparr>)"
| receive: "proc s i g \<Longrightarrow> \<not> expirer g \<Longrightarrow> pc g = Awaiting ch req \<Longrightarrow> (ch, r) \<in> set (replies s) \<Longrightarrow>
    conn_step s ((with_proc s i (g\<lparr>pc := Running, out := write_out r (out g), answers := answers g @ [(req, r)]\<rparr>))
      \<lparr>replies := remove1 (ch, r) (replies s), pool := ch # pool s\<rparr>)"
| local_act: "proc s i g \<Longrightarrow> \<not> expirer g \<Longrightarrow> pc g = Running \<Longrightarrow> todo g = a # acts \<Longrightarrow> a \<noteq> Die \<Longrightarrow> \<forall>req. a \<noteq> Submit req \<Longrightarrow>
    conn_step s (with_proc s i (g\<lparr>todo := acts, out := write_act a (out g)\<rparr>))"
| die: "proc s i g \<Longrightarrow> \<not> expirer g \<Longrightarrow> pc g = Running \<Longrightarrow> todo g = Die # acts \<Longrightarrow> conn_step s (s\<lparr>crashed := Some DecoderPanic\<rparr>)"
| break_off: "proc s i g \<Longrightarrow> \<not> expirer g \<Longrightarrow> pc g = Running \<Longrightarrow>
    conn_step s (with_proc s i (g\<lparr>todo := acts, broken := True\<rparr>))"
| hang_up: "proc s i g \<Longrightarrow> \<not> expirer g \<Longrightarrow> pc g = Running \<Longrightarrow> todo g = [] \<Longrightarrow>
    conn_step s ((with_proc s i (g\<lparr>pc := Ended\<rparr>))\<lparr>producers := producers s - 1\<rparr>)"

text \<open>The steps of active expiry, which makes a reply channel of its own for each round.\<close>

definition next_round :: "nat \<Rightarrow> string \<Rightarrow> pc" where
  "next_round ch reply =
     (case DecodeInteger reply of
        None \<Rightarrow> Running
      | Some deletedKeys \<Rightarrow> if deletedKeys < 5 then Running else Sending ch expiry_request)"

inductive expiry_step :: "process \<Rightarrow> process \<Rightarrow> bool" where
  ticker: "proc s i g \<Longrightarrow> expirer g \<Longrightarrow> pc g = Running \<Longrightarrow>
    expiry_step s ((with_proc s i (g\<lparr>pc := Sending (unused s) expiry_request\<rparr>))\<lparr>unused := Suc (unused s)\<rparr>)"
| round_over: "proc s i g \<Longrightarrow> expirer g \<Longrightarrow> pc g = Awaiting ch req \<Longrightarrow> (ch, r) \<in> set (replies s) \<Longrightarrow>
    expiry_step s ((with_proc s i (g\<lparr>pc := next_round (unused s) r, answers := answers g @ [(req, r)]\<rparr>))
      \<lparr>replies := remove1 (ch, r) (replies s), unused := Suc (unused s)\<rparr>)"
| expiry_Done: "proc s i g \<Longrightarrow> expirer g \<Longrightarrow> cancelled s \<Longrightarrow> pc g = Running \<or> pc g = Sending ch req \<Longrightarrow>
    expiry_step s ((with_proc s i (g\<lparr>pc := Ended\<rparr>))\<lparr>producers := producers s - 1\<rparr>)"

text \<open>Sending on \<^verbatim>\<open>commandCh\<close>, which blocks while it is full and panics once it is closed.\<close>

inductive send_step :: "process \<Rightarrow> process \<Rightarrow> bool" where
  send: "proc s i g \<Longrightarrow> pc g = Sending ch req \<Longrightarrow> \<not> closed_ch s \<Longrightarrow> length (commandCh s) < capacity \<Longrightarrow>
    send_step s ((with_proc s i (g\<lparr>pc := Awaiting ch req\<rparr>))\<lparr>commandCh := commandCh s @ [(i, ch, req)]\<rparr>)"
| send_closed: "proc s i g \<Longrightarrow> pc g = Sending ch req \<Longrightarrow> closed_ch s \<Longrightarrow> send_step s (s\<lparr>crashed := Some SendOnClosed\<rparr>)"

text \<open>The worker: a request taken and run, its reply sent, and the end of the closed channel.\<close>

inductive worker_step :: "ctx \<Rightarrow> (nat \<Rightarrow> env) \<Rightarrow> process \<Rightarrow> process \<Rightarrow> bool" for C E where
  work: "wpc s = Receiving \<Longrightarrow> commandCh s = (i, ch, req) # ms \<Longrightarrow> run_request C E req (wrk s) = Ret (w, r) \<Longrightarrow>
    worker_step C E s (s\<lparr>wpc := Replying ch r, commandCh := ms, wrk := w, history := history s @ [(i, req, r)]\<rparr>)"
| work_panics: "wpc s = Receiving \<Longrightarrow> commandCh s = (i, ch, req) # ms \<Longrightarrow> run_request C E req (wrk s) = Panic \<Longrightarrow>
    worker_step C E s (s\<lparr>crashed := Some WorkerPanic\<rparr>)"
| reply: "wpc s = Replying ch r \<Longrightarrow> ch \<notin> fst ` set (replies s) \<Longrightarrow>
    worker_step C E s (s\<lparr>wpc := Receiving, replies := (ch, r) # replies s\<rparr>)"
| worker_done: "wpc s = Receiving \<Longrightarrow> commandCh s = [] \<Longrightarrow> closed_ch s \<Longrightarrow> worker_step C E s (s\<lparr>wpc := WorkerDone\<rparr>)"

text \<open>
  The rest: the signal, the closing of the listener, the main goroutine, and the runtime
  dropping a channel from the pool.
\<close>

inductive main_step :: "process \<Rightarrow> process \<Rightarrow> bool" where
  signal: "main_step s (s\<lparr>cancelled := True\<rparr>)"
| close_listener: "cancelled s \<Longrightarrow> main_step s (s\<lparr>listening := False\<rparr>)"
| accept: "main s = Accepting \<Longrightarrow> listening s \<Longrightarrow>
    main_step s (s\<lparr>producers := producers s + 1, procs := procs s @ [connection acts]\<rparr>)"
| accept_fails: "main s = Accepting \<Longrightarrow> cancelled s \<Longrightarrow> main_step s (s\<lparr>main := WaitProducers\<rparr>)"
| wait: "main s = WaitProducers \<Longrightarrow> producers s = 0 \<Longrightarrow> main_step s (s\<lparr>main := WaitWorker, closed_ch := True\<rparr>)"
| drained: "main s = WaitWorker \<Longrightarrow> wpc s = WorkerDone \<Longrightarrow> main_step s (s\<lparr>main := Returned, synced := True\<rparr>)"
| pool_drop: "ch \<in> set (pool s) \<Longrightarrow> main_step s (s\<lparr>pool := remove1 ch (pool s)\<rparr>)"

definition step :: "ctx \<Rightarrow> (nat \<Rightarrow> env) \<Rightarrow> process \<Rightarrow> process \<Rightarrow> bool" where
  "step C E s s' \<longleftrightarrow> crashed s = None \<and>
     (conn_step s s' \<or> expiry_step s s' \<or> send_step s s' \<or> worker_step C E s s' \<or> main_step s s')"

inductive process_runs :: "ctx \<Rightarrow> (nat \<Rightarrow> env) \<Rightarrow> worker \<Rightarrow> process \<Rightarrow> bool" for C E w where
  process_start: "process_runs C E w (started w)"
| process_step: "process_runs C E w s \<Longrightarrow> step C E s s' \<Longrightarrow> process_runs C E w s'"

subsection \<open>Counting goroutines and channels\<close>

lemma sum_list_replace:
  fixes f :: "'a \<Rightarrow> 'b :: comm_monoid_add"
  assumes "i < length xs"
  obtains M where "sum_list (map f xs) = f (xs ! i) + M" "\<And>y. sum_list (map f (xs[i := y])) = f y + M"
proof (rule that [of "sum_list (map f (take i xs)) + sum_list (map f (drop (Suc i) xs))"])
  have "xs = take i xs @ xs ! i # drop (Suc i) xs" using assms by (rule id_take_nth_drop)
  then show "sum_list (map f xs) = f (xs ! i) + (sum_list (map f (take i xs)) + sum_list (map f (drop (Suc i) xs)))"
    by (metis (no_types, lifting) add.left_commute list.simps(9) map_append sum_list.Cons sum_list.append)
qed (use assms in \<open>simp add: upd_conv_take_nth_drop add.left_commute\<close>)

definition alive :: "goroutine \<Rightarrow> nat" where
  "alive g = (if pc g = Ended then 0 else 1)"

definition counted :: "process \<Rightarrow> bool" where
  "counted s \<longleftrightarrow> producers s = sum_list (map alive (procs s))"

lemma alive_positive: "i < length xs \<Longrightarrow> pc (xs ! i) \<noteq> Ended \<Longrightarrow> 0 < sum_list (map alive xs)"
  by (rule sum_list_replace [of i xs alive]) (auto simp: alive_def)

lemma alive_replace:
  "i < length xs \<Longrightarrow> n + alive (xs ! i) = sum_list (map alive xs) + alive g \<Longrightarrow> n = sum_list (map alive (xs[i := g]))"
  by (rule sum_list_replace [of i xs alive]) auto

lemma live_producer: "counted s \<Longrightarrow> i < length (procs s) \<Longrightarrow> pc (procs s ! i) \<noteq> Ended \<Longrightarrow> 0 < producers s"
  by (simp add: counted_def alive_positive)

lemma step_counted: "step C E s s' \<Longrightarrow> counted s \<Longrightarrow> counted s'"
  unfolding step_def
  apply (elim conjE disjE conn_step.cases expiry_step.cases send_step.cases worker_step.cases main_step.cases)
  apply (auto simp: counted_def connection_def alive_def next_round_def dest: alive_positive intro!: alive_replace split: option.splits)
  done

definition phases :: "process \<Rightarrow> bool" where
  "phases s \<longleftrightarrow> (closed_ch s \<longleftrightarrow> main s = WaitWorker \<or> main s = Returned) \<and> (closed_ch s \<longrightarrow> producers s = 0) \<and>
     (wpc s = WorkerDone \<longrightarrow> closed_ch s \<and> commandCh s = []) \<and> (main s = Returned \<longrightarrow> wpc s = WorkerDone \<and> synced s) \<and>
     length (commandCh s) \<le> capacity \<and> crashed s \<noteq> Some SendOnClosed"

lemma step_phases: "step C E s s' \<Longrightarrow> counted s \<Longrightarrow> phases s \<Longrightarrow> phases s'"
  unfolding step_def
  by (elim conjE disjE conn_step.cases expiry_step.cases send_step.cases worker_step.cases main_step.cases)
    (auto simp: phases_def dest: live_producer)

text \<open>
  Every reply channel has one holder at most: a goroutine, or the pool. A goroutine that
  waits on its channel has one request in flight: on \<^verbatim>\<open>commandCh\<close>, with the worker, or
  answered in its channel.
\<close>

definition waits :: "goroutine \<Rightarrow> nat multiset" where
  "waits g = (case pc g of Awaiting ch req \<Rightarrow> {#ch#} | _ \<Rightarrow> {#})"

definition holds :: "goroutine \<Rightarrow> nat multiset" where
  "holds g = (case pc g of Awaiting ch req \<Rightarrow> {#ch#} | Sending ch req \<Rightarrow> {#ch#} | _ \<Rightarrow> {#})"

definition in_flight :: "process \<Rightarrow> nat multiset" where
  "in_flight s = mset (map (\<lambda>(i, ch, req). ch) (commandCh s)) + (case wpc s of Replying ch r \<Rightarrow> {#ch#} | _ \<Rightarrow> {#}) +
     mset (map fst (replies s))"

definition one_each :: "nat multiset \<Rightarrow> nat \<Rightarrow> bool" where
  "one_each M u \<longleftrightarrow> (\<forall>ch. count M ch \<le> (if ch < u then 1 else 0))"

definition channels :: "process \<Rightarrow> bool" where
  "channels s \<longleftrightarrow> in_flight s = sum_list (map waits (procs s)) \<and> one_each (sum_list (map holds (procs s)) + mset (pool s)) (unused s)"

lemma one_each_mono: "one_each M u \<Longrightarrow> M' \<subseteq># M \<Longrightarrow> one_each M' u"
  unfolding one_each_def by (meson le_trans mset_subset_eq_count)

lemma one_each_new:
  assumes "one_each M u" "M' \<subseteq># add_mset u M"
  shows "one_each M' (Suc u)"
proof (rule one_each_mono [OF _ assms(2)], unfold one_each_def, rule allI)
  fix ch
  have "count M ch \<le> (if ch < u then 1 else 0)" using assms(1) by (simp add: one_each_def)
  then show "count (add_mset u M) ch \<le> (if ch < Suc u then 1 else 0)" by (auto split: if_splits)
qed

lemma waits_replace:
  "i < length xs \<Longrightarrow> F + waits (xs ! i) = sum_list (map waits xs) + waits g \<Longrightarrow> F = sum_list (map waits (xs[i := g]))"
  by (rule sum_list_replace [of i xs waits]) auto

lemma holds_replace:
  assumes "one_each (sum_list (map holds xs) + P) u" "i < length xs"
  shows "holds g + P' \<subseteq># holds (xs ! i) + P \<Longrightarrow> one_each (sum_list (map holds (xs[i := g])) + P') u"
    and "holds g + P' \<subseteq># add_mset u (holds (xs ! i) + P) \<Longrightarrow> one_each (sum_list (map holds (xs[i := g])) + P') (Suc u)"
proof -
  obtain M where M: "sum_list (map holds xs) = holds (xs ! i) + M" "\<And>y. sum_list (map holds (xs[i := y])) = holds y + M"
    using sum_list_replace [OF assms(2), of holds] by metis
  note ac = add.assoc add.commute add.left_commute
  show "one_each (sum_list (map holds (xs[i := g])) + P') u" if "holds g + P' \<subseteq># holds (xs ! i) + P"
    by (rule one_each_mono [OF assms(1)]) (use that in \<open>simp add: M ac\<close>)
  show "one_each (sum_list (map holds (xs[i := g])) + P') (Suc u)" if "holds g + P' \<subseteq># add_mset u (holds (xs ! i) + P)"
    by (rule one_each_new [OF assms(1)]) (use mset_subset_eq_mono_add [OF that subset_mset.refl [of M]] in \<open>simp add: M ac\<close>)
qed

lemma holds_pool:
  assumes "one_each (sum_list (map holds xs) + mset l) u" "i < length xs"
  shows "ch \<in> set l \<Longrightarrow> holds g = {#ch#} \<Longrightarrow> one_each (sum_list (map holds (xs[i := g])) + mset l - {#ch#}) u"
    and "holds g = {#} \<Longrightarrow> holds (xs ! i) = {#ch#} \<Longrightarrow> one_each (add_mset ch (sum_list (map holds (xs[i := g])) + mset l)) u"
  using holds_replace(1) [OF assms, of g "mset l - {#ch#}"] holds_replace(1) [OF assms, of g "add_mset ch (mset l)"]
  by simp_all

lemma take_reply:
  assumes "(ch, r) \<in> set l"
  shows "add_mset ch (F + image_mset fst (mset l - {#(ch, r)#})) = F + image_mset fst (mset l)"
proof -
  have "(ch, r) \<in># mset l" using assms by simp
  then obtain A where "mset l = add_mset (ch, r) A" by (rule mset_add)
  then show ?thesis by simp
qed

lemmas channels_simps = channels_def in_flight_def connection_def waits_def holds_def next_round_def take_reply

lemma conn_channels:
  assumes "conn_step s s'" "channels s"
  shows "channels s'"
  using assms(1)
proof cases
  case (pool_Get i g req acts ch)
  then show ?thesis using assms(2) by (auto simp: channels_simps intro!: waits_replace holds_pool(1))
next
  case (receive i g ch req r)
  then show ?thesis using assms(2) by (auto simp: channels_simps intro!: waits_replace holds_pool(2))
qed (use assms(2) in \<open>auto simp: channels_simps intro!: waits_replace holds_replace\<close>)

lemma expiry_channels: "expiry_step s s' \<Longrightarrow> channels s \<Longrightarrow> channels s'"
  by (erule expiry_step.cases) (auto simp: channels_simps intro!: waits_replace holds_replace split: option.splits)

lemma send_channels: "send_step s s' \<Longrightarrow> channels s \<Longrightarrow> channels s'"
  by (erule send_step.cases)
    (auto simp: channels_simps intro!: waits_replace holds_replace intro: one_each_mono)

lemma worker_channels: "worker_step C E s s' \<Longrightarrow> channels s \<Longrightarrow> channels s'"
  by (erule worker_step.cases)
    (auto simp: channels_simps intro!: waits_replace holds_replace intro: one_each_mono)

lemma main_channels: "main_step s s' \<Longrightarrow> channels s \<Longrightarrow> channels s'"
  by (erule main_step.cases)
    (auto simp: channels_simps intro!: waits_replace holds_replace intro: one_each_mono)

lemma step_channels: "step C E s s' \<Longrightarrow> channels s \<Longrightarrow> channels s'"
  unfolding step_def using conn_channels expiry_channels send_channels worker_channels main_channels by blast

lemma one_each_le: "one_each M u \<Longrightarrow> count M ch \<le> 1"
  unfolding one_each_def by (drule spec [of _ ch]) (simp split: if_splits)

lemma flight_distinct:
  assumes "channels s"
  shows "distinct (map (\<lambda>(i, ch, req). ch) (commandCh s) @ (case wpc s of Replying ch r \<Rightarrow> [ch] | _ \<Rightarrow> []) @ map fst (replies s))"
proof -
  have "waits g \<subseteq># holds g" for g by (simp add: waits_def holds_def split: pc.splits)
  then have "sum_list (map waits gs) \<subseteq># sum_list (map holds gs)" for gs
    by (induction gs) (simp_all add: subset_mset.add_mono)
  then have "in_flight s \<subseteq># sum_list (map holds (procs s)) + mset (pool s)"
    using assms by (simp add: channels_def subset_mset.add_increasing2)
  then have "one_each (in_flight s) (unused s)" using assms by (auto simp: channels_def intro: one_each_mono)
  then have "count (in_flight s) ch \<le> 1" for ch by (rule one_each_le)
  moreover have "in_flight s = mset (map (\<lambda>(i, ch, req). ch) (commandCh s) @ (case wpc s of Replying ch r \<Rightarrow> [ch] | _ \<Rightarrow> []) @
      map fst (replies s))"
    by (simp add: in_flight_def split: worker_pc.splits)
  ultimately show ?thesis unfolding distinct_count_atmost_1 by (metis count_mset_0_iff le_antisym less_one not_less)
qed

lemma one_holder:
  assumes "channels s" "i < length (procs s)" "j < length (procs s)" "ch \<in># holds (procs s ! i)" "ch \<in># holds (procs s ! j)"
  shows "i = j"
proof (rule ccontr)
  assume "i \<noteq> j"
  let ?xs = "procs s" and ?e = "(procs s ! i)\<lparr>pc := Ended\<rparr>"
  obtain M where M: "sum_list (map holds ?xs) = holds (?xs ! i) + M" "\<And>y. sum_list (map holds (?xs[i := y])) = holds y + M"
    using sum_list_replace [OF assms(2), of holds] by metis
  obtain N where "sum_list (map holds (?xs[i := ?e])) = holds (?xs[i := ?e] ! j) + N"
    using assms(3) by (metis length_list_update sum_list_replace)
  then have "M = holds (?xs ! j) + N" using M(2) [of ?e] \<open>i \<noteq> j\<close> by (simp add: holds_def)
  then have "count (sum_list (map holds ?xs) + mset (pool s)) ch =
      count (holds (?xs ! i)) ch + count (holds (?xs ! j)) ch + count N ch + count (mset (pool s)) ch" using M(1) by simp
  moreover have "0 < count (holds (?xs ! i)) ch" "0 < count (holds (?xs ! j)) ch" using assms(4,5) by simp_all
  moreover have "count (sum_list (map holds ?xs) + mset (pool s)) ch \<le> 1"
    using assms(1) one_each_le unfolding channels_def by blast
  ultimately show False by linarith
qed

subsection \<open>One order for all requests\<close>

lemma dispatchWorker_snoc:
  "dispatchWorker C E (reqs @ [req]) w =
     obind (dispatchWorker C E reqs w) (\<lambda>(w1, rs). obind (run_request C E req w1) (\<lambda>(w2, r). Ret (w2, rs @ [r])))"
  by (induction reqs arbitrary: w) (auto simp: obind_assoc case_prod_beta' intro!: obind_cong)

definition served_all :: "ctx \<Rightarrow> (nat \<Rightarrow> env) \<Rightarrow> worker \<Rightarrow> process \<Rightarrow> bool" where
  "served_all C E w s \<longleftrightarrow>
     dispatchWorker C E (map (\<lambda>(i, req, r). req) (history s)) w = Ret (wrk s, map (\<lambda>(i, req, r). r) (history s))"

lemma step_served: "step C E s s' \<Longrightarrow> served_all C E w s \<Longrightarrow> served_all C E w s'"
  unfolding step_def
  by (elim conjE disjE conn_step.cases expiry_step.cases send_step.cases worker_step.cases main_step.cases)
    (simp_all add: served_all_def dispatchWorker_snoc)

text \<open>
  What the worker has told goroutine \<open>i\<close>, and that it has received all of it but the reply
  that is still on its way.
\<close>

definition told :: "process \<Rightarrow> nat \<Rightarrow> (CommandRequest \<times> string) list" where
  "told s i = map snd (filter (\<lambda>m. fst m = i) (history s))"

definition pending :: "process \<Rightarrow> nat \<Rightarrow> string \<Rightarrow> bool" where
  "pending s ch r \<longleftrightarrow> wpc s = Replying ch r \<or> (ch, r) \<in> set (replies s)"

definition in_order :: "process \<Rightarrow> nat \<Rightarrow> goroutine \<Rightarrow> bool" where
  "in_order s i g \<longleftrightarrow>
     (case pc g of
        Awaiting ch req \<Rightarrow>
          (i, ch, req) \<in> set (commandCh s) \<and> told s i = answers g \<or> (\<exists>r. pending s ch r \<and> told s i = answers g @ [(req, r)])
      | _ \<Rightarrow> told s i = answers g)"

definition routed :: "process \<Rightarrow> bool" where
  "routed s \<longleftrightarrow>
     (\<forall>i ch req. (i, ch, req) \<in> set (commandCh s) \<longrightarrow> i < length (procs s) \<and> pc (procs s ! i) = Awaiting ch req) \<and>
     (\<forall>m \<in> set (history s). fst m < length (procs s)) \<and> (\<forall>i < length (procs s). in_order s i (procs s ! i))"

lemma in_order_cong:
  "told s' = told s \<Longrightarrow> pending s' = pending s \<Longrightarrow> commandCh s' = commandCh s \<Longrightarrow> in_order s' = in_order s"
  by (auto simp: in_order_def fun_eq_iff split: pc.splits)

lemma routed_move:
  assumes "routed s" "i < length (procs s)" "procs s' = (procs s)[i := g]" "\<And>ch req. pc (procs s ! i) \<noteq> Awaiting ch req"
    "answers g = answers (procs s ! i)" "wpc s' = wpc s" "replies s' = replies s" "history s' = history s"
    "\<And>ch req. pc g = Awaiting ch req \<Longrightarrow> (i, ch, req) \<in> set (commandCh s')"
    "set (commandCh s) \<subseteq> set (commandCh s')" "set (commandCh s') \<subseteq> set (commandCh s) \<union> {(i, ch, req) | ch req. pc g = Awaiting ch req}"
  shows "routed s'"
proof -
  have told: "told s' j = told s j" and pend: "pending s' = pending s" for j
    using assms(6-8) by (auto simp: told_def pending_def fun_eq_iff)
  have "in_order s' j (procs s' ! j)" if j: "j < length (procs s')" for j
  proof (cases "j = i")
    case True
    have "told s i = answers g" using assms(1,2,4,5) by (cases "pc (procs s ! i)") (auto simp: routed_def in_order_def)
    then show ?thesis using True assms(2,3,9) by (cases "pc g") (auto simp: in_order_def told)
  next
    case False
    then have "in_order s j (procs s' ! j)" using assms(1,3) j by (auto simp: routed_def)
    then show ?thesis using assms(10) by (auto simp: in_order_def told pend split: pc.splits)
  qed
  moreover have "j < length (procs s') \<and> pc (procs s' ! j) = Awaiting ch req" if "(j, ch, req) \<in> set (commandCh s')" for j ch req
  proof (cases "j = i")
    case True
    have "(i, ch, req) \<notin> set (commandCh s)" using assms(1) assms(4) [of ch req] by (auto simp: routed_def)
    then have "pc g = Awaiting ch req" using True that assms(11) by blast
    then show ?thesis using True assms(2,3) by simp
  next
    case False
    then have "(j, ch, req) \<in> set (commandCh s)" using that assms(11) by auto
    then show ?thesis using False assms(1,3) by (auto simp: routed_def)
  qed
  ultimately show ?thesis using assms(1,3,8) by (auto simp: routed_def)
qed

lemma routed_receive:
  assumes "routed s" "channels s" "i < length (procs s)" "pc (procs s ! i) = Awaiting ch req" "(ch, r) \<in> set (replies s)"
    "\<And>ch req. pc g \<noteq> Awaiting ch req" "answers g = answers (procs s ! i) @ [(req, r)]"
    "procs s' = (procs s)[i := g]" "wpc s' = wpc s" "replies s' = remove1 (ch, r) (replies s)" "history s' = history s"
    "commandCh s' = commandCh s"
  shows "routed s'"
proof -
  note dist = flight_distinct [OF assms(2)]
  have told: "told s' j = told s j" for j using assms(11) by (simp add: told_def)
  have unsent: "(j, ch, q) \<notin> set (commandCh s)" for j q using dist assms(5) by (force simp: image_iff)
  have only: "pending s ch r' \<Longrightarrow> r' = r" for r'
    using dist assms(5) by (force simp: pending_def dest: eq_key_imp_eq_value)
  have "in_order s i (procs s ! i)" using assms(1,3) by (simp add: routed_def)
  then have "told s i = answers g" using assms(4,7) unsent only by (auto simp: in_order_def)
  moreover have "in_order s' j (procs s ! j)" if j: "j < length (procs s)" "j \<noteq> i" for j
  proof -
    have "pc (procs s ! j) \<noteq> Awaiting ch q" for q using one_holder [OF assms(2) j(1) assms(3), of ch] assms(4) j(2) by (auto simp: holds_def)
    moreover have "c \<noteq> ch \<Longrightarrow> pending s c r' \<Longrightarrow> pending s' c r'" for c r' using assms(9,10) by (auto simp: pending_def)
    moreover have "in_order s j (procs s ! j)" using assms(1) j by (simp add: routed_def)
    ultimately show ?thesis using assms(12) by (fastforce simp: in_order_def told split: pc.splits)
  qed
  moreover have "j \<noteq> i" if "(j, c, q) \<in> set (commandCh s)" for j c q
    using that unsent assms(1,4) by (auto simp: routed_def)
  ultimately show ?thesis
    using assms(1,3,6,8,11,12) by (auto simp: routed_def in_order_def told nth_list_update split: pc.splits)
qed

lemma routed_cong:
  "routed s \<Longrightarrow> procs s' = procs s \<Longrightarrow> commandCh s' = commandCh s \<Longrightarrow> wpc s' = wpc s \<Longrightarrow> replies s' = replies s \<Longrightarrow>
   history s' = history s \<Longrightarrow> routed s'"
  using in_order_cong [of s' s] by (simp add: routed_def told_def pending_def fun_eq_iff)

lemma conn_routed:
  assumes "conn_step s s'" "channels s" "routed s"
  shows "routed s'"
  using assms(1)
proof cases
  case (receive i g ch req r)
  then show ?thesis by (intro routed_receive [OF assms(3,2), of i ch req r _ s']) simp_all
next
  case die
  then show ?thesis by (intro routed_cong [OF assms(3)]) simp_all
qed (elim conjE; (rule routed_move [OF assms(3)], assumption, simp, simp_all))+

lemma expiry_routed:
  assumes "expiry_step s s'" "channels s" "routed s"
  shows "routed s'"
  using assms(1)
proof cases
  case (round_over i g ch req r)
  then show ?thesis
    by (intro routed_receive [OF assms(3,2), of i ch req r _ s']) (simp_all add: next_round_def split: option.splits)
qed (elim conjE; (rule routed_move [OF assms(3)], assumption, simp, auto))+

lemma send_routed:
  assumes "send_step s s'" "routed s"
  shows "routed s'"
  using assms(1)
proof cases
  case (send i g ch req)
  then show ?thesis by (intro routed_move [OF assms(2), of i _ "g\<lparr>pc := Awaiting ch req\<rparr>"]) auto
next
  case send_closed
  then show ?thesis by (intro routed_cong [OF assms(2)]) simp_all
qed

lemma worker_routed:
  assumes "worker_step C E s s'" "channels s" "routed s"
  shows "routed s'"
  using assms(1)
proof cases
  case (work i ch req ms w r)
  note dist = flight_distinct [OF assms(2)]
  have i: "i < length (procs s)" "pc (procs s ! i) = Awaiting ch req" using assms(3) work(3) by (auto simp: routed_def)
  have told: "told s' j = (if j = i then told s i @ [(req, r)] else told s j)" for j using work(1) by (simp add: told_def)
  have "in_order s' j (procs s ! j)" if j: "j < length (procs s)" for j
  proof (cases "j = i")
    case True
    have "\<not> pending s ch r'" for r' using dist work(2,3) by (force simp: pending_def)
    then have "told s i = answers (procs s ! i)" using assms(3) i by (auto simp: routed_def in_order_def dest: spec [of _ i])
    then show ?thesis using True i told work(1) by (auto simp: in_order_def pending_def)
  next
    case False
    have "in_order s j (procs s ! j)" using assms(3) j by (simp add: routed_def)
    moreover have "pending s c q \<Longrightarrow> pending s' c q" for c q using work by (auto simp: pending_def)
    moreover have "(j, c, q) \<in> set (commandCh s) \<Longrightarrow> (j, c, q) \<in> set (commandCh s')" for c q using work False by auto
    ultimately show ?thesis using False by (fastforce simp: in_order_def told split: pc.splits)
  qed
  then show ?thesis using assms(3) work i by (auto simp: routed_def)
next
  case work_panics
  then show ?thesis by (intro routed_cong [OF assms(3)]) simp_all
next
  case (reply ch r)
  then have "told s' = told s" "pending s' = pending s" by (auto simp: told_def pending_def fun_eq_iff)
  then show ?thesis using assms(3) reply in_order_cong [of s' s] by (simp add: routed_def)
next
  case worker_done
  then have "told s' = told s" "pending s' = pending s" by (auto simp: told_def pending_def fun_eq_iff)
  then show ?thesis using assms(3) worker_done in_order_cong [of s' s] by (simp add: routed_def)
qed

lemma main_routed:
  assumes "main_step s s'" "routed s"
  shows "routed s'"
  using assms(1)
proof cases
  case (accept acts)
  have "told s (length (procs s)) = []" using assms(2) by (auto simp: told_def routed_def filter_empty_conv)
  then have "in_order s (length (procs s)) (connection acts)" by (simp add: in_order_def connection_def)
  moreover have "in_order s' = in_order s" using accept by (intro in_order_cong) (simp_all add: told_def pending_def fun_eq_iff)
  ultimately show ?thesis using assms(2) accept
    by (auto simp: routed_def nth_append less_Suc_eq)
qed (rule routed_cong [OF assms(2)], simp_all)+

lemma step_routed: "step C E s s' \<Longrightarrow> channels s \<Longrightarrow> routed s \<Longrightarrow> routed s'"
  unfolding step_def using conn_routed expiry_routed send_routed worker_routed main_routed by blast

text \<open>A connection that is not broken is on its script: what it has done is the past of it, with the replies it got.\<close>

definition future :: "goroutine \<Rightarrow> act list" where
  "future g = (case pc g of Sending ch req \<Rightarrow> Submit req # todo g | Awaiting ch req \<Rightarrow> Submit req # todo g | _ \<Rightarrow> todo g)"

definition on_script :: "goroutine \<Rightarrow> bool" where
  "on_script g \<longleftrightarrow> expirer g \<or> broken g \<or>
     (\<exists>past. program g = past @ future g \<and> asks past = map fst (answers g) \<and> out g = emit past (map snd (answers g)) ([], [])) \<and>
     (pc g = Ended \<longrightarrow> todo g = [])"

lemma on_script_act:
  assumes "on_script g" "pc g = Running" "todo g = a # acts" "\<forall>req. a \<noteq> Submit req"
  shows "on_script (g\<lparr>todo := acts, out := write_act a (out g)\<rparr>)"
proof (cases "expirer g \<or> broken g")
  case False
  then obtain past where p: "program g = past @ a # acts" "asks past = map fst (answers g)"
    "out g = emit past (map snd (answers g)) ([], [])"
    using assms by (auto simp: on_script_def future_def)
  have "asks [a] = []" "emit [a] [] o1 = write_act a o1" for o1 using assms(4) by (cases a; simp)+
  then have "asks (past @ [a]) = map fst (answers g)" "emit (past @ [a]) (map snd (answers g)) ([], []) = write_act a (out g)"
    using p(2,3) emit_append [of "map snd (answers g)" past "[a]" "[]"] by simp_all
  then show ?thesis using assms(2) p(1) by (auto simp: on_script_def future_def intro!: exI [of _ "past @ [a]"])
qed (auto simp: on_script_def)

lemma on_script_receive:
  assumes "on_script g" "pc g = Awaiting ch req"
  shows "on_script (g\<lparr>pc := Running, out := write_out r (out g), answers := answers g @ [(req, r)]\<rparr>)"
proof (cases "expirer g \<or> broken g")
  case False
  then obtain past where p: "program g = past @ Submit req # todo g" "asks past = map fst (answers g)"
    "out g = emit past (map snd (answers g)) ([], [])"
    using assms by (auto simp: on_script_def future_def)
  then have "emit (past @ [Submit req]) (map snd (answers g) @ [r]) ([], []) = write_out r (out g)"
    using emit_append [of "map snd (answers g)" past "[Submit req]" "[r]"] by simp
  then show ?thesis using p by (auto simp: on_script_def future_def intro!: exI [of _ "past @ [Submit req]"])
qed (auto simp: on_script_def)

definition performed :: "process \<Rightarrow> bool" where
  "performed s \<longleftrightarrow> (\<forall>g \<in> set (procs s). on_script g)"

lemma on_script_move:
  "on_script g \<Longrightarrow> future g' = future g \<Longrightarrow> expirer g' = expirer g \<Longrightarrow> broken g' = broken g \<Longrightarrow> program g' = program g \<Longrightarrow>
   answers g' = answers g \<Longrightarrow> out g' = out g \<Longrightarrow> (pc g' = Ended \<longrightarrow> todo g' = []) \<Longrightarrow> on_script g'"
  by (auto simp: on_script_def)

lemma performed_update:
  assumes "performed s" "i < length (procs s)" "on_script (procs s ! i) \<Longrightarrow> on_script g" "procs s' = (procs s)[i := g]"
  shows "performed s'"
  using assms set_update_subset_insert [of "procs s" i g] by (auto simp: performed_def)

lemma performed_cong: "performed s \<Longrightarrow> procs s' = procs s \<Longrightarrow> performed s'"
  by (simp add: performed_def)

lemma conn_performed:
  assumes "conn_step s s'" "performed s"
  shows "performed s'"
  using assms(1)
proof cases
  case (pool_Get i g req acts ch)
  then show ?thesis
    by (intro performed_update [OF assms(2), of i]) (auto intro: on_script_move simp: future_def)
next
  case (pool_New i g req acts)
  then show ?thesis
    by (intro performed_update [OF assms(2), of i]) (auto intro: on_script_move simp: future_def)
next
  case (receive i g ch req r)
  then show ?thesis by (intro performed_update [OF assms(2), of i]) (auto intro: on_script_receive)
next
  case (local_act i g a acts)
  then show ?thesis by (intro performed_update [OF assms(2), of i]) (auto intro: on_script_act)
next
  case (break_off i g acts)
  then show ?thesis by (intro performed_update [OF assms(2), of i]) (auto simp: on_script_def)
next
  case (hang_up i g)
  then show ?thesis
    by (intro performed_update [OF assms(2), of i]) (auto intro: on_script_move simp: future_def)
qed (rule performed_cong [OF assms(2)], simp)

lemma send_performed:
  assumes "send_step s s'" "performed s"
  shows "performed s'"
  using assms(1)
proof cases
  case (send i g ch req)
  then show ?thesis
    by (intro performed_update [OF assms(2), of i]) (auto intro: on_script_move simp: future_def)
qed (rule performed_cong [OF assms(2)], simp)

lemma expiry_performed: "expiry_step s s' \<Longrightarrow> performed s \<Longrightarrow> performed s'"
  by (erule expiry_step.cases) (auto simp: performed_def on_script_def dest!: subsetD [OF set_update_subset_insert])

lemma other_performed: "worker_step C E s s' \<or> main_step s s' \<Longrightarrow> performed s \<Longrightarrow> performed s'"
  by (auto elim!: worker_step.cases main_step.cases simp: performed_def on_script_def connection_def future_def)

lemma step_performed: "step C E s s' \<Longrightarrow> performed s \<Longrightarrow> performed s'"
  unfolding step_def using conn_performed expiry_performed send_performed other_performed by blast

definition sound :: "ctx \<Rightarrow> (nat \<Rightarrow> env) \<Rightarrow> worker \<Rightarrow> process \<Rightarrow> bool" where
  "sound C E w s \<longleftrightarrow> counted s \<and> phases s \<and> channels s \<and> served_all C E w s \<and> routed s \<and> performed s"

lemma sound_started: "sound C E w (started w)"
  by (simp add: sound_def started_def expiry_loop_def connection_def counted_def alive_def phases_def capacity_def channels_def in_flight_def
      waits_def holds_def one_each_def served_all_def routed_def in_order_def told_def performed_def on_script_def)

lemma sound_step: "step C E s s' \<Longrightarrow> sound C E w s \<Longrightarrow> sound C E w s'"
  by (auto simp: sound_def step_counted step_channels step_served intro: step_phases step_routed step_performed)

lemma process_sound: "process_runs C E w s \<Longrightarrow> sound C E w s"
  by (induction rule: process_runs.induct) (blast intro: sound_started sound_step)+

subsection \<open>Shutting down\<close>

text \<open>
  What is left to do before a cancelled server has returned. Some step always makes it less:
  the one that lets the main goroutine, the worker, or a goroutine that is still there go on.
\<close>

definition effort :: "goroutine \<Rightarrow> nat" where
  "effort g =
     (case pc g of
        Running \<Rightarrow> if expirer g \<or> todo g = [] then 1 else 2
      | Sending ch req \<Rightarrow> if expirer g then 1 else 6
      | Awaiting ch req \<Rightarrow> 2
      | Ended \<Rightarrow> 0)"

definition work_left :: "process \<Rightarrow> nat" where
  "work_left s = sum_list (map effort (procs s)) + 3 * length (commandCh s) + length (replies s) +
     (case wpc s of Receiving \<Rightarrow> 1 | Replying ch r \<Rightarrow> 3 | WorkerDone \<Rightarrow> 0) +
     (case main s of Accepting \<Rightarrow> 3 | WaitProducers \<Rightarrow> 2 | WaitWorker \<Rightarrow> 1 | Returned \<Rightarrow> 0)"

lemma work_left_less:
  assumes "i < length (procs s)" "procs s' = (procs s)[i := g]" "main s' = main s" "wpc s' = wpc s"
    "effort g + 3 * length (commandCh s') + length (replies s') <
     effort (procs s ! i) + 3 * length (commandCh s) + length (replies s)"
  shows "work_left s' < work_left s"
proof -
  obtain M where "sum_list (map effort (procs s)) = effort (procs s ! i) + M" "sum_list (map effort ((procs s)[i := g])) = effort g + M"
    using sum_list_replace [OF assms(1), of effort] by metis
  then show ?thesis using assms(2-5) by (simp add: work_left_def)
qed

definition moves_on :: "ctx \<Rightarrow> (nat \<Rightarrow> env) \<Rightarrow> process \<Rightarrow> bool" where
  "moves_on C E s \<longleftrightarrow> (\<exists>s'. step C E s s' \<and> cancelled s' \<and> (crashed s' = Some WorkerPanic \<or> crashed s' = None \<and> work_left s' < work_left s))"

lemma moves_onI:
  "step C E s s' \<Longrightarrow> cancelled s' \<Longrightarrow> crashed s' = None \<Longrightarrow> work_left s' < work_left s \<Longrightarrow> moves_on C E s"
  by (auto simp: moves_on_def)

lemma worker_moves:
  assumes "channels s" "crashed s = None" "cancelled s" "commandCh s \<noteq> [] \<or> closed_ch s" "wpc s = Receiving"
  shows "moves_on C E s"
proof (cases "commandCh s")
  case Nil
  let ?s = "s\<lparr>wpc := WorkerDone\<rparr>"
  have "step C E s ?s" using assms Nil by (simp add: step_def worker_done)
  then show ?thesis by (rule moves_onI) (use assms Nil in \<open>simp_all add: work_left_def\<close>)
next
  case (Cons m ms)
  then obtain i ch req where m: "commandCh s = (i, ch, req) # ms" by (cases m) auto
  show ?thesis
  proof (cases "run_request C E req (wrk s)")
    case (Ret x)
    then obtain w r where r: "run_request C E req (wrk s) = Ret (w, r)" by (cases x) auto
    let ?s = "s\<lparr>wpc := Replying ch r, commandCh := ms, wrk := w, history := history s @ [(i, req, r)]\<rparr>"
    have "step C E s ?s" using assms m r by (simp add: step_def work)
    then show ?thesis by (rule moves_onI) (use assms m in \<open>simp_all add: work_left_def\<close>)
  next
    case Panic
    let ?s = "s\<lparr>crashed := Some WorkerPanic\<rparr>"
    have "step C E s ?s" using assms m Panic by (simp add: step_def work_panics)
    then show ?thesis using assms unfolding moves_on_def by (intro exI [of _ ?s]) simp
  qed
qed

lemma reply_moves:
  assumes "channels s" "crashed s = None" "cancelled s" "wpc s = Replying ch r"
  shows "moves_on C E s"
proof -
  let ?s = "s\<lparr>wpc := Receiving, replies := (ch, r) # replies s\<rparr>"
  have "ch \<notin> fst ` set (replies s)" using flight_distinct [OF assms(1)] assms(4) by auto
  then have "step C E s ?s" using assms(2,4) by (simp add: step_def reply)
  then show ?thesis by (rule moves_onI) (use assms in \<open>simp_all add: work_left_def\<close>)
qed

lemma main_moves:
  assumes "phases s" "crashed s = None" "cancelled s" "main s \<noteq> Returned"
    "main s = Accepting \<or> main s = WaitProducers \<and> producers s = 0 \<or> wpc s = WorkerDone"
  shows "moves_on C E s"
proof -
  have "wpc s = WorkerDone \<Longrightarrow> main s = WaitWorker" using assms(1,4) by (auto simp: phases_def)
  then consider "main s = Accepting" | "main s = WaitProducers" "producers s = 0" | "main s = WaitWorker" "wpc s = WorkerDone"
    using assms(5) by auto
  then show ?thesis
  proof cases
    case 1
    let ?s = "s\<lparr>main := WaitProducers\<rparr>"
    have "step C E s ?s" using 1 assms by (simp add: step_def accept_fails)
    then show ?thesis by (rule moves_onI) (use 1 assms in \<open>simp_all add: work_left_def\<close>)
  next
    case 2
    let ?s = "s\<lparr>main := WaitWorker, closed_ch := True\<rparr>"
    have "step C E s ?s" using 2 assms by (simp add: step_def wait)
    then show ?thesis by (rule moves_onI) (use 2 assms in \<open>simp_all add: work_left_def\<close>)
  next
    case 3
    let ?s = "s\<lparr>main := Returned, synced := True\<rparr>"
    have "step C E s ?s" using 3 assms by (simp add: step_def drained)
    then show ?thesis by (rule moves_onI) (use 3 assms in \<open>simp_all add: work_left_def\<close>)
  qed
qed

lemma goroutine_moves:
  assumes "channels s" "crashed s = None" "cancelled s" "\<not> closed_ch s" "commandCh s = []" "wpc s = Receiving"
    "i < length (procs s)" "pc (procs s ! i) \<noteq> Ended"
  shows "moves_on C E s"
proof -
  let ?g = "procs s ! i"
  have less: "moves_on C E s" if "step C E s s'" "cancelled s'" "crashed s' = None" "procs s' = (procs s)[i := g]" "main s' = main s"
      "wpc s' = wpc s" "effort g + 3 * length (commandCh s') + length (replies s') < effort ?g + length (replies s)" for s' g
    by (rule moves_onI [OF that(1-3)], rule work_left_less [OF assms(7) that(4-6)]) (use that(7) assms(5) in simp)
  consider "expirer ?g" "pc ?g = Running \<or> (\<exists>ch req. pc ?g = Sending ch req)" | "\<not> expirer ?g" "pc ?g = Running" "todo ?g = []"
    | "\<not> expirer ?g" "pc ?g = Running" "todo ?g \<noteq> []" | ch req where "\<not> expirer ?g" "pc ?g = Sending ch req"
    | ch req where "pc ?g = Awaiting ch req"
    using assms(8) by (cases "pc ?g") blast+
  then show ?thesis
  proof cases
    case 1
    let ?s = "(with_proc s i (?g\<lparr>pc := Ended\<rparr>))\<lparr>producers := producers s - 1\<rparr>"
    obtain ch req where "pc ?g = Running \<or> pc ?g = Sending ch req" using 1(2) by blast
    then have "expiry_step s ?s" using 1(1) assms(3,7) by (intro expiry_Done [where ch = ch and req = req]) auto
    then show ?thesis using assms 1 by (intro less [of ?s "?g\<lparr>pc := Ended\<rparr>"]) (auto simp: step_def effort_def)
  next
    case 2
    let ?s = "(with_proc s i (?g\<lparr>pc := Ended\<rparr>))\<lparr>producers := producers s - 1\<rparr>"
    have "conn_step s ?s" using 2 assms(7) by (intro hang_up) auto
    then show ?thesis using assms 2 by (intro less [of ?s "?g\<lparr>pc := Ended\<rparr>"]) (auto simp: step_def effort_def)
  next
    case 3
    let ?s = "with_proc s i (?g\<lparr>todo := [], broken := True\<rparr>)"
    have "conn_step s ?s" using 3 assms(7) by (intro break_off) auto
    then show ?thesis using assms 3 by (intro less [of ?s "?g\<lparr>todo := [], broken := True\<rparr>"]) (auto simp: step_def effort_def)
  next
    case (4 ch req)
    let ?s = "(with_proc s i (?g\<lparr>pc := Awaiting ch req\<rparr>))\<lparr>commandCh := commandCh s @ [(i, ch, req)]\<rparr>"
    have "send_step s ?s" using 4 assms(4,5,7) by (intro send) (auto simp: capacity_def)
    then show ?thesis using assms 4 by (intro less [of ?s "?g\<lparr>pc := Awaiting ch req\<rparr>"]) (auto simp: step_def effort_def)
  next
    case (5 ch req)
    obtain M where "sum_list (map waits (procs s)) = waits ?g + M" using sum_list_replace [OF assms(7), of waits] by metis
    then have "ch \<in># in_flight s" using assms(1) 5 by (simp add: channels_def waits_def)
    then obtain r where r: "(ch, r) \<in> set (replies s)" using assms(5,6) by (auto simp: in_flight_def)
    then have fewer: "length (remove1 (ch, r) (replies s)) < length (replies s)"
      by (simp add: length_remove1) (metis diff_Suc_less length_pos_if_in_set One_nat_def)
    show ?thesis
    proof (cases "expirer ?g")
      case True
      let ?g' = "?g\<lparr>pc := next_round (unused s) r, answers := answers ?g @ [(req, r)]\<rparr>"
      let ?s = "(with_proc s i ?g')\<lparr>replies := remove1 (ch, r) (replies s), unused := Suc (unused s)\<rparr>"
      have "expiry_step s ?s" using True 5 r assms(7) by (intro round_over) auto
      then show ?thesis using assms 5 True fewer
        by (intro less [of ?s ?g']) (auto simp: step_def effort_def next_round_def split: option.splits)
    next
      case False
      let ?g' = "?g\<lparr>pc := Running, out := write_out r (out ?g), answers := answers ?g @ [(req, r)]\<rparr>"
      let ?s = "(with_proc s i ?g')\<lparr>replies := remove1 (ch, r) (replies s), pool := ch # pool s\<rparr>"
      have "conn_step s ?s" using False 5 r assms(7) by (intro receive) auto
      then show ?thesis using assms 5 False fewer by (intro less [of ?s ?g']) (auto simp: step_def effort_def)
    qed
  qed
qed

lemma cancelled_moves:
  assumes "sound C E w s" "crashed s = None" "cancelled s" "main s \<noteq> Returned"
  shows "moves_on C E s"
proof -
  have inv: "counted s" "phases s" "channels s" using assms(1) by (simp_all add: sound_def)
  consider "main s = Accepting \<or> main s = WaitProducers \<and> producers s = 0 \<or> wpc s = WorkerDone"
    | ch r where "wpc s = Replying ch r" | "wpc s = Receiving" "commandCh s \<noteq> [] \<or> closed_ch s"
    | "wpc s = Receiving" "commandCh s = []" "\<not> closed_ch s" "main s = WaitProducers" "producers s \<noteq> 0"
    using inv(2) assms(4) by (cases "wpc s"; cases "main s") (auto simp: phases_def)
  then show ?thesis
  proof cases
    case 4
    then obtain g where "g \<in> set (procs s)" "pc g \<noteq> Ended" using inv(1)
      by (auto simp: counted_def alive_def sum_list_eq_0_iff simp del: neq0_conv split: if_splits)
    then show ?thesis using 4 inv(3) assms(2,3) by (auto simp: in_set_conv_nth intro: goroutine_moves)
  qed (use inv assms in \<open>auto intro: main_moves reply_moves worker_moves\<close>)
qed

lemma shutdown_run:
  assumes "process_runs C E w s" "crashed s = None" "cancelled s"
  shows "\<exists>s'. (step C E)\<^sup>*\<^sup>* s s' \<and> process_runs C E w s' \<and> (main s' = Returned \<or> crashed s' = Some WorkerPanic)"
  using assms
proof (induction "work_left s" arbitrary: s rule: less_induct)
  case less
  show ?case
  proof (cases "main s = Returned")
    case False
    then obtain s1 where s1: "step C E s s1" "cancelled s1" "crashed s1 = Some WorkerPanic \<or> crashed s1 = None \<and> work_left s1 < work_left s"
      using cancelled_moves [OF process_sound [OF less.prems(1)] less.prems(2,3)] by (auto simp: moves_on_def)
    moreover have "process_runs C E w s1" using less.prems(1) s1(1) by (rule process_step)
    ultimately show ?thesis using less.hyps [of s1] by (blast intro: converse_rtranclp_into_rtranclp)
  qed (use less.prems(1) in blast)
qed

lemma holder_not_pooled:
  assumes "channels s" "i < length (procs s)" "ch \<in># holds (procs s ! i)"
  shows "ch \<notin> set (pool s)"
proof
  assume "ch \<in> set (pool s)"
  obtain M where "sum_list (map holds (procs s)) = holds (procs s ! i) + M" using sum_list_replace [OF assms(2), of holds] by metis
  moreover have "count (sum_list (map holds (procs s)) + mset (pool s)) ch \<le> 1"
    using assms(1) one_each_le unfolding channels_def by blast
  moreover have "0 < count (holds (procs s ! i)) ch" "0 < count (mset (pool s)) ch" using assms(3) \<open>ch \<in> set (pool s)\<close> by simp_all
  ultimately show False by simp
qed

subsection \<open>A run\<close>

lemma process_by:
  assumes "process_runs C E w s" "crashed s = None"
  shows "conn_step s s' \<Longrightarrow> process_runs C E w s'" "expiry_step s s' \<Longrightarrow> process_runs C E w s'" "send_step s s' \<Longrightarrow> process_runs C E w s'"
    "worker_step C E s s' \<Longrightarrow> process_runs C E w s'" "main_step s s' \<Longrightarrow> process_runs C E w s'"
  using assms by (auto simp: step_def intro: process_step)

text \<open>A client sends PING while the server is told to stop; it gets its answer, and the server returns.\<close>

lemma ping_run:
  assumes "run_request C E req w = Ret (w', r)" "length r \<le> 4096"
  shows "\<exists>s. process_runs C E w s \<and> main s = Returned \<and> history s = [(1, req, r)] \<and> length (procs s) = 2 \<and>
    \<not> broken (procs s ! 1) \<and> \<not> expirer (procs s ! 1) \<and> program (procs s ! 1) = [Submit req, Flush]"
proof -
  let ?r = "process_runs C E w" and ?g = "connection [Submit req, Flush]"
  have wo: "write_out r ([], []) = (r, [])" using assms(2) by (simp add: write_out_def bufio_write.simps)
  note rec = started_def expiry_loop_def connection_def
  define s1 where "s1 = (started w)\<lparr>producers := Suc 1, procs := [expiry_loop, ?g]\<rparr>"
  define s2 where "s2 = s1\<lparr>procs := [expiry_loop, ?g\<lparr>pc := Sending 0 req, todo := [Flush]\<rparr>], unused := 1\<rparr>"
  define s3 where "s3 = s2\<lparr>procs := [expiry_loop, ?g\<lparr>pc := Awaiting 0 req, todo := [Flush]\<rparr>], commandCh := [(1, 0, req)]\<rparr>"
  define s4 where "s4 = s3\<lparr>commandCh := [], wpc := Replying 0 r, wrk := w', history := [(1, req, r)], cancelled := True\<rparr>"
  define s5 where "s5 = s4\<lparr>wpc := Receiving, replies := [(0, r)]\<rparr>"
  define s6 where "s6 = s5\<lparr>procs := [expiry_loop, ?g\<lparr>pc := Running, todo := [Flush], out := (r, []), answers := [(req, r)]\<rparr>],
    replies := [], pool := [0]\<rparr>"
  define g7 where "g7 = ?g\<lparr>pc := Ended, todo := [], out := ([], r), answers := [(req, r)]\<rparr>"
  define s7 where "s7 = s6\<lparr>procs := [expiry_loop, g7], producers := 1\<rparr>"
  define s8 where "s8 = s7\<lparr>procs := [expiry_loop\<lparr>pc := Ended\<rparr>, g7], producers := 0, main := WaitProducers\<rparr>"
  define s9 where "s9 = s8\<lparr>main := Returned, closed_ch := True, wpc := WorkerDone, synced := True\<rparr>"
  have r1: "?r s1" using process_by(5) [OF process_start _ accept [of "started w" "[Submit req, Flush]"]] by (simp add: s1_def rec)
  have r2: "?r s2" using process_by(1) [OF r1 _ pool_New [of 1 s1 ?g req "[Flush]"]] by (simp add: s1_def s2_def rec)
  have r3: "?r s3" using process_by(3) [OF r2 _ send [of 1 s2 _ 0 req]] by (simp add: s1_def s2_def s3_def rec capacity_def)
  have r4: "?r (s3\<lparr>cancelled := True\<rparr>)" using process_by(5) [OF r3 _ signal] by (simp add: s1_def s2_def s3_def rec)
  have r5: "?r s4" using process_by(4) [OF r4 _ work [of _ 1 0 req "[]" C E w' r]] assms(1) by (simp add: s1_def s2_def s3_def s4_def rec)
  have r6: "?r s5" using process_by(4) [OF r5 _ reply [of s4 0 r]] by (simp add: s1_def s2_def s3_def s4_def s5_def rec)
  have r7: "?r s6" using process_by(1) [OF r6 _ receive [of 1 s5 _ 0 req r]] wo by (simp add: s1_def s2_def s3_def s4_def s5_def s6_def rec)
  note defs = s1_def s2_def s3_def s4_def s5_def s6_def g7_def s7_def s8_def s9_def rec
  have r8: "?r (s6\<lparr>procs := [expiry_loop, g7\<lparr>pc := Running\<rparr>]\<rparr>)"
    using process_by(1) [OF r7 _ local_act [of 1 s6 _ Flush "[]"]] by (simp add: defs)
  have r9: "?r s7" using process_by(1) [OF r8 _ hang_up [of 1 _ "g7\<lparr>pc := Running\<rparr>"]] by (simp add: defs)
  have r10: "?r (s7\<lparr>procs := [expiry_loop\<lparr>pc := Ended\<rparr>, g7], producers := 0\<rparr>)"
    using process_by(2) [OF r9 _ expiry_Done [of 0 s7 expiry_loop]] by (simp add: defs)
  have r11: "?r s8" using process_by(5) [OF r10 _ accept_fails] by (simp add: defs)
  have r12: "?r (s8\<lparr>main := WaitWorker, closed_ch := True\<rparr>)" using process_by(5) [OF r11 _ wait] by (simp add: defs)
  have r13: "?r (s8\<lparr>main := WaitWorker, closed_ch := True, wpc := WorkerDone\<rparr>)"
    using process_by(4) [OF r12 _ worker_done] by (simp add: defs)
  have "?r s9" using process_by(5) [OF r13 _ drained] by (simp add: defs)
  then show ?thesis by (intro exI [of _ s9]) (simp add: defs)
qed

subsection \<open>What the process guarantees\<close>

lemma returned_ended:
  assumes "sound C E w s" "main s = Returned" "i < length (procs s)"
  shows "pc (procs s ! i) = Ended"
proof -
  have "producers s = 0" using assms(1,2) by (auto simp: sound_def phases_def)
  then show ?thesis using live_producer [OF _ assms(3)] assms(1) by (auto simp: sound_def)
qed

lemma ended_waits: "\<forall>g \<in> set gs. pc g = Ended \<Longrightarrow> sum_list (map waits gs) = {#}"
  by (induction gs) (simp_all add: waits_def)

text \<open>
  C5: commands never run at the same time. However the goroutines interleave, the data and
  all replies are those of one worker that runs the requests one after the other, in one
  order. Every goroutine gets the replies to its own requests, in the order it sent them,
  with at most one on its way; and a client whose connection was not broken off has been
  sent exactly what its connection writes when given those replies.
\<close>

theorem requests_serialized:
  assumes "process_runs C E w s"
  shows "dispatchWorker C E (map (\<lambda>(i, req, r). req) (history s)) w = Ret (wrk s, map (\<lambda>(i, req, r). r) (history s)) \<and>
    (\<forall>i < length (procs s). let g = procs s ! i in
       (\<exists>late. told s i = answers g @ late \<and> length late \<le> 1) \<and>
       (pc g = Ended \<and> \<not> expirer g \<and> \<not> broken g \<longrightarrow>
          map fst (told s i) = asks (program g) \<and> out g = emit (program g) (map snd (told s i)) ([], [])))"
proof -
  have sound: "sound C E w s" using assms by (rule process_sound)
  have "\<exists>late. told s i = answers g @ late \<and> length late \<le> 1" if "in_order s i g" for i g
    using that by (cases "pc g") (auto simp: in_order_def)
  moreover have "told s i = answers g \<and> map fst (answers g) = asks (program g) \<and> out g = emit (program g) (map snd (answers g)) ([], [])"
    if "in_order s i g" "on_script g" "pc g = Ended" "\<not> expirer g" "\<not> broken g" for i g
    using that by (auto simp: in_order_def on_script_def future_def)
  ultimately show ?thesis
    using sound by (simp add: sound_def served_all_def routed_def performed_def Let_def) (metis nth_mem)
qed

theorem requests_serialized_witness:
  "\<exists>s. process_runs ctx0 (\<lambda>_. env0) \<lparr>turn = 0, st = start\<rparr> s \<and> out (procs s ! 1) = ([], EncodeSimpleString ''PONG'')"
proof -
  let ?req = "single \<lparr>Cname = ''PING'', Args = []\<rparr>" and ?r = "EncodeSimpleString ''PONG''"
  have len: "length ?r \<le> 4096" by (simp add: EncodeSimpleString_def)
  obtain s where s: "process_runs ctx0 (\<lambda>_. env0) \<lparr>turn = 0, st = start\<rparr> s" "main s = Returned" "history s = [(1, ?req, ?r)]"
    "length (procs s) = 2" "\<not> broken (procs s ! 1)" "\<not> expirer (procs s ! 1)" "program (procs s ! 1) = [Submit ?req, Flush]"
    using ping_run [OF ping_example len] by blast
  have "pc (procs s ! 1) = Ended"
    using returned_ended [OF process_sound [OF s(1)] s(2)] s(4) by simp
  then have "out (procs s ! 1) = emit [Submit ?req, Flush] [?r] ([], [])"
    using requests_serialized [OF s(1)] s(3-7) by (auto simp: told_def Let_def)
  then have "out (procs s ! 1) = ([], ?r)" using len by (simp add: write_out_def bufio_write.simps)
  then show ?thesis using s(1) by blast
qed

text \<open>
  C15: the channels are used safely. Nothing is sent on the closed request channel, the
  worker never blocks on a reply, and a reply channel that a goroutine has is in use by no
  other and not in the pool, so no reply can reach the wrong client.
\<close>

theorem channels_safe:
  assumes "process_runs C E w s"
  shows "crashed s \<noteq> Some SendOnClosed \<and> length (commandCh s) \<le> capacity \<and>
    (\<forall>ch r. wpc s = Replying ch r \<longrightarrow> ch \<notin> fst ` set (replies s)) \<and>
    (\<forall>i < length (procs s). \<forall>ch \<in># holds (procs s ! i).
       ch \<notin> set (pool s) \<and> (\<forall>j < length (procs s). ch \<in># holds (procs s ! j) \<longrightarrow> j = i))"
proof -
  have inv: "phases s" "channels s" using process_sound [OF assms] by (simp_all add: sound_def)
  have "wpc s = Replying ch r \<longrightarrow> ch \<notin> fst ` set (replies s)" for ch r
    using flight_distinct [OF inv(2)] by (intro impI) simp
  then show ?thesis using inv holder_not_pooled [OF inv(2)] one_holder [OF inv(2)] unfolding phases_def by blast
qed

theorem channels_safe_witness:
  "\<exists>s. process_runs ctx0 (\<lambda>_. env0) \<lparr>turn = 0, st = start\<rparr> s \<and> history s \<noteq> [] \<and> crashed s \<noteq> Some SendOnClosed"
proof -
  have "length (EncodeSimpleString ''PONG'') \<le> 4096" by (simp add: EncodeSimpleString_def)
  then show ?thesis using ping_run [OF ping_example] channels_safe by (metis list.distinct(1))
qed

text \<open>
  C13: when the server has returned, nothing was dropped: every goroutine is gone, every
  request that was ever sent has been run and its reply received, and the log has been
  synced after the last of them.
\<close>

theorem shutdown_drains:
  assumes "process_runs C E w s" "main s = Returned"
  shows "commandCh s = [] \<and> replies s = [] \<and> wpc s = WorkerDone \<and> synced s \<and>
    (\<forall>i < length (procs s). pc (procs s ! i) = Ended \<and> told s i = answers (procs s ! i))"
proof -
  note sound = process_sound [OF assms(1)]
  then have inv: "phases s" "channels s" "routed s" by (simp_all add: sound_def)
  note ended = returned_ended [OF sound assms(2)]
  then have "sum_list (map waits (procs s)) = {#}" by (intro ended_waits) (auto simp: in_set_conv_nth)
  then have "in_flight s = {#}" using inv(2) by (simp add: channels_def)
  moreover have "told s i = answers (procs s ! i)" if "i < length (procs s)" for i
    using inv(3) ended [OF that] that by (auto simp: routed_def in_order_def)
  ultimately show ?thesis using inv(1) assms(2) ended by (auto simp: phases_def in_flight_def)
qed

theorem shutdown_drains_witness:
  "\<exists>s. process_runs ctx0 (\<lambda>_. env0) \<lparr>turn = 0, st = start\<rparr> s \<and> history s \<noteq> [] \<and> pc (procs s ! 1) = Ended \<and> synced s"
proof -
  let ?req = "single \<lparr>Cname = ''PING'', Args = []\<rparr>" and ?r = "EncodeSimpleString ''PONG''"
  have "length ?r \<le> 4096" by (simp add: EncodeSimpleString_def)
  then obtain s where s: "process_runs ctx0 (\<lambda>_. env0) \<lparr>turn = 0, st = start\<rparr> s" "main s = Returned" "history s = [(1, ?req, ?r)]"
    "length (procs s) = 2" using ping_run [OF ping_example] by blast
  then show ?thesis using shutdown_drains [OF s(1,2)] by (intro exI [of _ s]) auto
qed



end
