(* ===== verification/Command_Spec.thy ===== *)
theory Command_Spec
  imports Effects
begin

text \<open>
  The data commands as functions on a map from keys to values and deadlines, independent of
  encodings, clocks, memory and representation, and the proof that dispatching a command
  implements its function.
\<close>

type_synonym kv = "string \<Rightarrow> (rvalue \<times> int option) option"

subsection \<open>Commands on the map\<close>

text \<open>
  What each data command does to the map clients see and what it answers; \<open>None\<close> where it
  answers with an error and does nothing. The strings and numbers are as in the requests.
\<close>

definition deadline :: "env \<Rightarrow> int \<Rightarrow> int option" where
  "deadline E ttl = (if 0 < ttl then Some (instant E + ttl) else None)"

lemma deadline_0 [simp]: "deadline E 0 = None"
  by (simp add: deadline_def)

type_synonym cmd_spec = "env \<Rightarrow> string list \<Rightarrow> kv \<Rightarrow> (kv \<times> reply) option"

definition spec_ping :: cmd_spec where
  "spec_ping E args m = (case args of [] \<Rightarrow> Some (m, SimpleR ''PONG'') | [x] \<Rightarrow> Some (m, BulkR x) | _ \<Rightarrow> None)"

definition text_at :: "kv \<Rightarrow> string \<Rightarrow> string option" where
  "text_at m k = (case m k of None \<Rightarrow> None | Some (v, _) \<Rightarrow> text_of v)"

definition spec_get :: cmd_spec where
  "spec_get E args m =
     (case args of [k] \<Rightarrow> Some (m, case text_at m k of None \<Rightarrow> NullR | Some t \<Rightarrow> BulkR t) | _ \<Rightarrow> None)"

definition set_ttl :: "env \<Rightarrow> string \<Rightarrow> string \<Rightarrow> int option" where
  "set_ttl E opt num =
     (case Atoi num of
        None \<Rightarrow> None
      | Some n \<Rightarrow>
          if n \<le> 0 then None
          else if ToUpper (uniUpper E) opt = ''EX'' then Some (wrap64 (n * 10 ^ 9))
          else if ToUpper (uniUpper E) opt = ''PX'' then Some (wrap64 (n * 10 ^ 6))
          else None)"

definition spec_set :: cmd_spec where
  "spec_set E args m =
     (case args of
        [k, v] \<Rightarrow> Some (m(k \<mapsto> (stored v, None)), SimpleR ''OK'')
      | [k, v, opt, num] \<Rightarrow>
          (case set_ttl E opt num of
             None \<Rightarrow> None
           | Some ttl \<Rightarrow> Some (m(k \<mapsto> (stored v, deadline E ttl)), SimpleR ''OK''))
      | _ \<Rightarrow> None)"

definition spec_append :: cmd_spec where
  "spec_append E args m =
     (case args of
        [k, v] \<Rightarrow>
          (case m k of
             None \<Rightarrow> Some (m(k \<mapsto> (stored v, None)), IntR (int (length v)))
           | Some (r, x) \<Rightarrow>
               map_option (\<lambda>t. (m(k \<mapsto> (RStr (t @ v), x)), IntR (int (length t + length v)))) (text_of r))
      | _ \<Rightarrow> None)"

definition spec_incr :: cmd_spec where
  "spec_incr E args m =
     (case args of
        [k] \<Rightarrow>
          (case m k of
             None \<Rightarrow> Some (m(k \<mapsto> (RInt 1, None)), IntR 1)
           | Some (RInt n, x) \<Rightarrow>
               Some (m(k \<mapsto> (RInt (wrap64 (n + 1)),
                             deadline E (case x of None \<Rightarrow> 0 | Some t \<Rightarrow> clamp64 (t - wall E)))),
                     IntR (wrap64 (n + 1)))
           | _ \<Rightarrow> None)
      | _ \<Rightarrow> None)"

definition spec_expire :: cmd_spec where
  "spec_expire E args m =
     (case args of
        [k, num] \<Rightarrow>
          (case Atoi num of
             None \<Rightarrow> None
           | Some n \<Rightarrow>
               map_option (\<lambda>t. (m(k \<mapsto> (stored t, deadline E (wrap64 (n * 10 ^ 9)))), IntR 1)) (text_at m k))
      | _ \<Rightarrow> None)"

definition spec_ttl :: cmd_spec where
  "spec_ttl E args m =
     (case args of
        [k] \<Rightarrow>
          Some (m, IntR (case m k of
                           None \<Rightarrow> -2
                         | Some (_, None) \<Rightarrow> -1
                         | Some (_, Some t) \<Rightarrow> (clamp64 (t - instant E) div 10 ^ 6 + 500) div 1000))
      | _ \<Rightarrow> None)"

definition spec_del :: cmd_spec where
  "spec_del E args m =
     (if args = [] then None else Some (m |` (- set args), IntR (int (card {k \<in> set args. m k \<noteq> None}))))"

definition spec_pfadd :: cmd_spec where
  "spec_pfadd E args m =
     (case args of
        [] \<Rightarrow> None
      | k # vs \<Rightarrow>
          (case m k of
             None \<Rightarrow> Some (m(k \<mapsto> (RSketch (sketch (map bytes vs)), None)), IntR 1)
           | Some (RSketch rs, x) \<Rightarrow>
               (let rs' = max_all rs (map (hllPatLen \<circ> bytes) vs)
                in Some (m(k \<mapsto> (RSketch rs', x)), IntR (if rs' \<noteq> rs then 1 else 0)))
           | _ \<Rightarrow> None))"

fun sketch_at :: "kv \<Rightarrow> string \<Rightarrow> byte list list" where
  "sketch_at m k = (case m k of Some (RSketch rs, _) \<Rightarrow> [rs] | _ \<Rightarrow> [])"

definition spec_pfcount :: cmd_spec where
  "spec_pfcount E args m =
     (case args of
        [k] \<Rightarrow>
          Some (m, IntR (case sketch_at m k of rs # _ \<Rightarrow> sint (cardinality (fpu E) (histogram rs)) | [] \<Rightarrow> 0))
      | _ \<Rightarrow> None)"

definition spec_pfmerge :: cmd_spec where
  "spec_pfmerge E args m =
     (case args of
        [] \<Rightarrow> None
      | d # _ \<Rightarrow>
          Some (m(d \<mapsto> (RSketch (foldl (map2 max) (replicate registers 0) (concat (map (sketch_at m) args))), None)),
                SimpleR ''OK''))"

definition specs :: "string \<Rightarrow> cmd_spec option" where
  "specs = map_of
     [(''PING'', spec_ping), (''GET'', spec_get), (''SET'', spec_set), (''APPEND'', spec_append), (''INCR'', spec_incr),
      (''EXPIRE'', spec_expire), (''TTL'', spec_ttl), (''DEL'', spec_del), (''PFADD'', spec_pfadd),
      (''PFCOUNT'', spec_pfcount), (''PFMERGE'', spec_pfmerge)]"

subsection \<open>Every handler implements its command\<close>

text \<open>
  \<open>meets\<close>: the handler answers and leaves the map as the command says, or answers with an
  error and leaves it as it was.
\<close>

definition meets :: "env \<Rightarrow> (Store \<times> string) outcome \<Rightarrow> (kv \<times> reply) option \<Rightarrow> kv \<Rightarrow> bool" where
  "meets E out sp m \<longleftrightarrow>
     (case sp of
        Some (m', r) \<Rightarrow> \<exists>s'. out = Ret (s', encode_reply r) \<and> store_ok (fpu E) s' \<and> view s' = m'
      | None \<Rightarrow> \<exists>s' e. out = Ret (s', EncodeError e) \<and> store_ok (fpu E) s' \<and> view s' = m)"

lemma meetsI: "store_ok (fpu E) s' \<Longrightarrow> view s' = m' \<Longrightarrow> reply = encode_reply r \<Longrightarrow> meets E (Ret (s', reply)) (Some (m', r)) m"
  by (simp add: meets_def)

lemma meets_error: "store_ok (fpu E) s' \<Longrightarrow> view s' = m \<Longrightarrow> meets E (Ret (s', EncodeError e)) None m"
  by (auto simp: meets_def)

lemma arity:
  "length args = Suc 0 \<longleftrightarrow> (\<exists>k. args = [k])" "length args = 2 \<longleftrightarrow> (\<exists>k v. args = [k, v])"
  "length args = 4 \<longleftrightarrow> (\<exists>k v opt num. args = [k, v, opt, num])"
  by (auto simp: length_Suc_conv numeral_2_eq_2 numeral_eq_Suc)

lemma Get_now: "Get E k s = Ret (s', r) \<Longrightarrow> now s' = now s"
  by (auto simp: Get_def Let_def split: option.splits if_splits Encoding.splits)

lemma GetInt_now: "GetInt E k s = Ret (s', r) \<Longrightarrow> now s' = now s"
  by (auto simp: GetInt_def Let_def split: option.splits if_splits)

lemma handlePing_meets:
  assumes "store_ok (fpu E) s"
  shows "meets E (handlePing E C args s) (spec_ping E args (view s)) (view s)"
  using assms by (auto simp: handlePing_def spec_ping_def intro: meetsI meets_error split: list.splits)

lemma handleGet_meets:
  assumes "store_ok (fpu E) s"
  shows "meets E (handleGet E C args s) (spec_get E args (view s)) (view s)"
proof (cases "length args = 1")
  case True
  then obtain k where k: "args = [k]" by (auto simp: arity)
  obtain s' where "Get E k s = Ret (s', text_at (view s) k)" "store_ok (fpu E) s'" "view s' = view s"
    using Get_view [OF assms, of E k] unfolding text_at_def by blast
  then show ?thesis using k by (auto simp: handleGet_def spec_get_def intro!: meetsI split: option.splits)
next
  case False
  then show ?thesis using assms by (auto simp: handleGet_def spec_get_def intro: meets_error split: list.splits)
qed

lemma handleSet_meets:
  assumes "store_ok (fpu E) s" "now s = instant E"
  shows "meets E (handleSet E C args s) (spec_set E args (view s)) (view s)"
proof -
  have set: "meets E (Ret (Set k v ttl s, EncodeSimpleString ''OK'')) (Some ((view s)(k \<mapsto> (stored v, deadline E ttl)), SimpleR ''OK'')) (view s)"
    for k v ttl
    using assms by (intro meetsI) (simp_all add: Set_ok Set_view deadline_def)
  show ?thesis
  proof (cases "length args = 2 \<or> length args = 4")
    case True
    then consider k v where "args = [k, v]" | k v opt num where "args = [k, v, opt, num]" by (auto simp: arity)
    then show ?thesis
    proof cases
      case 1
      then show ?thesis using set [of _ _ 0] by (simp add: handleSet_def spec_set_def deadline_def)
    next
      case 2
      then show ?thesis using set assms(1)
        by (cases "Atoi num") (auto simp: handleSet_def spec_set_def set_ttl_def Let_def intro: meets_error)
    qed
  next
    case False
    then show ?thesis using assms(1) by (auto simp: handleSet_def spec_set_def intro: meets_error split: list.splits)
  qed
qed

lemma handleIncr_meets:
  assumes "store_ok (fpu E) s" "now s = instant E"
  shows "meets E (handleIncr E C args s) (spec_incr E args (view s)) (view s)"
proof (cases "length args = 1")
  case True
  then obtain k where k: "args = [k]" by (auto simp: arity)
  obtain s' where s': "GetInt E k s = Ret (s', case view s k of
        None \<Rightarrow> (0, False, False, None) | Some (RInt n, x) \<Rightarrow> (n, True, False, x) | Some (_, x) \<Rightarrow> (0, True, True, None))"
    "store_ok (fpu E) s'" "view s' = view s" "now s' = now s"
    using GetInt_view [OF assms(1), of E k] GetInt_now by blast
  have set: "meets E (Ret (Set k (FormatInt n) ttl s', EncodeInteger n)) (Some ((view s)(k \<mapsto> (RInt n, deadline E ttl)), IntR n)) (view s)"
    if "in_int64 n" for n ttl
    using assms(2) s'(2-4) that by (intro meetsI) (simp_all add: Set_ok Set_view deadline_def stored_def)
  have "wrap64 1 = 1" "in_int64 1" by (simp_all add: in_int64_def)
  then show ?thesis using k s' set [of 1 0] set [OF in_int64_wrap64] set [OF in_int64_wrap64, of _ 0]
    by (auto simp: handleIncr_def spec_incr_def Let_def intro: meets_error split: option.splits rvalue.splits)
next
  case False
  then show ?thesis using assms by (auto simp: handleIncr_def spec_incr_def intro: meets_error split: list.splits)
qed

lemma handleExpire_meets:
  assumes "store_ok (fpu E) s" "now s = instant E"
  shows "meets E (handleExpire E C args s) (spec_expire E args (view s)) (view s)"
proof (cases "length args = 2")
  case True
  then obtain k num where k: "args = [k, num]" by (auto simp: arity)
  obtain s' where s': "Get E k s = Ret (s', text_at (view s) k)" "store_ok (fpu E) s'" "view s' = view s" "now s' = now s"
    using Get_view [OF assms(1), of E k] Get_now unfolding text_at_def by blast
  have set: "meets E (Ret (Set k t ttl s', EncodeInteger 1)) (Some ((view s)(k \<mapsto> (stored t, deadline E ttl)), IntR 1)) (view s)"
    for t ttl
    using assms(2) s'(2-4) by (intro meetsI) (simp_all add: Set_ok Set_view deadline_def)
  show ?thesis using k s' set assms(1)
    by (cases "Atoi num"; cases "text_at (view s) k") (auto simp: handleExpire_def spec_expire_def intro: meets_error)
next
  case False
  then show ?thesis using assms by (auto simp: handleExpire_def spec_expire_def intro: meets_error split: list.splits)
qed

lemma handleTTL_meets:
  assumes "store_ok (fpu E) s" "now s = instant E"
  shows "meets E (handleTTL E C args s) (spec_ttl E args (view s)) (view s)"
proof (cases "length args = 1")
  case True
  then obtain k where k: "args = [k]" by (auto simp: arity)
  have "store_ok (fpu E) (fst (TTL k s))" "view (fst (TTL k s)) = view s" using meta_read(3) [OF assms(1), of k] by simp_all
  then show ?thesis using k TTL_result [of k s, unfolded assms(2)]
    by (auto simp: handleTTL_def spec_ttl_def case_prod_beta' intro!: meetsI)
next
  case False
  then show ?thesis using assms by (auto simp: handleTTL_def spec_ttl_def intro: meets_error split: list.splits)
qed

lemma handleDel_meets:
  assumes "store_ok (fpu E) s"
  shows "meets E (handleDel E C args s) (spec_del E args (view s)) (view s)"
proof (cases "args = []")
  case False
  then have "\<not> length args < 1" by (cases args) simp_all
  then show ?thesis using False Delete_view [OF assms, of args]
    by (auto simp: handleDel_def spec_del_def case_prod_beta' intro!: meetsI)
qed (use assms in \<open>simp add: handleDel_def spec_del_def meets_error\<close>)

lemma handlePFAdd_meets:
  assumes "store_ok (fpu E) s" "env_ok E"
  shows "meets E (handlePFAdd E C args s) (spec_pfadd E args (view s)) (view s)"
proof (cases args)
  case (Cons k vs)
  have f: "fp_ok (fpu E)" using assms(2) by (simp add: env_ok_def)
  show ?thesis
  proof (cases "view s k")
    case None
    then show ?thesis using Cons PFAdd_create [OF assms(1) f None, of E vs]
      by (auto simp: handlePFAdd_def spec_pfadd_def intro!: meetsI)
  next
    case (Some p)
    obtain v x where v: "view s k = Some (v, x)" using Some by (cases p) auto
    show ?thesis
    proof (cases v)
      case (RSketch rs)
      then show ?thesis using Cons v PFAdd_update [OF assms(1) v [unfolded RSketch], of E vs]
        by (auto simp: handlePFAdd_def spec_pfadd_def Let_def intro!: meetsI)
    qed (use Cons v PFAdd_wrongtype [OF v _ assms(1), of E vs] assms(1) in
        \<open>simp_all add: handlePFAdd_def spec_pfadd_def meets_error\<close>)
  qed
qed (use assms in \<open>simp add: handlePFAdd_def spec_pfadd_def meets_error\<close>)

text \<open>
  APPEND, PFCOUNT and PFMERGE read the entry of a key without looking at its deadline, so
  they implement the map only for keys that are not over and still stored.
\<close>

lemma look_view:
  assumes "\<not> expired_key s k"
  shows "look s k = None \<and> view s k = None \<or> (\<exists>e. look s k = Some e \<and> \<not> isExpired s e \<and> view s k = Some (value_of e, expiresAt e))"
  using assms by (auto simp: expired_key_def view_def split: option.splits)

lemma handleAppend_meets:
  assumes "store_ok (fpu E) s" "env_ok E" "append_safe args s" "args \<noteq> [] \<longrightarrow> \<not> expired_key s (args ! 0)"
  shows "meets E (handleAppend E C args s) (spec_append E args (view s)) (view s)"
proof (cases "length args = 2")
  case True
  then obtain k v where k: "args = [k, v]" by (auto simp: arity)
  from look_view [of s k] assms(4) k consider "look s k = None" "view s k = None"
    | e where "look s k = Some e" "\<not> isExpired s e" "view s k = Some (value_of e, expiresAt e)" by auto
  then show ?thesis
  proof cases
    case 1
    then show ?thesis using k assms(1)
      by (auto simp: handleAppend_def Append_def spec_append_def Set_ok Set_view intro!: meetsI)
  next
    case 2
    have "encoding e \<noteq> EncodingHLL" using assms(3) k 2(1) by (simp add: append_safe_def)
    then obtain t where t: "text_of (value_of e) = Some t" using not_sketch_text ks.get_good [OF assms(1) 2(1)] by blast
    then show ?thesis using k 2 Append_view [OF assms(1,2) 2(1) t, of v]
      by (auto simp: handleAppend_def spec_append_def intro!: meetsI)
  qed
next
  case False
  then show ?thesis using assms by (auto simp: handleAppend_def spec_append_def intro: meets_error split: list.splits)
qed

lemma handlePFCount_meets:
  assumes "store_ok (fpu E) s" "args \<noteq> [] \<longrightarrow> \<not> expired_key s (args ! 0)"
  shows "meets E (handlePFCount E C args s) (spec_pfcount E args (view s)) (view s)"
proof (cases "length args = 1")
  case True
  then obtain k where k: "args = [k]" by (auto simp: arity)
  have "(case look s k of Some e \<Rightarrow> (case value_of e of RSketch rs \<Rightarrow> sint (cardinality (fpu E) (histogram rs)) | _ \<Rightarrow> 0) | None \<Rightarrow> 0) =
      (case sketch_at (view s) k of rs # _ \<Rightarrow> sint (cardinality (fpu E) (histogram rs)) | [] \<Rightarrow> 0)"
    using look_view [of s k] assms(2) k by (auto split: rvalue.splits)
  then show ?thesis using k PFCount_view [OF assms(1), of k]
    by (auto simp: handlePFCount_def spec_pfcount_def intro!: meetsI)
next
  case False
  then show ?thesis using assms by (auto simp: handlePFCount_def spec_pfcount_def intro: meets_error split: list.splits)
qed

lemma sketches_view:
  "list_all (\<lambda>k. \<not> expired_key s k) keys \<Longrightarrow> sketches s keys = concat (map (sketch_at (view s)) keys)"
proof (induction keys)
  case (Cons k keys)
  then show ?case using look_view [of s k] by (auto simp: sketches_def split: rvalue.splits)
qed (simp add: sketches_def)

lemma handlePFMerge_meets:
  assumes "store_ok (fpu E) s" "env_ok E" "list_all (\<lambda>k. \<not> expired_key s k) args"
  shows "meets E (handlePFMerge E C args s) (spec_pfmerge E args (view s)) (view s)"
proof (cases args)
  case (Cons d srcs)
  have "fp_ok (fpu E)" using assms(2) by (simp add: env_ok_def)
  from PFMerge_view [OF assms(1) this, of d srcs] show ?thesis
    using Cons sketches_view [OF assms(3)] by (auto simp: handlePFMerge_def spec_pfmerge_def intro!: meetsI)
qed (use assms in \<open>simp add: handlePFMerge_def spec_pfmerge_def meets_error\<close>)
subsection \<open>Dispatch implements the commands\<close>

definition fresh :: "Command \<Rightarrow> Store \<Rightarrow> bool" where
  "fresh cmd s \<longleftrightarrow> list_all (\<lambda>k. \<not> expired_key s k) (keys_of cmd)"

lemma fresh_one: "fresh cmd s \<Longrightarrow> Cname cmd \<in> set one_key \<Longrightarrow> Args cmd \<noteq> [] \<longrightarrow> \<not> expired_key s (Args cmd ! 0)"
  by (cases "Args cmd") (auto simp: fresh_def keys_of_one)

lemma fresh_all: "fresh cmd s \<Longrightarrow> Cname cmd \<in> set all_keys \<Longrightarrow> list_all (\<lambda>k. \<not> expired_key s k) (Args cmd)"
  by (simp add: fresh_def keys_of_all)

lemma specs_cases:
  assumes "specs name = Some sp"
  obtains "name = ''PING''" "sp = spec_ping" | "name = ''GET''" "sp = spec_get" | "name = ''SET''" "sp = spec_set"
  | "name = ''APPEND''" "sp = spec_append" | "name = ''INCR''" "sp = spec_incr" | "name = ''EXPIRE''" "sp = spec_expire"
  | "name = ''TTL''" "sp = spec_ttl" | "name = ''DEL''" "sp = spec_del" | "name = ''PFADD''" "sp = spec_pfadd"
  | "name = ''PFCOUNT''" "sp = spec_pfcount" | "name = ''PFMERGE''" "sp = spec_pfmerge"
  using map_of_SomeD [OF assms [unfolded specs_def]]
  by (simp only: list.set insert_iff empty_iff prod.inject HOL.simp_thms) (elim disjE conjE; (rule that, assumption, assumption))

lemma handler_of:
  "commands ''PING'' = Some handlePing" "commands ''GET'' = Some handleGet" "commands ''SET'' = Some handleSet"
  "commands ''APPEND'' = Some handleAppend" "commands ''INCR'' = Some handleIncr" "commands ''EXPIRE'' = Some handleExpire"
  "commands ''TTL'' = Some handleTTL" "commands ''DEL'' = Some handleDel" "commands ''PFADD'' = Some handlePFAdd"
  "commands ''PFCOUNT'' = Some handlePFCount" "commands ''PFMERGE'' = Some handlePFMerge"
  by (simp_all add: commands_def)

lemma handler_meets:
  assumes "specs (Cname cmd) = Some sp" "store_ok (fpu E) s" "env_ok E" "now s = instant E" "fresh cmd s"
    "Cname cmd = ''APPEND'' \<longrightarrow> append_safe (Args cmd) s"
  shows "\<exists>h. commands (Cname cmd) = Some h \<and> meets E (h E C (Args cmd) s) (sp E (Args cmd) (view s)) (view s)"
  using assms(1)
proof (cases rule: specs_cases)
  case 4
  then show ?thesis using assms handleAppend_meets [OF assms(2,3)] fresh_one [OF assms(5)] by (simp add: handler_of one_key_def)
next
  case 10
  have "Args cmd \<noteq> [] \<longrightarrow> \<not> expired_key s (Args cmd ! 0)"
    using fresh_all [OF assms(5)] 10 by (cases "Args cmd") (simp_all add: all_keys_def)
  then show ?thesis using assms 10 handlePFCount_meets [OF assms(2)] by (simp add: handler_of)
next
  case 11
  then show ?thesis using assms handlePFMerge_meets [OF assms(2,3)] fresh_all [OF assms(5)] by (simp add: handler_of all_keys_def)
qed (use assms(2-4) in \<open>simp_all add: handler_of handlePing_meets handleGet_meets handleSet_meets handleIncr_meets
    handleExpire_meets handleTTL_meets handleDel_meets handlePFAdd_meets\<close>)

lemma Dispatch_meets:
  assumes "specs (Cname cmd) = Some sp" "store_ok (fpu E) (db st)" "env_ok E" "checkCluster C cmd = None" "MaxMemory C \<le> 0"
    "fresh cmd (db (tick E st))" "Cname cmd = ''APPEND'' \<longrightarrow> append_safe (Args cmd) (db st)"
  obtains s' reply where "Dispatch C E cmd st = Ret (log_command E cmd reply ((tick E st)\<lparr>db := s'\<rparr>), reply)"
    "store_ok (fpu E) s'"
    "case sp E (Args cmd) (view (db (tick E st))) of
       Some (m', r) \<Rightarrow> reply = encode_reply r \<and> view s' = m'
     | None \<Rightarrow> isErrorReply reply \<and> view s' = view (db (tick E st))"
proof -
  have safe: "Cname cmd = ''APPEND'' \<longrightarrow> append_safe (Args cmd) (db (tick E st))" using assms(7) by (simp add: append_safe_def)
  obtain h where h: "commands (Cname cmd) = Some h"
    "meets E (h E C (Args cmd) (db (tick E st))) (sp E (Args cmd) (view (db (tick E st)))) (view (db (tick E st)))"
    using handler_meets [OF assms(1) _ assms(3) _ assms(6) safe] assms(2) by auto
  then obtain s' reply where r: "h E C (Args cmd) (db (tick E st)) = Ret (s', reply)" "store_ok (fpu E) s'"
    "case sp E (Args cmd) (view (db (tick E st))) of
       Some (m', r) \<Rightarrow> reply = encode_reply r \<and> view s' = m'
     | None \<Rightarrow> isErrorReply reply \<and> view s' = view (db (tick E st))"
    by (auto simp: meets_def split: option.splits)
  show thesis
    by (rule that [OF _ r(2,3)]) (use h(1) assms(4) no_limit_room [OF assms(5)] r(1) in \<open>simp add: Dispatch_def\<close>)
qed


lemma start_empty: "view (db (tick E start)) = (\<lambda>_. None)" "\<not> expired_key (db (tick E start)) k"
  by (rule ext) (simp_all add: start_def store_New_def tick_def view_def expired_key_def)


text \<open>INCR of the largest number wraps to the smallest; the server does not refuse it.\<close>

lemma incr_wraps:
  "spec_incr E [k] [k \<mapsto> (RInt (2 ^ 63 - 1), None)] = Some ([k \<mapsto> (RInt (- (2 ^ 63)), None)], IntR (- (2 ^ 63)))"
  by (simp add: spec_incr_def wrap64_def)

text \<open>EXPIRE with a number that is not positive makes a key permanent.\<close>

lemma expire_nonpositive:
  assumes "Atoi num = Some n" "n \<le> 0" "- (2 ^ 33) < n" "text_at m k = Some t"
  shows "spec_expire E [k, num] m = Some (m(k \<mapsto> (stored t, None)), IntR 1)"
proof -
  have "in_int64 (n * 10 ^ 9)" using assms(2,3) by (simp add: in_int64_def)
  then show ?thesis using assms by (simp add: spec_expire_def deadline_def)
qed

end
