(* ===== verification/Restart.thy ===== *)
theory Restart
  imports Command_Spec
begin

text \<open>
  Starting on a log: \<^verbatim>\<open>replayAOFCommand\<close> and the beginning of \<^verbatim>\<open>Run\<close> in
  \<^verbatim>\<open>server/tcp_server.go\<close>, and the proof that a restart brings back the data, from the
  codec through the log and dispatch to the store.
\<close>

subsection \<open>Stores without deadlines\<close>

definition persistent :: "Store \<Rightarrow> bool" where
  "persistent s \<longleftrightarrow> list_all (\<lambda>(k, e). expiresAt e = None) (data s)"

lemma persistent_look: "persistent s \<Longrightarrow> look s k = Some e \<Longrightarrow> expiresAt e = None"
  by (auto simp: persistent_def list_all_iff dest!: map_of_SomeD)

lemma persistent_data [simp]:
  "persistent s \<Longrightarrow> expiresAt e = None \<Longrightarrow> list_all (\<lambda>(k, e). expiresAt e = None) (AList.update k e (data s))"
  "persistent s \<Longrightarrow> list_all (\<lambda>(k, e). expiresAt e = None) (AList.delete k (data s))"
  unfolding persistent_def by (auto intro: list_all_update list_all_delete)

lemma persistent_removeKey [simp]: "persistent s \<Longrightarrow> persistent (removeKey k s)"
  using persistent_data(2) by (simp add: persistent_def)

lemma persistent_removeKeys: "persistent s \<Longrightarrow> persistent (fold removeKey ks s)"
  by (induction ks arbitrary: s) simp_all

lemma not_expired: "persistent s \<Longrightarrow> look s k = Some e \<Longrightarrow> \<not> isExpired s e"
  by (simp add: isExpired_def persistent_look)

lemma persistent_Set: "persistent s \<Longrightarrow> persistent (Set k v 0 s)"
  unfolding Set_put using persistent_data(1) [of s "new_entry v 0 s" k] by (simp add: persistent_def new_entry_def)

lemma persistent_reads:
  assumes "persistent s"
  shows "Get E k s = Ret (s1, r1) \<Longrightarrow> persistent s1" "GetInt E k s = Ret (s2, r2) \<Longrightarrow> persistent s2"
    "persistent (fst (GetEncoding k s))" "persistent (fst (GetFreq k s))" "persistent (fst (TTL k s))"
    "PFCount E k s = Ret (s3, r3) \<Longrightarrow> persistent s3"
  using assms persistent_look [OF assms]
  by (auto simp: Get_def GetInt_def GetEncoding_def GetFreq_def TTL_def PFCount_def Let_def persistent_def [of "_\<lparr>data := _\<rparr>"]
      split: option.splits if_splits Encoding.splits)

lemma persistent_Append:
  "persistent s \<Longrightarrow> Append E k v s = Ret (s', n) \<Longrightarrow> persistent s'"
  using persistent_look [of s k]
  by (auto simp: Append_def Let_def persistent_Set persistent_def [of "_\<lparr>usedMemory := _\<rparr>"] split: option.splits)

lemma persistent_PFMerge: "persistent s \<Longrightarrow> PFMerge d ks s = Ret s' \<Longrightarrow> persistent s'"
  by (auto simp: PFMerge_def Let_def UpdateDbStat_def persistent_def [of "_\<lparr>usedMemory := _\<rparr>"] split: option.splits)

lemma persistent_pfadd_store:
  "persistent s \<Longrightarrow> expiresAt e = None \<Longrightarrow> pfadd_store k vs e ch s = Ret (s', r) \<Longrightarrow> persistent s'"
  by (auto simp: pfadd_store_def Let_def persistent_def [of "_\<lparr>usedMemory := _\<rparr>"] split: option.splits if_splits)

lemma persistent_other [simp]:
  "persistent (s\<lparr>usedMemory := u\<rparr>) = persistent s" "persistent (UpdateDbStat n m v s) = persistent s"
  "persistent (s\<lparr>now := t\<rparr>) = persistent s"
  by (simp_all add: persistent_def)

lemma persistent_PFAdd:
  assumes "persistent s" "PFAdd E k vs s = Ret (s', r)"
  shows "persistent s'"
proof (cases "look s k")
  case None
  then show ?thesis using assms by (auto simp: PFAdd_def Let_def intro: persistent_pfadd_store [rotated 2])
next
  case (Some e)
  then show ?thesis using assms not_expired [OF assms(1) Some] persistent_look [OF assms(1) Some]
    by (auto simp: PFAdd_def Let_def intro: persistent_pfadd_store [rotated 2] split: if_splits)
qed

lemma persistent_Delete: "persistent s \<Longrightarrow> persistent (fst (Delete ks s))"
  by (simp add: Delete_def delete_loop_eq persistent_removeKeys)

lemma persistent_expire: "persistent s \<Longrightarrow> expire_loop ks c d s = (s', n) \<Longrightarrow> persistent s'"
proof (induction ks arbitrary: c d s)
  case (Cons k ks)
  then show ?case by (cases "look s k") (auto dest: Cons.IH persistent_look split: if_splits)
qed simp

lemma persistent_view:
  assumes "persistent s"
  shows "view s k = map_option (\<lambda>e. (value_of e, None)) (look s k)"
  using persistent_look [OF assms, of k] not_expired [OF assms, of k] by (cases "look s k") (simp_all add: view_def)

lemma persistent_tick: "persistent s \<Longrightarrow> view (s\<lparr>now := t\<rparr>) = view s"
  using persistent_view [of s] persistent_view [of "s\<lparr>now := t\<rparr>"] by (auto intro!: ext)

lemma persistent_fresh: "persistent s \<Longrightarrow> fresh cmd s"
  by (auto simp: fresh_def list_all_iff expired_key_def not_expired split: option.splits)

subsection \<open>Commands without deadlines\<close>

definition timeless :: "Command \<Rightarrow> bool" where
  "timeless cmd \<longleftrightarrow> Cname cmd \<noteq> ''EXPIRE'' \<and> (Cname cmd = ''SET'' \<longrightarrow> length (Args cmd) \<noteq> 4)"

lemma GetInt_expiry: "persistent s \<Longrightarrow> GetInt E k s = Ret (s', n, ex, err, x) \<Longrightarrow> x = None"
  using persistent_look [of s k] by (auto simp: GetInt_def Let_def split: option.splits if_splits)

lemma handleCluster_store: "handleCluster E C args s = Ret (s', r) \<Longrightarrow> s' = s"
  unfolding handleCluster_def Let_def
  by (cases "Current C") (auto simp only: option.case outcome.inject prod.inject obind_eq_Ret split: if_splits option.splits)

lemma persistent_handler:
  assumes "commands (Cname cmd) = Some h" "timeless cmd" "persistent s" "h E C (Args cmd) s = Ret (s', r)"
  shows "persistent s'"
  using assms(1)
proof (cases rule: commands_cases)
  case 1 then show ?thesis using assms(3,4) persistent_reads(1) by (auto simp: handleGet_def split: if_splits)
next
  case 2 then show ?thesis using assms(2-4) by (auto simp: handleSet_def timeless_def persistent_Set split: if_splits)
next
  case 3 then show ?thesis using assms(2) by (simp add: timeless_def)
next
  case 4 then show ?thesis using assms(3,4) persistent_reads(5) [of s "Args cmd ! 0"]
    by (auto simp: handleTTL_def split: if_splits prod.splits)
next
  case 5
  show ?thesis
  proof (cases "GetInt E (Args cmd ! 0) s")
    case (Ret q)
    obtain s1 n ex err x where q: "q = (s1, n, ex, err, x)" by (cases q)
    have "x = None" "persistent s1"
      using GetInt_expiry [OF assms(3)] persistent_reads(2) [OF assms(3)] Ret q by blast+
    then show ?thesis using 5 assms(3,4) Ret q by (auto simp: handleIncr_def Let_def persistent_Set split: if_splits)
  next
    case Panic
    then show ?thesis using 5 assms(3,4) by (auto simp: handleIncr_def split: if_splits)
  qed
next
  case 6 then show ?thesis using assms(3,4) persistent_Append by (auto simp: handleAppend_def split: if_splits)
next
  case 7 then show ?thesis using assms(3,4) persistent_PFAdd by (auto simp: handlePFAdd_def split: if_splits)
next
  case 8 then show ?thesis using assms(3,4) persistent_reads(6) by (auto simp: handlePFCount_def split: if_splits)
next
  case 9 then show ?thesis using assms(3,4) persistent_PFMerge by (auto simp: handlePFMerge_def split: if_splits)
next
  case 10 then show ?thesis using assms(3,4) persistent_Delete [of s "Args cmd"]
    by (auto simp: handleDel_def split: if_splits prod.splits)
next
  case 11 then show ?thesis using assms(3,4) persistent_reads(3,4) [of s "Args cmd ! 1"]
    by (auto simp: handleObject_def Let_def split: if_splits prod.splits)
next
  case 15 then show ?thesis using assms(3,4) handleCluster_store by blast
next
  case 16 then show ?thesis using assms(3,4) persistent_expire by (auto simp: handleExpiry_def DeleteExpired_def split: prod.splits)
qed (use assms(3,4) in \<open>auto simp: handlePing_def handleInfo_def handleDebug_def Let_def\<close>)
subsection \<open>Replaying the log\<close>

definition replayAOFCommand :: "(string \<Rightarrow> string) \<Rightarrow> ctx \<Rightarrow> env \<Rightarrow> string list \<Rightarrow> state \<Rightarrow> state outcome" where
  "replayAOFCommand uni C E args st =
     (if length args = 0 then Ret st
      else Replay C E \<lparr>Cname = ToUpper uni (args ! 0), Args = drop 1 args\<rparr> st)"

fun replay_all :: "(string \<Rightarrow> string) \<Rightarrow> ctx \<Rightarrow> (nat \<Rightarrow> env) \<Rightarrow> nat \<Rightarrow> string list list \<Rightarrow> state \<Rightarrow> state outcome" where
  "replay_all uni C E i [] st = Ret st"
| "replay_all uni C E i (args # argss) st =
     obind (replayAOFCommand uni C (E i) args st) (\<lambda>st1. replay_all uni C E (Suc i) argss st1)"

text \<open>
  The start of \<^verbatim>\<open>Run\<close>: with the append-only file on, open it, replay it, and only then set it
  as the log. \<open>existing\<close> is the content of the file, \<open>None\<close> if it cannot be opened.
\<close>

definition open_log ::
  "(string \<Rightarrow> string) \<Rightarrow> ctx \<Rightarrow> (nat \<Rightarrow> env) \<Rightarrow> bool \<Rightarrow> string option \<Rightarrow> bool \<Rightarrow> state \<Rightarrow> (string + state) outcome" where
  "open_log uni C E appendOnly existing seek_ok st =
     (if \<not> appendOnly then Ret (Inr st)
      else case NewAOF existing of
        Inl e \<Rightarrow> Ret (Inl (''init AOF: '' @ e))
      | Inr a \<Rightarrow>
          obind (AOF_Recover seek_ok a) (\<lambda>r.
            case r of
              Inl e \<Rightarrow> Ret (Inl (''Error during AOF recovery: '' @ e))
            | Inr argss \<Rightarrow> obind (replay_all uni C E 0 argss st) (\<lambda>st1. Ret (Inr (SetAOF (Some a) st1)))))"

subsection \<open>What the log says\<close>

text \<open>The map after a logged command, and after all of them; \<open>replayable\<close> logs are those the server writes.\<close>

definition logged_step :: "kv \<Rightarrow> string list \<Rightarrow> kv" where
  "logged_step m args =
     (case specs (hd args) of
        None \<Rightarrow> m
      | Some sp \<Rightarrow> (case sp env0 (tl args) m of Some (m', _) \<Rightarrow> m' | None \<Rightarrow> m))"

definition appendable :: "string list \<Rightarrow> kv \<Rightarrow> bool" where
  "appendable args m \<longleftrightarrow> (hd args = ''APPEND'' \<longrightarrow> length (tl args) = 2 \<longrightarrow> (\<forall>rs x. m (tl args ! 0) \<noteq> Some (RSketch rs, x)))"

fun replayable :: "string list list \<Rightarrow> kv \<Rightarrow> bool" where
  "replayable [] m = True"
| "replayable (args # argss) m \<longleftrightarrow>
     args \<noteq> [] \<and> args_ok args \<and> hd args \<in> set writeCommands \<and> timeless \<lparr>Cname = hd args, Args = tl args\<rparr> \<and>
     appendable args m \<and> replayable argss (logged_step m args)"

lemma replayable_append:
  "replayable (xs @ ys) m \<longleftrightarrow> replayable xs m \<and> replayable ys (foldl logged_step m xs)"
  by (induction xs arbitrary: m) auto

lemma replayable_args_ok: "replayable xs m \<Longrightarrow> list_all args_ok xs"
  by (induction xs arbitrary: m) auto

lemma write_specs: "name \<in> set writeCommands \<Longrightarrow> \<exists>sp. specs name = Some sp"
  unfolding writeCommands_def
  by (simp only: list.set insert_iff empty_iff HOL.simp_thms, elim disjE) (simp_all add: specs_def)

lemma write_upper: "name \<in> set writeCommands \<Longrightarrow> ToUpper uni name = name"
  unfolding writeCommands_def
  by (simp only: list.set insert_iff empty_iff HOL.simp_thms, elim disjE)
    (simp_all add: ToUpper_def is_ascii_def upper_char_def)

text \<open>Without deadlines the environment does not matter.\<close>

lemma spec_timeless:
  assumes "specs (Cname cmd) = Some sp" "Cname cmd \<in> set writeCommands" "timeless cmd"
    "\<And>k v x. m k = Some (v, x) \<Longrightarrow> x = None"
  shows "sp E (Args cmd) m = sp env0 (Args cmd) m"
  using assms(1)
proof (cases rule: specs_cases)
  case 3
  then show ?thesis using assms(3) by (auto simp: spec_set_def timeless_def split: list.splits)
next
  case 5
  then show ?thesis using assms(4) by (auto simp: spec_incr_def split: list.splits option.splits rvalue.splits)
next
  case 6
  then show ?thesis using assms(3) by (simp add: timeless_def)
qed (use assms(2) in \<open>simp_all add: writeCommands_def spec_append_def spec_del_def spec_pfadd_def spec_pfmerge_def\<close>)

lemma append_safe_view:
  assumes "persistent s" "store_ok f s"
  shows "append_safe args s \<longleftrightarrow> (length args = 2 \<longrightarrow> (\<forall>rs x. view s (args ! 0) \<noteq> Some (RSketch rs, x)))"
proof (cases "look s (args ! 0)")
  case None
  then show ?thesis by (simp add: append_safe_def view_def)
next
  case (Some e)
  have "encoding e = EncodingHLL \<longleftrightarrow> (\<exists>rs. value_of e = RSketch rs)"
    using ks.get_good [OF assms(2) Some] by (cases rule: entry_ok_cases) auto
  then show ?thesis using Some persistent_view [OF assms(1), of "args ! 0"] by (auto simp: append_safe_def)
qed

lemma append_ret_safe:
  assumes "store_ok f s" "handleAppend E C args s = Ret q"
  shows "append_safe args s"
proof (cases "length args = 2")
  case True
  have "encoding e \<noteq> EncodingHLL" if "look s (args ! 0) = Some e" for e
  proof
    assume "encoding e = EncodingHLL"
    moreover from this have "strVal e = None" using ks.get_good [OF assms(1) that]
      by (auto simp: entry_ok_def split: option.splits)
    ultimately show False using assms(2) True that by (simp add: handleAppend_def Append_def Let_def)
  qed
  then show ?thesis by (auto simp: append_safe_def split: option.splits)
qed (simp add: append_safe_def)

text \<open>One write, wherever it runs: in a dispatch or in a replay.\<close>

lemma write_runs:
  assumes "Cname cmd \<in> set writeCommands" "timeless cmd" "store_ok (fpu E) s" "env_ok E" "now s = instant E" "persistent s"
    "Cname cmd = ''APPEND'' \<longrightarrow> append_safe (Args cmd) s"
  shows "\<exists>h s' r. commands (Cname cmd) = Some h \<and> h E C (Args cmd) s = Ret (s', r) \<and> store_ok (fpu E) s' \<and> persistent s' \<and>
    view s' = logged_step (view s) (Cname cmd # Args cmd) \<and> (isErrorReply r \<longrightarrow> view s' = view s)"
proof -
  obtain sp where sp: "specs (Cname cmd) = Some sp" using write_specs [OF assms(1)] by blast
  obtain h where h: "commands (Cname cmd) = Some h"
    and m: "meets E (h E C (Args cmd) s) (sp E (Args cmd) (view s)) (view s)"
    using handler_meets [OF sp assms(3,4,5) persistent_fresh [OF assms(6)] assms(7)] by blast
  have "\<And>k v x. view s k = Some (v, x) \<Longrightarrow> x = None" using persistent_view [OF assms(6)] by auto
  then have E: "sp E (Args cmd) (view s) = sp env0 (Args cmd) (view s)" by (rule spec_timeless [OF sp assms(1,2)])
  obtain s' r where r: "h E C (Args cmd) s = Ret (s', r)" "store_ok (fpu E) s'"
    "view s' = logged_step (view s) (Cname cmd # Args cmd)"
    using m unfolding meets_def E logged_step_def list.sel sp option.case
    by (cases "sp env0 (Args cmd) (view s)") auto
  moreover have "persistent s'" by (rule persistent_handler [OF h assms(2,6) r(1)])
  moreover have "isErrorReply r \<longrightarrow> view s' = view s"
    using writer_effect [OF h assms(1,3,4,7), of C] r(1) by (simp add: effect_def)
  ultimately show ?thesis using h by blast
qed

lemma replay_one:
  assumes "args \<noteq> []" "hd args \<in> set writeCommands" "timeless \<lparr>Cname = hd args, Args = tl args\<rparr>"
    "appendable args (view (db s))" "store_ok (fpu E) (db s)" "env_ok E" "persistent (db s)"
  shows "\<exists>s'. replayAOFCommand uni C E args s = Ret s' \<and> store_ok (fpu E) (db s') \<and> persistent (db s') \<and>
    view (db s') = logged_step (view (db s)) args \<and> aof s' = aof s"
proof -
  let ?c = "\<lparr>Cname = hd args, Args = tl args\<rparr>" and ?s = "db (tick E s)"
  have p: "persistent ?s" "store_ok (fpu E) ?s" "view ?s = view (db s)"
    using assms(5,7) persistent_tick [of "db s"] by (simp_all add: tick_def store_ok_def)
  have "Cname ?c = ''APPEND'' \<longrightarrow> append_safe (Args ?c) ?s"
    using assms(4) append_safe_view [OF p(1,2), of "tl args"] p(3) by (simp add: appendable_def)
  from write_runs [OF _ assms(3) p(2) assms(6) _ p(1) this, of C] assms(2) obtain h s' r where
    "commands (hd args) = Some h" "h E C (tl args) ?s = Ret (s', r)" "store_ok (fpu E) s'" "persistent s'"
    "view s' = logged_step (view (db s)) args" using p(3) assms(1) by auto
  then show ?thesis using assms(1) write_upper [OF assms(2)]
    by (simp add: replayAOFCommand_def Replay_def hd_conv_nth [symmetric] drop_Suc)
qed

lemma replay_all_ok:
  assumes "\<And>i. env_ok (E i) \<and> fpu (E i) = f"
  shows "replayable argss (view (db s)) \<Longrightarrow> store_ok f (db s) \<Longrightarrow> persistent (db s) \<Longrightarrow>
    \<exists>s'. replay_all uni C E i argss s = Ret s' \<and> persistent (db s') \<and> view (db s') = foldl logged_step (view (db s)) argss \<and>
      aof s' = aof s"
proof (induction argss arbitrary: i s)
  case (Cons args argss)
  have E: "env_ok (E i)" "fpu (E i) = f" using assms by simp_all
  from Cons.prems obtain s1 where s1: "replayAOFCommand uni C (E i) args s = Ret s1" "store_ok f (db s1)" "persistent (db s1)"
    "view (db s1) = logged_step (view (db s)) args" "aof s1 = aof s"
    using replay_one [of args s "E i" uni C] E by auto
  moreover obtain s2 where "replay_all uni C E (Suc i) argss s1 = Ret s2" "persistent (db s2)"
    "view (db s2) = foldl logged_step (view (db s1)) argss" "aof s2 = aof s1"
    using Cons.IH [of s1 "Suc i"] Cons.prems(1) s1(2-4) by auto
  ultimately show ?case by simp
qed simp

subsection \<open>The log of a run\<close>

definition logs :: "string list list \<Rightarrow> state \<Rightarrow> bool" where
  "logs L s \<longleftrightarrow> aof s = Some \<lparr>contents = Aof.log L\<rparr> \<and> replayable L (\<lambda>_. None) \<and>
     view (db s) = foldl logged_step (\<lambda>_. None) L \<and> persistent (db s)"

lemma Dispatch_no_limit:
  assumes "MaxMemory C \<le> 0"
  shows "Dispatch C E cmd s =
    (case commands (Cname cmd) of
       None \<Rightarrow> Ret (tick E s, unknown_command (Cname cmd))
     | Some h \<Rightarrow>
         (case checkCluster C cmd of
            Some e \<Rightarrow> Ret (tick E s, e)
          | None \<Rightarrow> obind (h E C (Args cmd) (db (tick E s))) (\<lambda>(s2, r). Ret (log_command E cmd r ((tick E s)\<lparr>db := s2\<rparr>), r))))"
  using no_limit_room [OF assms] by (simp add: Dispatch_def Let_def split: option.splits)

lemma logs_tick: "logs L s \<Longrightarrow> logs L (tick E s)"
  by (simp add: logs_def tick_def persistent_tick)

lemma logs_dispatch:
  assumes "logs L s" "store_ok (fpu E) (db s)" "env_ok E" "ctx_ok C" "MaxMemory C \<le> 0" "timeless cmd"
    "args_ok (Cname cmd # Args cmd)" "length (EncodeArray (Cname cmd # Args cmd)) \<le> accepts E"
    "Dispatch C E cmd s = Ret (s', r)"
  shows "\<exists>L'. logs (L @ L') s' \<and> length L' \<le> 1 \<and> store_ok (fpu E) (db s')"
proof (cases "commands (Cname cmd) = None \<or> checkCluster C cmd \<noteq> None")
  case True
  then have "s' = tick E s" using assms(9) by (auto simp: Dispatch_no_limit [OF assms(5)] split: option.splits)
  then show ?thesis using logs_tick [OF assms(1), of E] assms(2) by (intro exI [of _ "[]"]) simp
next
  case False
  then obtain h where h: "commands (Cname cmd) = Some h" "checkCluster C cmd = None" by auto
  let ?s = "db (tick E s)"
  obtain s2 where s2: "h E C (Args cmd) ?s = Ret (s2, r)" "s' = log_command E cmd r ((tick E s)\<lparr>db := s2\<rparr>)"
    using assms(9) h by (auto simp: Dispatch_no_limit [OF assms(5)])
  note t = logs_tick [OF assms(1), of E]
  have p: "persistent ?s" "store_ok (fpu E) ?s" using t assms(2) by (simp_all add: logs_def)
  show ?thesis
  proof (cases "Cname cmd \<in> set writeCommands")
    case False
    then have "store_ok (fpu E) s2" "view s2 = view ?s" "persistent s2" "s' = (tick E s)\<lparr>db := s2\<rparr>"
      using reader_effect [OF h(1) False p(2) assms(4), of "Args cmd"] s2 persistent_handler [OF h(1) assms(6) p(1) s2(1)]
      by (auto simp: effect_def log_command_def split: option.splits)
    then show ?thesis using t by (intro exI [of _ "[]"]) (simp add: logs_def)
  next
    case True
    have safe: "Cname cmd = ''APPEND'' \<longrightarrow> append_safe (Args cmd) ?s"
      using append_ret_safe [OF p(2)] h(1) s2(1) by (auto simp: handler_of)
    from write_runs [OF True assms(6) p(2) assms(3) _ p(1) safe, of C] h(1) s2(1) have r: "store_ok (fpu E) s2" "persistent s2"
      "view s2 = logged_step (view ?s) (Cname cmd # Args cmd)" "isErrorReply r \<longrightarrow> view s2 = view ?s" by auto
    show ?thesis
    proof (cases "isErrorReply r")
      case e: True
      then have "s' = (tick E s)\<lparr>db := s2\<rparr>" using s2(2) by (simp add: log_command_def split: option.splits)
      then show ?thesis using t r e by (intro exI [of _ "[]"]) (simp add: logs_def)
    next
      case False
      have a: "aof (tick E s) = Some \<lparr>contents = Aof.log L\<rparr>" using t by (simp add: logs_def)
      have "s' = (tick E s)\<lparr>db := s2, aof := Some \<lparr>contents = Aof.log (L @ [Cname cmd # Args cmd])\<rparr>\<rparr>"
        using s2(2) a True False assms(8) by (simp add: log_command_def AOF_Write_def Aof.log_def)
      moreover have "appendable (Cname cmd # Args cmd) (view ?s)"
        using safe append_safe_view [OF p] by (simp add: appendable_def)
      moreover have "timeless \<lparr>Cname = Cname cmd, Args = Args cmd\<rparr>" using assms(6) by (simp add: timeless_def)
      ultimately show ?thesis using t r True assms(7)
        by (intro exI [of _ "[Cname cmd # Args cmd]"]) (simp add: logs_def replayable_append)
    qed
  qed
qed

lemma logs_dispatch_all:
  assumes "\<And>i. env_ok (E i) \<and> fpu (E i) = f" "ctx_ok C" "MaxMemory C \<le> 0"
  shows "dispatch_all C E i cmds s = Ret (s', rs) \<Longrightarrow> logs L s \<Longrightarrow> store_ok f (db s) \<Longrightarrow> list_all timeless cmds \<Longrightarrow>
    list_all (\<lambda>c. args_ok (Cname c # Args c) \<and> (\<forall>i. length (EncodeArray (Cname c # Args c)) \<le> accepts (E i))) cmds \<Longrightarrow>
    \<exists>L'. logs L' s'"
proof (induction cmds arbitrary: i s L rs)
  case (Cons c cmds)
  from Cons.prems(1) obtain s1 r rs' where r: "Dispatch C (E i) c s = Ret (s1, r)" "dispatch_all C E (Suc i) cmds s1 = Ret (s', rs')"
    by auto
  have E: "env_ok (E i)" "fpu (E i) = f" using assms(1) by simp_all
  obtain L1 where "logs (L @ L1) s1" "store_ok f (db s1)"
    using logs_dispatch [OF Cons.prems(2) _ E(1) assms(2,3) _ _ _ r(1)] Cons.prems(3-5) E(2) by auto
  then show ?case using Cons.IH [OF r(2)] Cons.prems(4,5) by simp
qed auto



end
