(* ===== verification/Startup.thy ===== *)
theory Startup
  imports Restart
begin

text \<open>
  Start-up: the settings of \<^verbatim>\<open>config/config.go\<close>, the part of \<^verbatim>\<open>main.go\<close> that loads the cluster layout and
  configures the store, and the opening of the append-only file at the head of \<^verbatim>\<open>server.Run\<close>.
  The theorem of the theory says that whatever files a server starts from, the context and the
  store it hands to its workers satisfy the hypotheses of the properties of dispatch.
\<close>

text \<open>The settings of \<^verbatim>\<open>config/config.go\<close> and their defaults in \<^verbatim>\<open>setUpFlags\<close>.\<close>

record config =
  cfg_Host :: string
  cfg_Port :: int
  cfg_AppendOnly :: bool
  cfg_AppendOnlyFile :: string
  cfg_MaxMemory :: int
  cfg_MaxMemoryPolicy :: string
  cfg_MaxMemorySamples :: int
  cfg_LFULogFactor :: int
  cfg_LFUDecayTime :: int
  cfg_ClusterEnabled :: bool
  cfg_ClusterConfigFile :: string

definition flag_defaults :: config where
  "flag_defaults =
     \<lparr>cfg_Host = ''0.0.0.0'', cfg_Port = 7379, cfg_AppendOnly = False, cfg_AppendOnlyFile = [], cfg_MaxMemory = 0,
      cfg_MaxMemoryPolicy = ''noeviction'', cfg_MaxMemorySamples = 5, cfg_LFULogFactor = 10, cfg_LFUDecayTime = 1,
      cfg_ClusterEnabled = False, cfg_ClusterConfigFile = []\<rparr>"

datatype boot_err = NeedsConfigFile | BadLayout lerr | LogFailed string

text \<open>
  What the machine gives a process that starts: the content of a file opened for reading,
  with a flag for an error while reading it; the content of a file opened for appending,
  which is created empty if need be; \<open>None\<close> if opening fails; and functions of the library.
\<close>

record machine =
  open_file :: "string \<Rightarrow> (string \<times> bool) option"
  append_file :: "string \<Rightarrow> string option"
  uniFields :: "string \<Rightarrow> string list"
  upper :: "string \<Rightarrow> string"
  sorting :: "(SlotRange \<times> nat) list \<Rightarrow> (SlotRange \<times> nat) list"

definition ctx_of :: "machine \<Rightarrow> config \<Rightarrow> Layout option \<Rightarrow> ctx" where
  "ctx_of M cfg l =
     \<lparr>MaxMemory = cfg_MaxMemory cfg, MaxMemoryPolicy = cfg_MaxMemoryPolicy cfg, MaxMemorySamples = cfg_MaxMemorySamples cfg,
      ClusterEnabled = cfg_ClusterEnabled cfg, Current = l, sort_Entries = sorting M\<rparr>"

text \<open>The body of \<^verbatim>\<open>main\<close> up to the call of \<^verbatim>\<open>Run\<close>, then the start of \<^verbatim>\<open>Run\<close>, on a store created at \<open>t\<close>.\<close>

definition load_cluster :: "machine \<Rightarrow> config \<Rightarrow> boot_err + Layout option" where
  "load_cluster M cfg =
     (if \<not> cfg_ClusterEnabled cfg then Inr None
      else if cfg_ClusterConfigFile cfg = [] then Inl NeedsConfigFile
      else case LoadLayout (uniFields M) (open_file M (cfg_ClusterConfigFile cfg)) (cfg_Port cfg) of
        Inl e \<Rightarrow> Inl (BadLayout e)
      | Inr l \<Rightarrow> Inr (Some l))"

definition boot :: "machine \<Rightarrow> config \<Rightarrow> (nat \<Rightarrow> env) \<Rightarrow> bool \<Rightarrow> int \<Rightarrow> (boot_err + ctx \<times> state) outcome" where
  "boot M cfg E seek_ok t =
     (case load_cluster M cfg of
        Inl e \<Rightarrow> Ret (Inl e)
      | Inr l \<Rightarrow>
          let C = ctx_of M cfg l;
              s1 = SetPolicy (cfg_MaxMemoryPolicy cfg) (store_New t);
              s2 = s1\<lparr>lfu := SetLFUParams (cfg_LFULogFactor cfg) (cfg_LFUDecayTime cfg) (lfu s1)\<rparr>
          in obind (open_log (upper M) C E (cfg_AppendOnly cfg) (append_file M (cfg_AppendOnlyFile cfg)) seek_ok
                      \<lparr>db = s2, aof = None\<rparr>) (\<lambda>r.
               Ret (case r of Inl e \<Rightarrow> Inl (LogFailed e) | Inr st \<Rightarrow> Inr (C, st))))"

lemma boot_result:
  assumes "boot M cfg E seek_ok t = Ret (Inr (C, s))"
  obtains l s2 where "load_cluster M cfg = Inr l" "C = ctx_of M cfg l"
    "s2 = (store_New t)\<lparr>policy := cfg_MaxMemoryPolicy cfg, lfu := SetLFUParams (cfg_LFULogFactor cfg) (cfg_LFUDecayTime cfg) lfuDefaults\<rparr>"
    "open_log (upper M) C E (cfg_AppendOnly cfg) (append_file M (cfg_AppendOnlyFile cfg)) seek_ok \<lparr>db = s2, aof = None\<rparr> = Ret (Inr s)"
proof -
  obtain l where l: "load_cluster M cfg = Inr l" using assms by (cases "load_cluster M cfg") (simp_all add: boot_def)
  let ?s = "(store_New t)\<lparr>policy := cfg_MaxMemoryPolicy cfg, lfu := SetLFUParams (cfg_LFULogFactor cfg) (cfg_LFUDecayTime cfg) lfuDefaults\<rparr>"
  obtain r where r: "open_log (upper M) (ctx_of M cfg l) E (cfg_AppendOnly cfg) (append_file M (cfg_AppendOnlyFile cfg)) seek_ok
      \<lparr>db = ?s, aof = None\<rparr> = Ret r" "Inr (C, s) = (case r of Inl e \<Rightarrow> Inl (LogFailed e) | Inr st \<Rightarrow> Inr (ctx_of M cfg l, st))"
    using assms l by (auto simp: boot_def Let_def SetPolicy_def store_New_def)
  then show thesis using that [OF l _ refl] by (cases r) auto
qed

lemma Replay_ok:
  assumes "store_ok (fpu E) (db s)" "env_ok E" "ctx_ok C" "Replay C E cmd s = Ret s'"
  shows "store_ok (fpu E) (db s')"
proof (cases "commands (Cname cmd)")
  case None
  then show ?thesis using assms(1,4) by (auto simp: Replay_def)
next
  case (Some h)
  let ?s = "db (tick E s)"
  obtain q where q: "h E C (Args cmd) ?s = Ret q" "s' = (tick E s)\<lparr>db := fst q\<rparr>"
    using assms(4) Some by (auto simp: Replay_def Let_def)
  have ok: "store_ok (fpu E) ?s" using assms(1) by simp
  have "Cname cmd = ''APPEND'' \<longrightarrow> append_safe (Args cmd) ?s"
    using append_ret_safe [OF ok] Some q(1) by (cases q) (auto simp: handler_of)
  from command_effect [OF Some ok assms(2,3) this] q show ?thesis by (auto simp: effect_def)
qed

lemma replay_all_store_ok:
  assumes "\<And>i. env_ok (E i) \<and> fpu (E i) = f" "ctx_ok C"
  shows "replay_all uni C E i argss s = Ret s' \<Longrightarrow> store_ok f (db s) \<Longrightarrow> store_ok f (db s')"
proof (induction argss arbitrary: i s)
  case (Cons args argss)
  then obtain s1 where s1: "replayAOFCommand uni C (E i) args s = Ret s1" "replay_all uni C E (Suc i) argss s1 = Ret s'" by auto
  have "store_ok f (db s1)"
    using s1(1) Cons.prems(2) Replay_ok [of "E i" s C _ s1] assms by (auto simp: replayAOFCommand_def split: if_splits)
  then show ?case using Cons.IH [OF s1(2)] by simp
qed simp

lemma open_log_result:
  assumes "open_log uni C E appendOnly existing seek_ok st = Ret (Inr s)"
  shows "s = st \<and> \<not> appendOnly \<or> appendOnly \<and> (\<exists>argss a st1. replay_all uni C E 0 argss st = Ret st1 \<and> s = SetAOF (Some a) st1)"
proof (cases appendOnly)
  case True
  obtain a where a: "NewAOF existing = Inr a" using assms True by (cases "NewAOF existing") (simp_all add: open_log_def)
  then obtain r where r: "NewAOF existing = Inr a" "AOF_Recover seek_ok a = Ret r"
    using assms True by (cases "AOF_Recover seek_ok a") (simp_all add: open_log_def)
  then show ?thesis using assms True by (cases r) (auto simp: open_log_def)
qed (use assms in \<open>simp add: open_log_def\<close>)

text \<open>
  C12: a server that starts is fit to run. Whatever the files hold, if \<^verbatim>\<open>main\<close> gets past loading
  the layout and replaying the log, the settings and the store satisfy what the properties
  of dispatch ask for, and a cluster node knows its place in the layout.
\<close>

theorem boot_is_sound:
  assumes "boot M cfg E seek_ok t = Ret (Inr (C, s))" "\<And>i. env_ok (E i) \<and> fpu (E i) = f"
    "cfg_MaxMemorySamples cfg \<le> 2 ^ 44" "cfg_LFUDecayTime cfg < 2 ^ 32" "\<And>es. mset (sorting M es) = mset es"
  shows "ctx_ok C \<and> store_ok f (db s) \<and> (ClusterEnabled C \<longleftrightarrow> Current C \<noteq> None) \<and> (aof s \<noteq> None \<longleftrightarrow> cfg_AppendOnly cfg)"
proof -
  obtain l s2 where l: "load_cluster M cfg = Inr l" "C = ctx_of M cfg l"
    and s2: "s2 = (store_New t)\<lparr>policy := cfg_MaxMemoryPolicy cfg, lfu := SetLFUParams (cfg_LFULogFactor cfg) (cfg_LFUDecayTime cfg) lfuDefaults\<rparr>"
    and log: "open_log (upper M) C E (cfg_AppendOnly cfg) (append_file M (cfg_AppendOnlyFile cfg)) seek_ok \<lparr>db = s2, aof = None\<rparr> = Ret (Inr s)"
    by (rule boot_result [OF assms(1)])
  have layout: "if cfg_ClusterEnabled cfg then \<exists>l1. l = Some l1 \<and> layout_ok (cfg_Port cfg) l1 \<and> Self l1 \<noteq> None else l = None"
    using l(1) by (auto simp: load_cluster_def dest!: LoadLayout_ok split: if_splits sum.splits)
  then have ctx: "ctx_ok C" using assms(3,5) by (auto simp: l(2) ctx_of_def ctx_ok_def split: if_splits)
  have "store_ok f s2" using decay_param [OF assms(4)]
    by (simp add: s2 store_ok_def store_New_def lfuDefaults_def)
  then have "store_ok f (db s) \<and> (aof s \<noteq> None \<longleftrightarrow> cfg_AppendOnly cfg)"
    using open_log_result [OF log] replay_all_store_ok [where E = E, OF assms(2) ctx] by (auto simp: SetAOF_def)
  moreover have "ClusterEnabled C \<longleftrightarrow> Current C \<noteq> None" using layout by (auto simp: l(2) ctx_of_def split: if_splits)
  ultimately show ?thesis using ctx by blast
qed

definition machine0 :: machine where
  "machine0 = \<lparr>open_file = (\<lambda>_. Some (''a h:7 0-1'', False)), append_file = (\<lambda>_. Some []), uniFields = (\<lambda>_. []),
     upper = (\<lambda>s. s), sorting = (\<lambda>es. es)\<rparr>"

theorem boot_is_sound_witness:
  "\<exists>C s. boot machine0 (flag_defaults\<lparr>cfg_Port := 7, cfg_AppendOnly := True, cfg_ClusterEnabled := True, cfg_ClusterConfigFile := ''c''\<rparr>)
      (\<lambda>_. env0) True 0 = Ret (Inr (C, s)) \<and> ctx_ok C \<and> store_ok (fpu env0) (db s) \<and> Current C \<noteq> None \<and> aof s \<noteq> None"
proof -
  let ?cfg = "flag_defaults\<lparr>cfg_Port := 7, cfg_AppendOnly := True, cfg_ClusterEnabled := True, cfg_ClusterConfigFile := ''c''\<rparr>"
  obtain l where "ParseLayout (\<lambda>_. []) ''a h:7 0-1'' False 7 = Inr l" using small_file_loads by blast
  then have "load_cluster machine0 ?cfg = Inr (Some l)" by (simp add: load_cluster_def machine0_def LoadLayout_def flag_defaults_def)
  moreover have "AOF_Recover True \<lparr>contents = []\<rparr> = Ret (Inr [])" by (simp add: AOF_Recover_def replay_fail)
  ultimately obtain C s where b: "boot machine0 ?cfg (\<lambda>_. env0) True 0 = Ret (Inr (C, s))"
    by (simp add: boot_def Let_def open_log_def NewAOF_def machine0_def flag_defaults_def)
  have "ClusterEnabled C" by (rule boot_result [OF b]) (simp add: ctx_of_def)
  moreover have "cfg_AppendOnly ?cfg" by simp
  ultimately show ?thesis using boot_is_sound [OF b, of "fpu env0"] b by (auto simp: machine0_def flag_defaults_def)
qed

end
