(* ===== verification/Durability.thy ===== *)
theory Durability
  imports Lifecycle Startup
begin

text \<open>
  The log across a crash: \<^verbatim>\<open>Sync\<close> of \<^verbatim>\<open>core/aof.go\<close>, what a crash leaves of the file, and the composition of
  the running process, the log and the start of the next server. The theorems say what data
  that server has.
\<close>

lemma empty_store [simp]: "view (store_New t) = (\<lambda>_. None)" "persistent (store_New t)"
  by (auto simp: store_New_def view_def persistent_def)

subsection \<open>The file on disk\<close>

text \<open>
  The log as a file: \<open>durable\<close> bytes of it are on disk for sure. \<^verbatim>\<open>Sync\<close> makes that all of
  them, if the operating system does not fail. A crash of the machine leaves those and some
  of the bytes written since.
\<close>

record disk =
  log_file :: AOF
  durable :: nat

definition AOF_Sync :: "bool \<Rightarrow> disk \<Rightarrow> bool \<times> disk" where
  "AOF_Sync fails d = (fails, if fails then d else d\<lparr>durable := length (contents (log_file d))\<rparr>)"

definition after_crash :: "nat \<Rightarrow> disk \<Rightarrow> string" where
  "after_crash n d = take (durable d + n) (contents (log_file d))"

lemma synced_survives: "AOF_Sync False d = (e, d') \<Longrightarrow> after_crash n d' = contents (log_file d)"
  by (auto simp: AOF_Sync_def after_crash_def)

subsection \<open>The commands behind the requests\<close>

text \<open>The commands a request carries out, and commands run one after the other, each in its own environment.\<close>

definition carried_out :: "ctx \<Rightarrow> CommandRequest \<Rightarrow> Command list" where
  "carried_out C req =
     (if req_batch req \<noteq> [] then (if checkClusterBatch C (req_batch req) = None then req_batch req else [])
      else if req_pipeline req \<noteq> [] then req_pipeline req else [req_cmd req])"

fun run_commands :: "ctx \<Rightarrow> (env \<times> Command) list \<Rightarrow> state \<Rightarrow> state outcome" where
  "run_commands C [] s = Ret s"
| "run_commands C ((E, cmd) # es) s = obind (Dispatch C E cmd s) (\<lambda>(s1, r). run_commands C es s1)"

lemma run_commands_append: "run_commands C (xs @ ys) s = obind (run_commands C xs s) (run_commands C ys)"
  by (induction xs arbitrary: s) (auto simp: obind_assoc case_prod_beta' intro!: obind_cong)

lemma dispatch_all_commands:
  "dispatch_all C E i cmds s = Ret (s', rs) \<Longrightarrow> run_commands C (zip (map E [i..<i + length cmds]) cmds) s = Ret s'"
proof (induction cmds arbitrary: i s rs)
  case (Cons c cmds)
  then obtain s1 r rs' where "Dispatch C (E i) c s = Ret (s1, r)" "dispatch_all C E (Suc i) cmds s1 = Ret (s', rs')" by auto
  then show ?case using Cons.IH [of "Suc i" s1 rs'] by (simp add: upt_conv_Cons del: upt_Suc)
qed simp

lemma run_request_commands:
  assumes "run_request C E req w = Ret (w', r)"
  shows "\<exists>es. run_commands C es (st w) = Ret (st w') \<and> map snd es = carried_out C req \<and> fst ` set es \<subseteq> range E"
proof -
  have all: "\<exists>es. run_commands C es s = Ret s' \<and> map snd es = cmds \<and> fst ` set es \<subseteq> range E"
    if "dispatch_all C E i cmds s = Ret (s', rs)" for i cmds s s' rs
    using dispatch_all_commands [OF that]
    by (intro exI [of _ "zip (map E [i..<i + length cmds]) cmds"]) (auto simp: set_zip)
  consider "req_batch req \<noteq> []" | "req_batch req = []" "req_pipeline req \<noteq> []" | "req_batch req = []" "req_pipeline req = []" by blast
  then show ?thesis
  proof cases
    case 1
    then show ?thesis using assms all
      by (cases "checkClusterBatch C (req_batch req)") (auto simp: run_request_def DispatchBatch_def carried_out_def)
  next
    case 2
    then show ?thesis using assms all by (auto simp: run_request_def DispatchPipeline_def carried_out_def)
  next
    case 3
    then show ?thesis using assms
      by (auto simp: run_request_def carried_out_def intro!: exI [of _ "[(E (turn w), req_cmd req)]"])
  qed
qed

lemma dispatchWorker_commands:
  "dispatchWorker C E reqs w = Ret (w', rs) \<Longrightarrow>
   \<exists>es. run_commands C es (st w) = Ret (st w') \<and> map snd es = concat (map (carried_out C) reqs) \<and> fst ` set es \<subseteq> range E"
proof (induction reqs arbitrary: w rs)
  case (Cons req reqs)
  then obtain w1 r rs' where w1: "run_request C E req w = Ret (w1, r)" "dispatchWorker C E reqs w1 = Ret (w', rs')" by auto
  obtain es where es: "run_commands C es (st w) = Ret (st w1)" "map snd es = carried_out C req" "fst ` set es \<subseteq> range E"
    using run_request_commands [OF w1(1)] by blast
  obtain fs where "run_commands C fs (st w1) = Ret (st w')" "map snd fs = concat (map (carried_out C) reqs)" "fst ` set fs \<subseteq> range E"
    using Cons.IH [OF w1(2)] by blast
  then show ?case using es by (intro exI [of _ "es @ fs"]) (auto simp: run_commands_append)
qed (auto intro!: exI [of _ "[]"])

subsection \<open>The log of a run, and of its beginnings\<close>

definition recordable :: "(nat \<Rightarrow> env) \<Rightarrow> Command \<Rightarrow> bool" where
  "recordable E c \<longleftrightarrow> timeless c \<and> args_ok (Cname c # Args c) \<and> (\<forall>i. length (EncodeArray (Cname c # Args c)) \<le> accepts (E i))"

lemma logs_view: "logs L s \<Longrightarrow> logs (L @ L') s' \<Longrightarrow> view (db s') = foldl logged_step (view (db s)) L'"
  by (simp add: logs_def)

lemma logs_run:
  assumes "\<And>i. env_ok (E i) \<and> fpu (E i) = f" "ctx_ok C" "MaxMemory C \<le> 0"
  shows "run_commands C es s = Ret s' \<Longrightarrow> logs L s \<Longrightarrow> store_ok f (db s) \<Longrightarrow> list_all (recordable E) (map snd es) \<Longrightarrow>
    fst ` set es \<subseteq> range E \<Longrightarrow>
    \<exists>L'. logs (L @ L') s' \<and> store_ok f (db s') \<and>
      (\<forall>k. \<exists>j sj. run_commands C (take j es) s = Ret sj \<and> view (db sj) = foldl logged_step (view (db s)) (take k L'))"
proof (induction es arbitrary: s L)
  case Nil
  then show ?case by (intro exI [of _ "[]"]) auto
next
  case (Cons e es)
  obtain F c where e: "e = (F, c)" by (cases e)
  obtain i where F: "F = E i" using Cons.prems(5) e by auto
  obtain s1 r where s1: "Dispatch C F c s = Ret (s1, r)" "run_commands C es s1 = Ret s'" using Cons.prems(1) e by auto
  have rec: "recordable E c" using Cons.prems(4) e by simp
  obtain L1 where L1: "logs (L @ L1) s1" "length L1 \<le> 1" "store_ok f (db s1)"
    using logs_dispatch [OF Cons.prems(2) _ _ assms(2,3) _ _ _ s1(1)] rec assms(1) [of i] Cons.prems(3) F
    by (auto simp: recordable_def)
  obtain L2 where L2: "logs ((L @ L1) @ L2) s'" "store_ok f (db s')"
    "\<And>k. \<exists>j sj. run_commands C (take j es) s1 = Ret sj \<and> view (db sj) = foldl logged_step (view (db s1)) (take k L2)"
    using Cons.IH [OF s1(2) L1(1,3)] Cons.prems(4,5) by auto
  have "\<exists>j sj. run_commands C (take j (e # es)) s = Ret sj \<and> view (db sj) = foldl logged_step (view (db s)) (take k (L1 @ L2))" for k
  proof (cases "k = 0")
    case False
    then have "take k (L1 @ L2) = L1 @ take (k - length L1) L2" using L1(2) by simp
    moreover obtain j sj where "run_commands C (take j es) s1 = Ret sj"
      "view (db sj) = foldl logged_step (view (db s1)) (take (k - length L1) L2)" using L2(3) by blast
    ultimately show ?thesis using e s1(1) logs_view [OF Cons.prems(2) L1(1)] by (intro exI [of _ "Suc j"] exI [of _ sj]) simp
  qed (use Cons.prems(2) in \<open>auto intro!: exI [of _ 0]\<close>)
  then show ?case using L2(1,2) by (intro exI [of _ "L1 @ L2"]) simp
qed

lemma replay_cut_log:
  assumes "list_all args_ok L"
  obtains k where "k \<le> length L" "replay_calls (take n (Aof.log L)) = Ret (take k L)"
    "\<And>m. m \<le> length L \<Longrightarrow> length (Aof.log (take m L)) \<le> n \<Longrightarrow> m \<le> k"
proof -
  obtain k t where k: "k \<le> length L" "take n (Aof.log L) = Aof.log (take k L) @ t"
    "t = [] \<and> k = length L \<or> k < length L \<and> strict_prefix t (EncodeArray (L ! k))"
    using log_prefix_cases [of "take n (Aof.log L)" L] take_is_prefix by blast
  have "replay_calls t = Ret []"
    using k(3) assms by (auto simp: list_all_length replay_fail [OF Decode_Nil] intro: replay_torn_command)
  moreover have "list_all args_ok (take k L)" using assms by (simp add: list_all_length)
  ultimately have "replay_calls (take n (Aof.log L)) = Ret (take k L)" by (simp add: k(2) replay_log)
  moreover have "m \<le> k" if "m \<le> length L" "length (Aof.log (take m L)) \<le> n" for m
  proof (rule ccontr)
    assume m: "\<not> m \<le> k"
    then have less: "k < length L" "length t < length (EncodeArray (L ! k))" using k(3) that(1) by (auto dest: prefix_length_less)
    have "take m L = take k L @ L ! k # take (m - Suc k) (drop (Suc k) L)"
      using m less(1) by (metis Suc_diff_Suc id_take_nth_drop le_add_diff_inverse nat_le_linear not_le take_Suc_Cons take_add Cons_nth_drop_Suc)
    then have "length (Aof.log (take k L)) + length (EncodeArray (L ! k)) \<le> length (Aof.log (take m L))" by simp
    moreover have "length (Aof.log (take m L)) \<le> length (Aof.log L)" by (metis append_take_drop_id le_add1 length_append log_simps(3))
    moreover have "length (take n (Aof.log L)) = length (Aof.log (take k L)) + length t" using k(2) by simp
    ultimately show False using less(2) that(2) by simp
  qed
  ultimately show thesis using that k(1) by blast
qed

lemma restart_from_cut:
  assumes "logs L s" "\<And>i. env_ok (E i) \<and> fpu (E i) = f" "aof s = Some a"
  shows "\<exists>k s2. open_log uni C E True (Some (take n (contents a))) True \<lparr>db = store_New t, aof = None\<rparr> = Ret (Inr s2) \<and>
    view (db s2) = foldl logged_step (\<lambda>_. None) (take k L) \<and> k \<le> length L \<and>
    (\<forall>m \<le> length L. length (Aof.log (take m L)) \<le> n \<longrightarrow> m \<le> k)"
proof -
  have L: "replayable L (\<lambda>_. None)" "contents a = Aof.log L" using assms(1,3) by (auto simp: logs_def)
  obtain k where k: "k \<le> length L" "replay_calls (take n (contents a)) = Ret (take k L)"
    "\<And>m. m \<le> length L \<Longrightarrow> length (Aof.log (take m L)) \<le> n \<Longrightarrow> m \<le> k"
    unfolding L(2) by (rule replay_cut_log [OF replayable_args_ok [OF L(1)]]) blast
  have "replayable (take k L) (\<lambda>_. None)" using L(1) replayable_append [of "take k L" "drop k L"] by simp
  then obtain s2 where "replay_all uni C E 0 (take k L) \<lparr>db = store_New t, aof = None\<rparr> = Ret s2"
    "view (db s2) = foldl logged_step (\<lambda>_. None) (take k L)"
    using replay_all_ok [where E = E and f = f and s = "\<lparr>db = store_New t, aof = None\<rparr>" and i = 0, OF assms(2)]
    by (force simp: empty_store)
  then show ?thesis using k by (auto simp: open_log_def NewAOF_def AOF_Recover_def SetAOF_def)
qed

lemma open_log_aof:
  assumes "open_log uni C E True (Some b) seek_ok s0 = Ret (Inr s)"
  shows "aof s = Some \<lparr>contents = b\<rparr>"
proof -
  obtain r where r: "AOF_Recover seek_ok \<lparr>contents = b\<rparr> = Ret r"
    using assms by (cases "AOF_Recover seek_ok \<lparr>contents = b\<rparr>") (simp_all add: open_log_def NewAOF_def)
  then show ?thesis using assms by (cases r) (auto simp: open_log_def NewAOF_def SetAOF_def)
qed

text \<open>An empty server with its log on, and the log of what its worker has run.\<close>

definition fresh_worker :: "int \<Rightarrow> worker" where
  "fresh_worker t = \<lparr>turn = 0, st = \<lparr>db = store_New t, aof = Some \<lparr>contents = []\<rparr>\<rparr>\<rparr>"

definition requests :: "process \<Rightarrow> CommandRequest list" where
  "requests s = map (\<lambda>(i, req, r). req) (history s)"

lemma fresh_logs: "logs [] (st (fresh_worker t))" "store_ok f (db (st (fresh_worker t)))" "view (db (st (fresh_worker t))) = (\<lambda>_. None)"
  by (simp_all add: logs_def fresh_worker_def)

lemma process_commands:
  assumes "process_runs C E (fresh_worker t) s"
  obtains es where "run_commands C es (st (fresh_worker t)) = Ret (st (wrk s))"
    "map snd es = concat (map (carried_out C) (requests s))" "fst ` set es \<subseteq> range E"
proof -
  have "dispatchWorker C E (requests s) (fresh_worker t) = Ret (wrk s, map (\<lambda>(i, req, r). r) (history s))"
    using process_sound [OF assms(1)] by (simp add: sound_def served_all_def requests_def)
  then show thesis using dispatchWorker_commands that by blast
qed

lemma process_log:
  assumes "process_runs C E (fresh_worker t) s" "\<And>i. env_ok (E i) \<and> fpu (E i) = f" "ctx_ok C" "MaxMemory C \<le> 0"
    "list_all (recordable E) (concat (map (carried_out C) (requests s)))"
  obtains L where "logs L (st (wrk s))"
proof -
  obtain es where es: "run_commands C es (st (fresh_worker t)) = Ret (st (wrk s))"
    "map snd es = concat (map (carried_out C) (requests s))" "fst ` set es \<subseteq> range E" by (rule process_commands [OF assms(1)])
  have "list_all (recordable E) (map snd es)" using assms(5) es(2) by simp
  from logs_run [where E = E and f = f, OF assms(2-4) es(1) fresh_logs(1,2) this es(3)] show thesis using that by auto
qed

text \<open>
  A beginning of a run that is on disk for sure, split off: the log consists of what it
  wrote and what the rest wrote, and every cut in the second part is the log of a longer
  beginning.
\<close>

lemma split_log:
  assumes "\<And>i. env_ok (E i) \<and> fpu (E i) = f" "ctx_ok C" "MaxMemory C \<le> 0" "run_commands C es (st (fresh_worker t)) = Ret s'"
    "list_all (recordable E) (map snd es)" "fst ` set es \<subseteq> range E" "run_commands C (take i es) (st (fresh_worker t)) = Ret si"
  obtains L L' where "logs L si" "logs (L @ L') s'"
    "\<forall>k \<ge> length L. \<exists>j \<ge> i. \<exists>sj. run_commands C (take j es) (st (fresh_worker t)) = Ret sj \<and>
       view (db sj) = foldl logged_step (\<lambda>_. None) (take k (L @ L'))"
proof -
  have front: "list_all (recordable E) (map snd (take i es))" "fst ` set (take i es) \<subseteq> range E"
    and rest: "list_all (recordable E) (map snd (drop i es))" "fst ` set (drop i es) \<subseteq> range E"
    using assms(5,6) set_take_subset [of i es] set_drop_subset [of i es] by (force simp: list_all_iff)+
  obtain L where L: "logs L si" "store_ok f (db si)"
    using logs_run [where E = E and f = f, OF assms(1-3,7) fresh_logs(1,2) front] by auto
  have "run_commands C (drop i es) si = Ret s'"
    using assms(4,7) run_commands_append [of C "take i es" "drop i es"] by simp
  from logs_run [where E = E and f = f, OF assms(1-3) this L rest]
  obtain L' where L': "logs (L @ L') s'"
    "\<And>k. \<exists>j sj. run_commands C (take j (drop i es)) si = Ret sj \<and> view (db sj) = foldl logged_step (view (db si)) (take k L')" by blast
  have "\<exists>j \<ge> i. \<exists>sj. run_commands C (take j es) (st (fresh_worker t)) = Ret sj \<and>
      view (db sj) = foldl logged_step (\<lambda>_. None) (take k (L @ L'))" if k: "length L \<le> k" for k
  proof -
    obtain j sj where j: "run_commands C (take j (drop i es)) si = Ret sj"
      "view (db sj) = foldl logged_step (view (db si)) (take (k - length L) L')" using L'(2) by blast
    have "run_commands C (take (i + j) es) (st (fresh_worker t)) = Ret sj"
      using assms(7) j(1) by (simp add: take_add run_commands_append)
    moreover have "view (db sj) = foldl logged_step (\<lambda>_. None) (take k (L @ L'))" using j(2) L(1) k by (simp add: logs_def)
    ultimately show ?thesis by (intro exI [of _ "i + j"] conjI exI [of _ sj]) simp_all
  qed
  then show thesis using that [OF L(1) L'(1)] by blast
qed

text \<open>A beginning of the run after which the log had been synced, whatever came later.\<close>

definition on_disk :: "ctx \<Rightarrow> (env \<times> Command) list \<Rightarrow> state \<Rightarrow> disk \<Rightarrow> nat \<Rightarrow> bool" where
  "on_disk C es s d i \<longleftrightarrow>
     i \<le> length es \<and> (\<exists>si a. run_commands C (take i es) s = Ret si \<and> aof si = Some a \<and> length (contents a) \<le> durable d)"



lemma set_run:
  obtains s where "process_runs ctx0 (\<lambda>_. env0) (fresh_worker 0) s" "main s = Returned"
    "requests s = [single \<lparr>Cname = ''SET'', Args = [''k'', ''v'']\<rparr>]"
    "list_all (recordable (\<lambda>_. env0)) (concat (map (carried_out ctx0) (requests s)))"
proof -
  let ?c = "\<lparr>Cname = ''SET'', Args = [''k'', ''v'']\<rparr>" and ?r = "EncodeSimpleString ''OK''"
  obtain w' where "run_request ctx0 (\<lambda>_. env0) (single ?c) (fresh_worker 0) = Ret (w', ?r)"
    using set_example by (simp add: run_request_def single_def fresh_worker_def start_def)
  moreover have "length ?r \<le> 4096" by (simp add: EncodeSimpleString_def)
  ultimately obtain s where s: "process_runs ctx0 (\<lambda>_. env0) (fresh_worker 0) s" "main s = Returned" "history s = [(1, single ?c, ?r)]"
    using ping_run by blast
  have "recordable (\<lambda>_. env0) ?c"
    by (simp add: recordable_def timeless_def args_ok_def bulk_ok_def EncodeArray_def EncodeBulkString_def FormatInt_def show_nat.simps env0_def)
  then show thesis using s by (intro that [of s]) (simp_all add: requests_def carried_out_def single_def)
qed



text \<open>
  The log has no record of where a transaction begins and ends: a file cut between the
  commands of one brings half of it back.
\<close>

lemma transaction_halved:
  fixes uni
  defines "c1 \<equiv> [''SET'', ''k'', ''v'']" and "c2 \<equiv> [''SET'', ''l'', ''v'']"
  shows "\<exists>s1 r s2. DispatchBatch ctx0 (\<lambda>_. env0) 0 [\<lparr>Cname = hd c1, Args = tl c1\<rparr>, \<lparr>Cname = hd c2, Args = tl c2\<rparr>] start = Ret (s1, r) \<and>
    aof s1 = Some \<lparr>contents = EncodeArray c1 @ EncodeArray c2\<rparr> \<and>
    open_log uni ctx0 (\<lambda>_. env0) True (Some (EncodeArray c1)) True \<lparr>db = store_New 0, aof = None\<rparr> = Ret (Inr s2) \<and>
    view (db s1) ''l'' \<noteq> None \<and> view (db s2) ''k'' \<noteq> None \<and> view (db s2) ''l'' = None"
proof -
  have route: "checkCluster ctx0 c = None" "checkClusterBatch ctx0 cs = None" for c cs
    by (simp_all add: checkCluster_def checkClusterBatch_def checkKeys_def)
  have enc: "length (EncodeArray c1) \<le> accepts env0" "length (EncodeArray c2) \<le> accepts env0"
    by (simp_all add: c1_def c2_def EncodeArray_def EncodeBulkString_def FormatInt_def show_nat.simps env0_def)
  have set: "Dispatch ctx0 env0 \<lparr>Cname = ''SET'', Args = [k, ''v'']\<rparr> s =
      Ret (log_command env0 \<lparr>Cname = ''SET'', Args = [k, ''v'']\<rparr> (EncodeSimpleString ''OK'')
        ((tick env0 s)\<lparr>db := Set k ''v'' 0 (db (tick env0 s))\<rparr>), EncodeSimpleString ''OK'')" for k s
    by (simp add: Dispatch_def commands_def no_limit_room handleSet_def Let_def route)
  let ?s = "tick env0 start" and ?r = "EncodeSimpleString ''OK''"
  define sa where "sa = ?s\<lparr>db := Set ''k'' ''v'' 0 (db ?s), aof := Some \<lparr>contents = EncodeArray c1\<rparr>\<rparr>"
  define sb where "sb = (tick env0 sa)\<lparr>db := Set ''l'' ''v'' 0 (db (tick env0 sa)), aof := Some \<lparr>contents = EncodeArray c1 @ EncodeArray c2\<rparr>\<rparr>"
  have a: "Dispatch ctx0 env0 \<lparr>Cname = ''SET'', Args = [''k'', ''v'']\<rparr> start = Ret (sa, ?r)"
    using enc(1) by (simp add: set sa_def log_command_def AOF_Write_def writeCommands_def c1_def start_def tick_def)
  have b: "Dispatch ctx0 env0 \<lparr>Cname = ''SET'', Args = [''l'', ''v'']\<rparr> sa = Ret (sb, ?r)"
    using enc(2) by (simp add: set sa_def sb_def log_command_def AOF_Write_def writeCommands_def c2_def tick_def)
  have s1: "DispatchBatch ctx0 (\<lambda>_. env0) 0 [\<lparr>Cname = hd c1, Args = tl c1\<rparr>, \<lparr>Cname = hd c2, Args = tl c2\<rparr>] start =
      Ret (sb, EncodeRawArray [?r, ?r])"
    using a b by (simp add: DispatchBatch_def route c1_def c2_def)
  have "AOF_Recover True \<lparr>contents = EncodeArray c1\<rparr> = Ret (Inr [c1])"
    using replay_command [of c1 "[]"] replay_fail [OF Decode_Nil] by (simp add: AOF_Recover_def c1_def args_ok_def bulk_ok_def)
  moreover have "ToUpper uni ''SET'' = ''SET''" by (simp add: ToUpper_def is_ascii_def upper_char_def)
  ultimately obtain s2 where s2: "open_log uni ctx0 (\<lambda>_. env0) True (Some (EncodeArray c1)) True \<lparr>db = store_New 0, aof = None\<rparr> = Ret (Inr s2)"
    "db s2 = Set ''k'' ''v'' 0 ((store_New 0)\<lparr>now := instant env0\<rparr>)"
    by (simp add: open_log_def NewAOF_def c1_def replayAOFCommand_def Replay_def commands_def handleSet_def SetAOF_def tick_def Let_def)
  have "view ((store_New 0)\<lparr>now := x\<rparr>) = (\<lambda>_. None)" for x by (auto simp: view_def store_New_def)
  then show ?thesis using s1 s2 by (intro exI [of _ sb] exI [of _ "EncodeRawArray [?r, ?r]"] exI [of _ s2]) (simp add: sb_def Set_view)
qed

end
