(* ===== verification/Flags.thy ===== *)
theory Flags
  imports Startup
begin

text \<open>
  The command line, \<^verbatim>\<open>setUpFlags\<close> of \<^verbatim>\<open>main.go\<close>, with the parts of the packages \<^verbatim>\<open>flag\<close> and \<^verbatim>\<open>strconv\<close> it uses.
\<close>

subsection \<open>Numbers and truth values: strconv\<close>

text \<open>
  \<^verbatim>\<open>strconv.ParseInt(s, 0, 64)\<close>, which the integer flags use: a prefix chooses the base, and
  underscores may separate digits.
\<close>

definition base_digit :: "char \<Rightarrow> int option" where
  "base_digit c =
     (let n = int (of_char c)
      in if 48 \<le> n \<and> n \<le> 57 then Some (n - 48)
         else if 65 \<le> n \<and> n \<le> 90 then Some (n - 55)
         else if 97 \<le> n \<and> n \<le> 122 then Some (n - 87)
         else None)"

fun base_val :: "int \<Rightarrow> int \<Rightarrow> string \<Rightarrow> int option" where
  "base_val b n [] = Some n"
| "base_val b n (c # cs) =
     (if c = CHR ''_'' then base_val b n cs
      else case base_digit c of
        None \<Rightarrow> None
      | Some d \<Rightarrow> if b \<le> d then None else base_val b (b * n + d) cs)"

definition base_prefix :: "string \<Rightarrow> int \<times> string" where
  "base_prefix s =
     (if hd s \<noteq> CHR ''0'' then (10, s)
      else if 3 \<le> length s \<and> s ! 1 \<in> set ''bB'' then (2, drop 2 s)
      else if 3 \<le> length s \<and> s ! 1 \<in> set ''oO'' then (8, drop 2 s)
      else if 3 \<le> length s \<and> s ! 1 \<in> set ''xX'' then (16, drop 2 s)
      else (8, drop 1 s))"

text \<open>Underscores stand between digits, or between the prefix and a digit: \<open>i\<close> is what came before.\<close>

fun separators :: "bool \<Rightarrow> char \<Rightarrow> string \<Rightarrow> bool" where
  "separators hex i [] \<longleftrightarrow> i \<noteq> CHR ''_''"
| "separators hex i (c # cs) \<longleftrightarrow>
     (if is_digit c \<or> hex \<and> c \<in> set ''abcdefABCDEF'' then separators hex (CHR ''0'') cs
      else if c = CHR ''_'' then i = CHR ''0'' \<and> separators hex (CHR ''_'') cs
      else i \<noteq> CHR ''_'' \<and> separators hex (CHR ''!'') cs)"

definition underscoreOK :: "string \<Rightarrow> bool" where
  "underscoreOK s =
     (if 2 \<le> length s \<and> hd s = CHR ''0'' \<and> s ! 1 \<in> set ''bBoOxX''
      then separators (s ! 1 \<in> set ''xX'') (CHR ''0'') (drop 2 s)
      else separators False (CHR ''^'') s)"

definition ParseInt0 :: "string \<Rightarrow> int option" where
  "ParseInt0 s =
     (if s = [] then None
      else let neg = (hd s = CHR ''-'');
               ds = (if hd s = CHR ''+'' \<or> hd s = CHR ''-'' then tl s else s)
           in if ds = [] then None
              else let (b, rest) = base_prefix ds
                   in (case base_val b 0 rest of
                         None \<Rightarrow> None
                       | Some un \<Rightarrow>
                           if CHR ''_'' \<in> set rest \<and> \<not> underscoreOK ds then None
                           else if \<not> neg \<and> un \<ge> 2 ^ 63 then None
                           else if neg \<and> un > 2 ^ 63 then None
                           else Some (if neg then - un else un)))"

definition ParseBool :: "string \<Rightarrow> bool option" where
  "ParseBool s =
     (if s \<in> set [''1'', ''t'', ''T'', ''true'', ''TRUE'', ''True''] then Some True
      else if s \<in> set [''0'', ''f'', ''F'', ''false'', ''FALSE'', ''False''] then Some False
      else None)"

lemma base_val_digits: "list_all is_digit ds \<Longrightarrow> base_val 10 n ds = Some (digits_val n ds)"
proof (induction ds arbitrary: n)
  case (Cons c cs)
  have "c \<noteq> CHR ''_''" using Cons.prems by (auto simp: is_digit_def)
  then show ?case using Cons by (simp add: base_digit_def is_digit_def digit_val_def Let_def mult.commute)
qed simp

lemma hd_show_nat_pos: "0 < n \<Longrightarrow> hd (show_nat n) \<noteq> CHR ''0''"
proof (induction n rule: show_nat.induct)
  case (1 n)
  show ?case
  proof (cases "n < 10")
    case True
    then show ?thesis using 1(2) less10_cases [OF True] by (subst show_nat.simps) (auto simp: digit_char_def numeral_nat)
  next
    case False
    then have "hd (show_nat (n div 10)) \<noteq> CHR ''0''" by (intro 1(1)) simp_all
    then show ?thesis using False by (subst show_nat.simps) simp
  qed
qed

lemma ParseInt0_FormatInt:
  assumes "in_int64 n"
  shows "ParseInt0 (FormatInt n) = Some n"
proof -
  have digits: "base_val 10 0 (show_nat m) = Some (int m)" "CHR ''_'' \<notin> set (show_nat m)" for m
    using base_val_digits [OF show_nat_digits] show_nat_digits [of m] by (auto simp: list_all_iff is_digit_def)
  have prefix: "(case base_prefix (show_nat m) of (b, rest) \<Rightarrow> base_val b 0 rest) = Some (int m) \<and>
      CHR ''_'' \<notin> set (snd (base_prefix (show_nat m)))" for m
  proof (cases "m = 0")
    case True
    then show ?thesis by (simp add: base_prefix_def show_nat.simps digit_char_def)
  next
    case False
    then show ?thesis using digits hd_show_nat_pos by (simp add: base_prefix_def)
  qed
  have sign: "hd (show_nat m) \<noteq> CHR ''-''" "hd (show_nat m) \<noteq> CHR ''+''" for m
    using hd_show_nat [of m] by (auto simp: is_digit_def)
  show ?thesis using assms prefix [of "nat n"] prefix [of "nat (- n)"] sign
    by (auto simp: ParseInt0_def FormatInt_def in_int64_def Let_def split: prod.splits)
qed

subsection \<open>The command line\<close>

text \<open>
  The flags \<^verbatim>\<open>setUpFlags\<close> defines, by name; the settings of \<open>config\<close> together with
  \<^verbatim>\<open>pprofAddr\<close> are what they set.
\<close>

datatype flag_kind = IntFlag | StringFlag | BoolFlag

type_synonym settings = "config \<times> string"

definition flag_table :: "(string \<times> flag_kind) list" where
  "flag_table =
     [(''port'', IntFlag), (''host'', StringFlag), (''appendOnly'', BoolFlag), (''appendOnlyFile'', StringFlag),
      (''maxmemory'', IntFlag), (''maxmemory-policy'', StringFlag), (''maxmemory-samples'', IntFlag), (''lfu-log-factor'', IntFlag),
      (''lfu-decay-time'', IntFlag), (''cluster-enabled'', BoolFlag), (''cluster-config-file'', StringFlag), (''pprof-addr'', StringFlag)]"

definition set_int :: "string \<Rightarrow> int \<Rightarrow> settings \<Rightarrow> settings" where
  "set_int name n = (\<lambda>(c, p).
     (if name = ''port'' then c\<lparr>cfg_Port := n\<rparr>
      else if name = ''maxmemory'' then c\<lparr>cfg_MaxMemory := n\<rparr>
      else if name = ''maxmemory-samples'' then c\<lparr>cfg_MaxMemorySamples := n\<rparr>
      else if name = ''lfu-log-factor'' then c\<lparr>cfg_LFULogFactor := n\<rparr>
      else c\<lparr>cfg_LFUDecayTime := n\<rparr>, p))"

definition set_string :: "string \<Rightarrow> string \<Rightarrow> settings \<Rightarrow> settings" where
  "set_string name v = (\<lambda>(c, p).
     if name = ''host'' then (c\<lparr>cfg_Host := v\<rparr>, p)
     else if name = ''appendOnlyFile'' then (c\<lparr>cfg_AppendOnlyFile := v\<rparr>, p)
     else if name = ''maxmemory-policy'' then (c\<lparr>cfg_MaxMemoryPolicy := v\<rparr>, p)
     else if name = ''cluster-config-file'' then (c\<lparr>cfg_ClusterConfigFile := v\<rparr>, p)
     else (c, v))"

definition set_bool :: "string \<Rightarrow> bool \<Rightarrow> settings \<Rightarrow> settings" where
  "set_bool name b = (\<lambda>(c, p). (if name = ''appendOnly'' then c\<lparr>cfg_AppendOnly := b\<rparr> else c\<lparr>cfg_ClusterEnabled := b\<rparr>, p))"

datatype flag_err = BadSyntax string | NotDefined string | Help | NeedsArgument string | BadValue string string

text \<open>The \<^verbatim>\<open>Set\<close> method of a flag's value.\<close>

definition set_flag :: "string \<Rightarrow> flag_kind \<Rightarrow> string \<Rightarrow> settings \<Rightarrow> flag_err + settings" where
  "set_flag name k v c =
     (case k of
        IntFlag \<Rightarrow> (case ParseInt0 v of None \<Rightarrow> Inl (BadValue name v) | Some n \<Rightarrow> Inr (set_int name n c))
      | BoolFlag \<Rightarrow> (case ParseBool v of None \<Rightarrow> Inl (BadValue name v) | Some b \<Rightarrow> Inr (set_bool name b c))
      | StringFlag \<Rightarrow> Inr (set_string name v c))"

text \<open>A flag's name and, behind an equals sign that is not its first character, its value.\<close>

definition split_flag :: "string \<Rightarrow> string \<times> string option" where
  "split_flag s =
     (let n = takeWhile (\<lambda>c. c \<noteq> CHR ''='') (tl s)
      in if n = tl s then (s, None) else (hd s # n, Some (drop (length n + 2) s)))"

text \<open>
  \<^verbatim>\<open>flag.Parse\<close>: flags up to the first argument that is none, or up to \<^verbatim>\<open>--\<close>. The arguments behind are
  left over; nothing in \<^verbatim>\<open>main\<close> looks at them. On an error the program exits.
\<close>

fun parse_flags :: "string list \<Rightarrow> settings \<Rightarrow> flag_err + settings \<times> string list" where
  "parse_flags [] c = Inr (c, [])"
| "parse_flags (s # args) c =
     (if length s < 2 \<or> s ! 0 \<noteq> CHR ''-'' then Inr (c, s # args)
      else if s = ''--'' then Inr (c, args)
      else let body = (if s ! 1 = CHR ''-'' then drop 2 s else drop 1 s)
           in if body = [] \<or> hd body = CHR ''-'' \<or> hd body = CHR ''='' then Inl (BadSyntax s)
              else let (name, value) = split_flag body
                   in (case map_of flag_table name of
                         None \<Rightarrow> Inl (if name \<in> set [''help'', ''h''] then Help else NotDefined name)
                       | Some k \<Rightarrow>
                           (case value of
                              Some v \<Rightarrow> (case set_flag name k v c of Inl e \<Rightarrow> Inl e | Inr c1 \<Rightarrow> parse_flags args c1)
                            | None \<Rightarrow>
                                if k = BoolFlag
                                then (case set_flag name k ''true'' c of Inl e \<Rightarrow> Inl e | Inr c1 \<Rightarrow> parse_flags args c1)
                                else (case args of
                                        [] \<Rightarrow> Inl (NeedsArgument name)
                                      | v # args1 \<Rightarrow>
                                          (case set_flag name k v c of Inl e \<Rightarrow> Inl e | Inr c1 \<Rightarrow> parse_flags args1 c1)))))"

definition setUpFlags :: "string list \<Rightarrow> flag_err + settings" where
  "setUpFlags args = (case parse_flags args (flag_defaults, []) of Inl e \<Rightarrow> Inl e | Inr (c, rest) \<Rightarrow> Inr c)"

text \<open>\<^verbatim>\<open>main\<close> as far as the first connection: the command line, then \<open>boot\<close>.\<close>

definition main_start ::
  "machine \<Rightarrow> string list \<Rightarrow> (nat \<Rightarrow> env) \<Rightarrow> bool \<Rightarrow> int \<Rightarrow> ((flag_err + boot_err) + ctx \<times> state) outcome" where
  "main_start M args E seek_ok t =
     (case setUpFlags args of
        Inl e \<Rightarrow> Ret (Inl (Inl e))
      | Inr (cfg, pprof) \<Rightarrow>
          obind (boot M cfg E seek_ok t) (\<lambda>r. Ret (case r of Inl e \<Rightarrow> Inl (Inr e) | Inr cs \<Rightarrow> Inr cs)))"

subsection \<open>Every setting can be set\<close>

text \<open>The command line that asks for given settings.\<close>

definition bool_text :: "bool \<Rightarrow> string" where
  "bool_text b = (if b then ''true'' else ''false'')"

definition to_args :: "settings \<Rightarrow> string list" where
  "to_args = (\<lambda>(c, p).
     [''--port='' @ FormatInt (cfg_Port c), ''--host='' @ cfg_Host c, ''--appendOnly='' @ bool_text (cfg_AppendOnly c),
      ''--appendOnlyFile='' @ cfg_AppendOnlyFile c, ''--maxmemory='' @ FormatInt (cfg_MaxMemory c),
      ''--maxmemory-policy='' @ cfg_MaxMemoryPolicy c, ''--maxmemory-samples='' @ FormatInt (cfg_MaxMemorySamples c),
      ''--lfu-log-factor='' @ FormatInt (cfg_LFULogFactor c), ''--lfu-decay-time='' @ FormatInt (cfg_LFUDecayTime c),
      ''--cluster-enabled='' @ bool_text (cfg_ClusterEnabled c), ''--cluster-config-file='' @ cfg_ClusterConfigFile c,
      ''--pprof-addr='' @ p])"

definition settings_ok :: "config \<Rightarrow> bool" where
  "settings_ok c \<longleftrightarrow> list_all in_int64 [cfg_Port c, cfg_MaxMemory c, cfg_MaxMemorySamples c, cfg_LFULogFactor c, cfg_LFUDecayTime c]"

lemma ParseBool_text [simp]: "ParseBool (bool_text b) = Some b"
  by (simp add: ParseBool_def bool_text_def)

text \<open>
  C40: every setting can be set from the command line, and parsing leaves nothing over: the
  arguments that spell out some settings give back exactly those, whatever they were before.
\<close>

theorem flags_roundtrip:
  assumes "settings_ok (fst c)"
  shows "parse_flags (to_args c) c0 = Inr (c, [])"
proof -
  obtain cfg p where c: "c = (cfg, p)" by (cases c)
  note ints = ParseInt0_FormatInt [of "cfg_Port cfg"] ParseInt0_FormatInt [of "cfg_MaxMemory cfg"]
    ParseInt0_FormatInt [of "cfg_MaxMemorySamples cfg"] ParseInt0_FormatInt [of "cfg_LFULogFactor cfg"] ParseInt0_FormatInt [of "cfg_LFUDecayTime cfg"]
  show ?thesis
    using assms ints
    by (cases c0)
      (simp add: c to_args_def split_flag_def flag_table_def set_flag_def set_int_def set_string_def set_bool_def settings_ok_def)
qed

theorem flags_roundtrip_witness:
  "parse_flags (to_args (flag_defaults\<lparr>cfg_Port := 0, cfg_AppendOnly := True\<rparr>, ''localhost:6060'')) (flag_defaults, []) =
    Inr ((flag_defaults\<lparr>cfg_Port := 0, cfg_AppendOnly := True\<rparr>, ''localhost:6060''), [])"
  by (rule flags_roundtrip) (simp add: settings_ok_def flag_defaults_def in_int64_def)

text \<open>A command line of the documentation, and one where a value behind a switch ends the flags.\<close>

lemma cluster_command_line:
  "setUpFlags [''--port'', ''7001'', ''--cluster-enabled'', ''--cluster-config-file'', ''cluster.conf''] =
    Inr (flag_defaults\<lparr>cfg_Port := 7001, cfg_ClusterEnabled := True, cfg_ClusterConfigFile := ''cluster.conf''\<rparr>, [])"
  by (simp add: setUpFlags_def split_flag_def flag_table_def set_flag_def set_int_def set_string_def set_bool_def ParseInt0_def
      base_prefix_def base_digit_def ParseBool_def)

lemma switch_value_ends_flags:
  "setUpFlags ([''--appendOnly'', ''true''] @ args) = Inr (flag_defaults\<lparr>cfg_AppendOnly := True\<rparr>, [])"
  by (simp add: setUpFlags_def split_flag_def flag_table_def set_flag_def set_bool_def ParseBool_def)

end
