(* ===== verification/Cluster_Map.thy ===== *)
theory Cluster_Map
  imports Effects
begin

text \<open>
  The cluster as its clients see it: the map CLUSTER SLOTS advertises is the one commands are
  routed by, servers that load the same layout file under different ports agree on it, so a
  redirect ends at a node that serves the key, and CLUSTER INFO reports the cluster as
  ok exactly when every slot has an owner.
\<close>

subsection \<open>The slot map clients are given\<close>

definition slot_reply :: "Layout \<Rightarrow> SlotRange \<times> nat \<Rightarrow> reply" where
  "slot_reply l e =
     (case splitAddr (Addr (Nodes l ! snd e)) of
        Panic \<Rightarrow> NullR
      | Ret (host, port) \<Rightarrow>
          ArrayR [IntR (Start (fst e)), IntR (End (fst e)),
            ArrayR [BulkR host, IntR port, BulkR (ID (Nodes l ! snd e)), ArrayR []]])"

lemma omap_eq: "\<forall>x \<in> set xs. f x = Ret (g x) \<Longrightarrow> omap f xs = Ret (map g xs)"
  by (induction xs) simp_all

lemma clusterSlots_reply:
  assumes "ctx_ok C" "layout_ok p l"
  obtains es where "clusterSlots C l = Ret (encode_reply (ArrayR (map (slot_reply l) es)))"
    "set es = {(r, i). i < length (Nodes l) \<and> r \<in> set (Slots (Nodes l ! i))}"
proof -
  define es where "es = concat (map (\<lambda>i. map (\<lambda>r. (r, i)) (Slots (Nodes l ! i))) [0..<length (Nodes l)])"
  have mem: "set (sort_Entries C es) = set es" using assms(1) unfolding ctx_ok_def by (metis mset_eq_setD)
  have es: "set es = {(r, i). i < length (Nodes l) \<and> r \<in> set (Slots (Nodes l ! i))}" by (auto simp: es_def)
  have "slot_entry l e = Ret (encode_reply (slot_reply l e))" if e: "e \<in> set (sort_Entries C es)" for e
  proof -
    have "snd e < length (Nodes l)" using e mem es by auto
    then have "CHR '':'' \<in> set (Addr (Nodes l ! snd e))" using assms(2) nth_mem by (fastforce simp: layout_ok_def)
    then obtain host port where "splitAddr (Addr (Nodes l ! snd e)) = Ret (host, port)" using splitAddr_Ret by fastforce
    then show ?thesis by (simp add: slot_entry_def slot_reply_def)
  qed
  then have "omap (slot_entry l) (sort_Entries C es) = Ret (map (\<lambda>e. encode_reply (slot_reply l e)) (sort_Entries C es))"
    by (intro omap_eq) blast
  then have "clusterSlots C l = Ret (encode_reply (ArrayR (map (slot_reply l) (sort_Entries C es))))"
    by (simp add: clusterSlots_def Let_def es_def [symmetric] comp_def)
  then show thesis using that mem es by metis
qed

text \<open>The redirect to a node.\<close>

definition moved_to :: "string \<Rightarrow> Node \<Rightarrow> string" where
  "moved_to k n = EncodeError (''MOVED '' @ FormatInt (int (KeyHashSlot k)) @ '' '' @ Addr n)"

lemma moved_to_simps [simp]:
  "EncodeError ''CLUSTERDOWN Hash slot not served'' \<noteq> moved_to k n"
  "moved_to k n = moved_to k n' \<longleftrightarrow> Addr n = Addr n'"
  by (simp_all add: moved_to_def EncodeError_def)

lemma routed_slot:
  assumes "Current C = Some l"
  shows "checkKeys C [k] =
    (case Owner l (int (KeyHashSlot k)) of
       None \<Rightarrow> Some (EncodeError ''CLUSTERDOWN Hash slot not served'')
     | Some i \<Rightarrow> if Self l = Some i then None
         else Some (moved_to k (Nodes l ! i)))"
  using assms by (auto simp: checkKeys_def Let_def moved_to_def split: option.splits)

text \<open>
  C22: the slot map a node advertises is the one the nodes route by. CLUSTER SLOTS is an array
  of ranges with their nodes. A key whose slot lies in a range is served by the node named
  with it, and any other node sends the client there; a key in no range is refused.
\<close>

theorem advertised_slots:
  assumes "ctx_ok C" "Current C = Some l" "layout_ok p l"
  shows "\<exists>es. clusterSlots C l = Ret (encode_reply (ArrayR (map (slot_reply l) es))) \<and>
    (\<forall>k. (\<forall>(r, i) \<in> set es. in_range r (KeyHashSlot k) \<longrightarrow>
            checkKeys (C\<lparr>Current := Some (l\<lparr>Self := Some i\<rparr>)\<rparr>) [k] = None \<and>
            (Self l \<noteq> Some i \<longrightarrow> checkKeys C [k] =
               Some (moved_to k (Nodes l ! i)))) \<and>
         ((\<forall>(r, i) \<in> set es. \<not> in_range r (KeyHashSlot k)) \<longrightarrow>
            checkKeys C [k] = Some (EncodeError ''CLUSTERDOWN Hash slot not served'')))"
proof -
  obtain es where es: "clusterSlots C l = Ret (encode_reply (ArrayR (map (slot_reply l) es)))"
    "set es = {(r, i). i < length (Nodes l) \<and> r \<in> set (Slots (Nodes l ! i))}"
    by (rule clusterSlots_reply [OF assms(1,3)])
  have own: "Owner l (int (KeyHashSlot k)) = Some i \<longleftrightarrow> (\<exists>r. (r, i) \<in> set es \<and> in_range r (KeyHashSlot k))" for k i
    using assms(3) KeyHashSlot_less [of k] by (auto simp: Owner_def layout_ok_def es(2) Bex_def)
  have here: "checkKeys (C\<lparr>Current := Some (l\<lparr>Self := Some i\<rparr>)\<rparr>) [k] = None" if "Owner l (int (KeyHashSlot k)) = Some i" for k i
    using that by (simp add: routed_slot Owner_def split: if_splits)
  show ?thesis
  proof (intro exI [of _ es] conjI es(1) allI)
    fix k
    show "\<forall>(r, i) \<in> set es. in_range r (KeyHashSlot k) \<longrightarrow>
        checkKeys (C\<lparr>Current := Some (l\<lparr>Self := Some i\<rparr>)\<rparr>) [k] = None \<and>
        (Self l \<noteq> Some i \<longrightarrow> checkKeys C [k] =
           Some (moved_to k (Nodes l ! i)))"
    proof clarify
      fix r i
      assume "(r, i) \<in> set es" "in_range r (KeyHashSlot k)"
      then have "Owner l (int (KeyHashSlot k)) = Some i" using own by blast
      then show "checkKeys (C\<lparr>Current := Some (l\<lparr>Self := Some i\<rparr>)\<rparr>) [k] = None \<and>
        (Self l \<noteq> Some i \<longrightarrow> checkKeys C [k] =
           Some (moved_to k (Nodes l ! i)))"
        using here routed_slot [OF assms(2)] by simp
    qed
    show "(\<forall>(r, i) \<in> set es. \<not> in_range r (KeyHashSlot k)) \<longrightarrow> checkKeys C [k] = Some (EncodeError ''CLUSTERDOWN Hash slot not served'')"
      using own [of k] routed_slot [OF assms(2), of k] by (cases "Owner l (int (KeyHashSlot k))") fastforce+
  qed
qed

lemma ctx_for_ok:
  assumes "layout_ok p l" "Self l \<noteq> None"
  shows "ctx_ok (ctx0\<lparr>ClusterEnabled := True, Current := Some l\<rparr>)"
  using assms by (auto simp: ctx_ok_def ctx0_def)

theorem advertised_slots_witness:
  "\<exists>l p C es. layout_ok p l \<and> ctx_ok C \<and> ClusterEnabled C \<and> Current C = Some l \<and> Nodes l \<noteq> [] \<and>
     clusterSlots C l = Ret (encode_reply (ArrayR (map (slot_reply l) es)))"
proof -
  obtain l where l: "ParseLayout (\<lambda>_. []) ''a h:7 0-1'' False 7 = Inr l" using small_file_loads by blast
  note ok = ParseLayout_ok [OF l]
  let ?C = "ctx0\<lparr>ClusterEnabled := True, Current := Some l\<rparr>"
  have "ctx_ok ?C" by (rule ctx_for_ok [OF ok(1,3)])
  moreover have "Nodes l \<noteq> []" using ok(1,3) by (auto simp: layout_ok_def)
  ultimately show ?thesis using advertised_slots [of ?C l 7] ok(1)
    by (intro exI [of _ l] exI [of _ 7] exI [of _ ?C]) auto
qed

subsection \<open>The nodes of a cluster agree\<close>

text \<open>The port a server is given decides which node of the file it is, and nothing else.\<close>

lemma parse_line_port:
  assumes "parse_line uni p lno x l = Inr a" "parse_line uni q lno x m = Inr b" "Nodes l = Nodes m" "owner l = owner m"
  shows "Nodes a = Nodes b \<and> owner a = owner b"
  using assms by (auto simp: parse_line_def Let_def split: if_splits option.splits sum.splits prod.splits)

lemma parse_lines_port:
  "parse_lines uni p lno xs l = Inr a \<Longrightarrow> parse_lines uni q lno xs m = Inr b \<Longrightarrow> Nodes l = Nodes m \<Longrightarrow> owner l = owner m
     \<Longrightarrow> Nodes a = Nodes b \<and> owner a = owner b"
proof (induction xs arbitrary: lno l m)
  case (Cons x xs)
  from Cons.prems obtain l1 m1 where step: "parse_line uni p (lno + 1) (dropCR x) l = Inr l1" "parse_line uni q (lno + 1) (dropCR x) m = Inr m1"
    and rest: "parse_lines uni p (lno + 1) xs l1 = Inr a" "parse_lines uni q (lno + 1) xs m1 = Inr b"
    by (auto split: if_splits sum.splits)
  from parse_line_port [OF step Cons.prems(3,4)] Cons.IH [OF rest] show ?case by blast
qed simp

lemma ParseLayout_port:
  assumes "ParseLayout uni r e p = Inr l" "ParseLayout uni r e q = Inr m"
  shows "Nodes l = Nodes m \<and> owner l = owner m"
  using assms parse_lines_port [of uni p 0 "raw_lines r" empty_layout l q empty_layout m]
  by (auto simp: ParseLayout_def split: sum.splits if_splits)

text \<open>
  C21: a redirect is followed once. Take two servers that load the same file under the ports
  p and q. A key one of them serves is not served by the other unless they are the same
  node; and if the first redirects a key to the node with port q, the second serves it.
\<close>

theorem redirect_is_served:
  assumes "ParseLayout uni r e p = Inr l" "ParseLayout uni r e q = Inr m"
    "Current C = Some l" "Current D = Some m"
  shows "(checkKeys C [k] = None \<and> checkKeys D [k] = None \<longrightarrow> p = q) \<and>
    (\<forall>n \<in> set (Nodes l). Port n = q \<and> checkKeys C [k] = Some (moved_to k n) \<longrightarrow> checkKeys D [k] = None) \<and>
    (checkKeys C [k] = None \<or> (\<exists>n \<in> set (Nodes l). checkKeys C [k] = Some (moved_to k n)) \<or>
       checkKeys C [k] = Some (EncodeError ''CLUSTERDOWN Hash slot not served'') \<and> checkKeys D [k] = checkKeys C [k])"
proof -
  have same: "Nodes m = Nodes l" "owner m = owner l" using ParseLayout_port [OF assms(1,2)] by simp_all
  have slot: "Owner l (int (KeyHashSlot k)) = owner l (KeyHashSlot k)" "Owner m (int (KeyHashSlot k)) = owner l (KeyHashSlot k)"
    using KeyHashSlot_less [of k] same by (simp_all add: Owner_def)
  note ok = ParseLayout_ok(1) [OF assms(1)] ParseLayout_ok(1) [OF assms(2)]
  have C: "checkKeys C [k] = (case owner l (KeyHashSlot k) of
       None \<Rightarrow> Some (EncodeError ''CLUSTERDOWN Hash slot not served'')
     | Some i \<Rightarrow> if Self l = Some i then None else Some (moved_to k (Nodes l ! i)))"
    and D: "checkKeys D [k] = (case owner l (KeyHashSlot k) of
       None \<Rightarrow> Some (EncodeError ''CLUSTERDOWN Hash slot not served'')
     | Some i \<Rightarrow> if Self m = Some i then None else Some (moved_to k (Nodes l ! i)))"
    using routed_slot [OF assms(3), of k] routed_slot [OF assms(4), of k] by (simp_all only: slot same)
  show ?thesis
  proof (cases "owner l (KeyHashSlot k)")
    case None
    with C D show ?thesis by simp
  next
    case (Some i)
    then have i: "i < length (Nodes l)" using ok(1) by (simp add: layout_ok_def)
    have p: "Port (Nodes l ! i) = p \<longleftrightarrow> Self l = Some i" and q: "Port (Nodes l ! i) = q \<longleftrightarrow> Self m = Some i"
      using ok i by (simp_all add: layout_ok_def same)
    have "n = Nodes l ! i" if "n \<in> set (Nodes l)" "moved_to k (Nodes l ! i) = moved_to k n" for n
      using that i ok(1) by (auto simp: layout_ok_def distinct_map dest: inj_onD)
    then show ?thesis using C D Some p q i nth_mem [OF i] by auto
  qed
qed

definition two_nodes :: string where
  "two_nodes = ''a h:7 0-1'' @ CHR 0x0A # ''b h:8 2-3''"

lemma two_nodes_load:
  obtains l m n where "ParseLayout (\<lambda>_. []) two_nodes False 7 = Inr l" "ParseLayout (\<lambda>_. []) two_nodes False 8 = Inr m"
    "Nodes m ! 0 = n" "Port n = 7" "n \<in> set (Nodes m)" "owner m 0 = Some 0" "Self m = Some 1"
proof -
  have lines: "raw_lines two_nodes = [''a h:7 0-1'', ''b h:8 2-3'']" by (simp add: two_nodes_def raw_lines.simps)
  note parse = ParseLayout_def lines too_long_def dropCR_def parse_line_def Let_def Fields_def is_space_def
        SplitHostPort_def last_index_def parseRange_def Cut_def empty_layout_def NumSlots_def is_ascii_def
        ParseInt_def is_digit_def digit_val_def
  have "\<exists>l. ParseLayout (\<lambda>_. []) two_nodes False 7 = Inr l" by (simp add: parse)
  moreover have "\<exists>m. ParseLayout (\<lambda>_. []) two_nodes False 8 = Inr m \<and> Port (Nodes m ! 0) = 7 \<and> Nodes m \<noteq> [] \<and>
      owner m 0 = Some 0 \<and> Self m = Some 1" by (simp add: parse)
  ultimately show thesis using that nth_mem by blast
qed

theorem redirect_is_served_witness:
  "\<exists>C D l m n. ParseLayout (\<lambda>_. []) two_nodes False 7 = Inr l \<and> ParseLayout (\<lambda>_. []) two_nodes False 8 = Inr m \<and>
     Current C = Some l \<and> Current D = Some m \<and> checkKeys D [''''] = Some (moved_to '''' n) \<and> checkKeys C [''''] = None"
proof -
  obtain l m n where load: "ParseLayout (\<lambda>_. []) two_nodes False 7 = Inr l" "ParseLayout (\<lambda>_. []) two_nodes False 8 = Inr m"
    and n: "Nodes m ! 0 = n" "Port n = 7" "n \<in> set (Nodes m)" and m: "owner m 0 = Some 0" "Self m = Some 1" by (rule two_nodes_load)
  let ?C = "ctx0\<lparr>ClusterEnabled := True, Current := Some l\<rparr>"
  let ?D = "ctx0\<lparr>ClusterEnabled := True, Current := Some m\<rparr>"
  have slot: "KeyHashSlot [] = 0" by (simp add: KeyHashSlot_no_open slot_of_def CRC16_def)
  have moved: "checkKeys ?D [''''] = Some (moved_to '''' n)"
    using m n(1) routed_slot [of ?D m "[]"] by (simp add: slot Owner_def NumSlots_def)
  have "checkKeys ?C [''''] = None"
    using redirect_is_served [OF load(2,1), of ?D ?C "[]"] moved n by auto
  then show ?thesis using load moved by (intro exI [of _ ?C] exI [of _ ?D] exI [of _ l] exI [of _ m] exI [of _ n]) simp
qed

subsection \<open>The state of the cluster\<close>

text \<open>The sum of the lengths of the ranges counts the slots that have an owner, each once.\<close>

lemma range_card:
  assumes "range_ok r"
  shows "int (card {s. in_range r s}) = End r - Start r + 1"
proof -
  have "card {s. in_range r s} = Suc (nat (End r)) - nat (Start r)"
    using distinct_card [of "[nat (Start r)..<Suc (nat (End r))]"] by (simp add: range_slots [OF assms] del: upt_Suc set_upt)
  then show ?thesis using assms unfolding range_ok_def by linarith
qed

lemma ranges_card:
  "list_all range_ok rs \<Longrightarrow> disjoint_ranges rs \<Longrightarrow>
     finite {s. \<exists>r \<in> set rs. in_range r s} \<and>
     int (card {s. \<exists>r \<in> set rs. in_range r s}) = (\<Sum>r \<leftarrow> rs. End r - Start r + 1)"
proof (induction rs)
  case (Cons r rs)
  let ?A = "{s. in_range r s}" and ?B = "{s. \<exists>q \<in> set rs. in_range q s}"
  have fin: "finite ?A" using range_slots [of r, symmetric] Cons.prems(1) by simp
  have below: "s < NumSlots" if "in_range r s" for s using that Cons.prems(1) by (auto simp: in_range_def range_ok_def)
  then have "?A \<inter> ?B = {}" using Cons.prems(2) by auto
  moreover have "{s. \<exists>q \<in> set (r # rs). in_range q s} = ?A \<union> ?B" by auto
  ultimately show ?case using fin Cons range_card [of r] by (simp add: card_Un_disjoint)
qed simp

lemma slots_assigned_counts:
  assumes "layout_ok p l"
  shows "slots_assigned l = int (card {s. owner l s \<noteq> None})"
proof -
  let ?S = "\<lambda>i. {s. \<exists>r \<in> set (Slots (Nodes l ! i)). in_range r s}"
  have own: "owner l s = Some i \<longleftrightarrow> i < length (Nodes l) \<and> s \<in> ?S i" for s i using assms by (simp add: layout_ok_def)
  have node: "finite (?S i) \<and> int (card (?S i)) = (\<Sum>r \<leftarrow> Slots (Nodes l ! i). End r - Start r + 1)" if "i < length (Nodes l)" for i
    by (rule ranges_card) (use assms that in \<open>auto simp: layout_ok_def\<close>)
  have "{s. owner l s \<noteq> None} = (\<Union>i < length (Nodes l). ?S i)" using own by auto
  moreover have "card (\<Union>i < length (Nodes l). ?S i) = (\<Sum>i < length (Nodes l). card (?S i))"
  proof (rule card_UN_disjoint)
    show "\<forall>i \<in> {..<length (Nodes l)}. \<forall>j \<in> {..<length (Nodes l)}. i \<noteq> j \<longrightarrow> ?S i \<inter> ?S j = {}"
    proof (intro ballI impI, rule ccontr)
      fix i j
      assume "i \<in> {..<length (Nodes l)}" "j \<in> {..<length (Nodes l)}" "i \<noteq> j" "?S i \<inter> ?S j \<noteq> {}"
      then obtain s where "owner l s = Some i" "owner l s = Some j" using own by fastforce
      with \<open>i \<noteq> j\<close> show False by simp
    qed
  qed (use node in auto)
  moreover have "slots_assigned l = (\<Sum>i < length (Nodes l). \<Sum>r \<leftarrow> Slots (Nodes l ! i). End r - Start r + 1)"
    by (simp add: slots_assigned_def sum_list_sum_nth atLeast0LessThan)
  ultimately show ?thesis using node by simp
qed

lemma cluster_state_ok:
  assumes "layout_ok p l"
  shows "slots_assigned l < int NumSlots \<longleftrightarrow> (\<exists>s < NumSlots. owner l s = None)"
proof -
  have "s < NumSlots" if "owner l s \<noteq> None" for s
    using that assms nth_mem by (fastforce simp: layout_ok_def list_all_iff range_ok_def in_range_def)
  then have sub: "{s. owner l s \<noteq> None} \<subseteq> {..<NumSlots}" by auto
  show ?thesis
  proof (cases "{s. owner l s \<noteq> None} = {..<NumSlots}")
    case True
    then show ?thesis by (auto simp: slots_assigned_counts [OF assms])
  next
    case False
    with sub have "card {s. owner l s \<noteq> None} < NumSlots" using psubset_card_mono [of "{..<NumSlots}"] by auto
    then show ?thesis using False sub by (auto simp: slots_assigned_counts [OF assms])
  qed
qed

end
